(* ===== verification/DW_Prelude.thy ===== *)
theory DW_Prelude
  imports Main "HOL-Library.Word"
begin

text \<open>
  Shared vocabulary of the development: the machine-integer types of the Rust
  sources, big-endian byte encodings (\<open>u16::to_be_bytes\<close>, \<open>u32::from_be_bytes\<close>),
  \<open>std::io::Error\<close>, and a small state-and-error monad that renders Rust's
  \<open>Result\<close> with the \<open>?\<close> operator over an explicitly threaded state.  The
  \<^theory_text>\<open>named_theorems\<close> collections declared here carry the automation of the
  component theories.
\<close>

section \<open>Types\<close>

type_synonym u8 = "8 word"
type_synonym u16 = "16 word"
type_synonym u32 = "32 word"
type_synonym u64 = "64 word"
type_synonym bytes = "u8 list"

text \<open>
  Rust's \<open>char\<close> is a Unicode scalar value, here its number, and \<open>str\<close> a sequence of
  them; \<open>lit\<close> turns an ASCII literal into a \<open>str\<close>.
\<close>

type_synonym uchar = nat
type_synonym str = "uchar list"

abbreviation lit :: "string \<Rightarrow> str" where
  "lit s \<equiv> map of_char s"

text \<open>
  \<open>std::io::ErrorKind\<close>, restricted to the kinds the sources name or test; every
  other kind is \<open>OtherKind\<close> with its number.  The message is what \<open>Display\<close> prints.
\<close>

datatype error_kind = UnexpectedEof | BrokenPipe | InvalidInput | InvalidData | NotFound | OtherKind nat

record io_error =
  kind :: error_kind
  message :: str

section \<open>Results over a threaded state\<close>

text \<open>
  A computation that may mutate a state \<open>'s\<close> and either fails with an \<open>'e\<close>
  (\<open>Inl\<close>, Rust's \<open>Err\<close>) or returns an \<open>'a\<close> (\<open>Inr\<close>, Rust's \<open>Ok\<close>).  State changes
  made before a failure are kept, as they are in the program.  \<open>bind_sx m f\<close> is
  \<open>let x = m?; f(x)\<close>.
\<close>

type_synonym ('s, 'e, 'a) sx = "'s \<Rightarrow> ('e + 'a) \<times> 's"

definition return_sx :: "'a \<Rightarrow> ('s, 'e, 'a) sx" where
  "return_sx a = (\<lambda>s. (Inr a, s))"

definition raise_sx :: "'e \<Rightarrow> ('s, 'e, 'a) sx" where
  "raise_sx e = (\<lambda>s. (Inl e, s))"

definition bind_sx :: "('s, 'e, 'a) sx \<Rightarrow> ('a \<Rightarrow> ('s, 'e, 'b) sx) \<Rightarrow> ('s, 'e, 'b) sx" where
  "bind_sx m f = (\<lambda>s. case m s of (Inl e, s') \<Rightarrow> (Inl e, s') | (Inr a, s') \<Rightarrow> f a s')"

definition modify_sx :: "('s \<Rightarrow> 's) \<Rightarrow> ('s, 'e, unit) sx" where
  "modify_sx f = (\<lambda>s. (Inr (), f s))"

definition gets_sx :: "('s \<Rightarrow> 'a) \<Rightarrow> ('s, 'e, 'a) sx" where
  "gets_sx f = (\<lambda>s. (Inr (f s), s))"

text \<open>The collections: \<open>sx_simps\<close> executes monadic code on a known state.\<close>

named_theorems sx_simps

lemma return_sx_apply [sx_simps]: "return_sx a s = (Inr a, s)"
  by (simp add: return_sx_def)

lemma raise_sx_apply [sx_simps]: "raise_sx e s = (Inl e, s)"
  by (simp add: raise_sx_def)

lemma modify_sx_apply [sx_simps]: "modify_sx f s = (Inr (), f s)"
  by (simp add: modify_sx_def)

lemma gets_sx_apply [sx_simps]: "gets_sx f s = (Inr (f s), s)"
  by (simp add: gets_sx_def)

lemma bind_sx_Inr [sx_simps]: "m s = (Inr a, s') \<Longrightarrow> bind_sx m f s = f a s'"
  by (simp add: bind_sx_def)

lemma bind_sx_Inl [sx_simps]: "m s = (Inl e, s') \<Longrightarrow> bind_sx m f s = (Inl e, s')"
  by (simp add: bind_sx_def)

lemma bind_sx_assoc: "bind_sx (bind_sx m f) g = bind_sx m (\<lambda>a. bind_sx (f a) g)"
  by (auto simp: bind_sx_def split: prod.splits sum.splits)

text \<open>
  \<open>safe I E m\<close>: from a state that satisfies \<open>I\<close>, the computation either succeeds in
  such a state again or fails with an error and a state related by \<open>E\<close>.  Programs built
  with \<open>bind_sx\<close> inherit it from their primitives, which is how the invariant, frame and
  error facts of all handlers are proved.
\<close>

definition safe :: "('s \<Rightarrow> bool) \<Rightarrow> ('e \<Rightarrow> 's \<Rightarrow> bool) \<Rightarrow> ('s, 'e, 'a) sx \<Rightarrow> bool" where
  "safe I E m \<longleftrightarrow> (\<forall>s. I s \<longrightarrow> (case m s of (Inr a, s') \<Rightarrow> I s' | (Inl e, s') \<Rightarrow> E e s'))"

named_theorems safe_intros

lemma safe_Inr: "safe I E m \<Longrightarrow> I s \<Longrightarrow> m s = (Inr a, s') \<Longrightarrow> I s'"
  by (auto simp: safe_def split: prod.splits sum.splits)

lemma safe_Inl: "safe I E m \<Longrightarrow> I s \<Longrightarrow> m s = (Inl e, s') \<Longrightarrow> E e s'"
  by (auto simp: safe_def split: prod.splits sum.splits)

lemma safe_bind [safe_intros]:
  assumes "safe I E m" "\<And>a. safe I E (f a)"
  shows "safe I E (bind_sx m f)"
  unfolding safe_def
proof (intro allI impI)
  fix s assume I: "I s"
  show "case bind_sx m f s of (Inr b, s') \<Rightarrow> I s' | (Inl e, s') \<Rightarrow> E e s'"
  proof (cases "m s")
    case (Pair r s')
    show ?thesis
    proof (cases r)
      case (Inl e)
      with safe_Inl [OF assms(1) I] Pair show ?thesis by (simp add: bind_sx_def)
    next
      case (Inr a)
      with safe_Inr [OF assms(1) I] Pair have "I s'" by simp
      with assms(2) [of a] Pair Inr show ?thesis by (simp add: bind_sx_def safe_def)
    qed
  qed
qed

lemma safe_return [safe_intros]: "safe I E (return_sx a)"
  by (simp add: safe_def return_sx_def)

lemma safe_gets [safe_intros]: "safe I E (gets_sx f)"
  by (simp add: safe_def gets_sx_def)

lemma safe_case_option [safe_intros]:
  "safe I E m \<Longrightarrow> (\<And>x. safe I E (f x)) \<Longrightarrow> safe I E (case x of None \<Rightarrow> m | Some y \<Rightarrow> f y)"
  by (simp split: option.splits)

lemma safe_case_prod [safe_intros]: "(\<And>a b. safe I E (f a b)) \<Longrightarrow> safe I E (case p of (a, b) \<Rightarrow> f a b)"
  by (simp split: prod.splits)

lemma safe_if [safe_intros]: "(b \<Longrightarrow> safe I E m) \<Longrightarrow> (\<not> b \<Longrightarrow> safe I E m') \<Longrightarrow> safe I E (if b then m else m')"
  by simp

section \<open>Big-endian encodings\<close>

definition u16_from_be_bytes :: "u8 \<times> u8 \<Rightarrow> u16" where
  "u16_from_be_bytes = (\<lambda>(b1, b0). ucast b1 * 256 + ucast b0)"

definition u16_to_be_bytes :: "u16 \<Rightarrow> u8 \<times> u8" where
  "u16_to_be_bytes w = (ucast (drop_bit 8 w), ucast w)"

definition u32_from_be_bytes :: "u8 \<times> u8 \<times> u8 \<times> u8 \<Rightarrow> u32" where
  "u32_from_be_bytes = (\<lambda>(b3, b2, b1, b0).
     ucast b3 * 16777216 + ucast b2 * 65536 + ucast b1 * 256 + ucast b0)"

definition u32_to_be_bytes :: "u32 \<Rightarrow> u8 \<times> u8 \<times> u8 \<times> u8" where
  "u32_to_be_bytes w = (ucast (drop_bit 24 w), ucast (drop_bit 16 w), ucast (drop_bit 8 w), ucast w)"

lemma u8_less: "unat (b :: u8) < 256"
  using unsigned_less [of b] by simp

lemma unat_ucast_u8_u16 [simp]: "unat (ucast (b :: u8) :: u16) = unat b"
  using u8_less [of b] by (simp add: unsigned_ucast_eq take_bit_eq_mod)

lemma unat_ucast_u8_u32 [simp]: "unat (ucast (b :: u8) :: u32) = unat b"
  using u8_less [of b] by (simp add: unsigned_ucast_eq take_bit_eq_mod)

lemma unat_u16_from_be_bytes: "unat (u16_from_be_bytes (b1, b0)) = unat b1 * 256 + unat b0"
  using u8_less [of b1] u8_less [of b0]
  by (simp add: u16_from_be_bytes_def unat_word_ariths)

lemma unat_u32_from_be_bytes:
  "unat (u32_from_be_bytes (b3, b2, b1, b0)) =
     unat b3 * 16777216 + unat b2 * 65536 + unat b1 * 256 + unat b0"
  using u8_less [of b3] u8_less [of b2] u8_less [of b1] u8_less [of b0]
  by (simp add: u32_from_be_bytes_def unat_word_ariths)

lemma unat_ucast_u16_u8: "unat (ucast (w :: u16) :: u8) = unat w mod 256"
  by (simp add: unsigned_ucast_eq take_bit_eq_mod)

lemma unat_ucast_u32_u8: "unat (ucast (w :: u32) :: u8) = unat w mod 256"
  by (simp add: unsigned_ucast_eq take_bit_eq_mod)

lemma unat_drop_bit_word: "unat (drop_bit n w) = unat w div 2 ^ n"
  by (simp only: unat_drop_bit_eq) (rule drop_bit_eq_div)

text \<open>Base-256 digits of a number, least significant last.\<close>

lemma digits2: "(n :: nat) div 256 mod 256 * 256 + n mod 256 = n mod 65536"
  using mod_mult2_eq [of n 256 256] by simp

lemma digits3: "(n :: nat) div 65536 mod 256 * 65536 + n div 256 mod 256 * 256 + n mod 256 = n mod 16777216"
  using digits2 [of n] mod_mult2_eq [of n 65536 256] by simp

lemma digits4:
  "(n :: nat) div 16777216 mod 256 * 16777216 + n div 65536 mod 256 * 65536 + n div 256 mod 256 * 256
     + n mod 256 = n mod 4294967296"
  using digits3 [of n] mod_mult2_eq [of n 16777216 256] by simp

lemma digit_of2:
  assumes "(b :: nat) < 256"
  shows "(a * 256 + b) div 256 = a" "(a * 256 + b) mod 256 = b"
  using assms by (simp_all add: div_mult_self3)

lemmas word_digits = unat_ucast_u16_u8 unat_ucast_u32_u8 unat_drop_bit_word

lemma u16_be_roundtrip [simp]: "u16_from_be_bytes (u16_to_be_bytes w) = w"
proof -
  have "unat w < 65536" using unsigned_less [of w] by simp
  then have "unat (u16_from_be_bytes (u16_to_be_bytes w)) = unat w"
    using digits2 [of "unat w"] by (simp add: u16_to_be_bytes_def unat_u16_from_be_bytes word_digits)
  then show ?thesis by (simp add: word_unat_eq_iff)
qed

lemma u16_be_roundtrip' [simp]: "u16_to_be_bytes (u16_from_be_bytes (b1, b0)) = (b1, b0)"
  using u8_less [of b1] u8_less [of b0]
  by (simp add: u16_to_be_bytes_def word_unat_eq_iff unat_u16_from_be_bytes word_digits digit_of2)

lemma u32_be_roundtrip [simp]: "u32_from_be_bytes (u32_to_be_bytes w) = w"
proof -
  have "unat w < 4294967296" using unsigned_less [of w] by simp
  then have "unat (u32_from_be_bytes (u32_to_be_bytes w)) = unat w"
    using digits4 [of "unat w"] by (simp add: u32_to_be_bytes_def unat_u32_from_be_bytes word_digits)
  then show ?thesis by (simp add: word_unat_eq_iff)
qed

section \<open>Lists\<close>

text \<open>A block of bytes of known length is the concatenation of its pieces.\<close>

lemma length_2_conv: "length xs = 2 \<longleftrightarrow> (\<exists>a b. xs = [a, b])"
  by (auto simp: numeral_2_eq_2 length_Suc_conv)

lemma length_4_conv: "length xs = 4 \<longleftrightarrow> (\<exists>a b c d. xs = [a, b, c, d])"
  by (auto simp: eval_nat_numeral length_Suc_conv)

end
