(* ===== verification/Proto.thy ===== *)
theory Proto
  imports DW_Prelude
begin

text \<open>
  The crate \<open>drivewire-proto\<close>: the additive checksum (\<open>checksum.rs\<close>), the one-byte
  error responses (\<open>error.rs\<close>), the 24-bit logical sector number (\<open>lsn.rs\<close>) and the
  opcode table with its decoder (\<open>opcode.rs\<close>).  Everything here is pure.
\<close>

section \<open>Checksum (checksum.rs)\<close>

definition checksum16 :: "bytes \<Rightarrow> u16" where
  "checksum16 data = foldl (\<lambda>acc b. acc + ucast b) 0 data"

section \<open>Error responses (error.rs)\<close>

datatype dw_error = ErrCrc | ErrRead | ErrWrite | ErrNotReady

fun dw_error_code :: "dw_error \<Rightarrow> u8" where
  "dw_error_code ErrCrc = 0xF3"
| "dw_error_code ErrRead = 0xF4"
| "dw_error_code ErrWrite = 0xF5"
| "dw_error_code ErrNotReady = 0xF6"

section \<open>Logical sector numbers (lsn.rs)\<close>

datatype lsn = Lsn (lsn_val: u32)

definition lsn_MAX :: lsn where
  "lsn_MAX = Lsn 0x00FFFFFF"

text \<open>\<open>Lsn\<close> derives \<open>PartialOrd\<close> and \<open>Ord\<close>: the order of its one field.\<close>

instantiation lsn :: linorder
begin

definition less_eq_lsn :: "lsn \<Rightarrow> lsn \<Rightarrow> bool" where
  "less_eq_lsn a b \<longleftrightarrow> lsn_val a \<le> lsn_val b"

definition less_lsn :: "lsn \<Rightarrow> lsn \<Rightarrow> bool" where
  "less_lsn a b \<longleftrightarrow> lsn_val a < lsn_val b"

instance
  by standard (auto simp: less_eq_lsn_def less_lsn_def lsn.expand)

end

definition from_be3 :: "u8 \<times> u8 \<times> u8 \<Rightarrow> lsn" where
  "from_be3 = (\<lambda>(b0, b1, b2). Lsn (u32_from_be_bytes (0, b0, b1, b2)))"

definition to_be3 :: "lsn \<Rightarrow> u8 \<times> u8 \<times> u8" where
  "to_be3 l = (let (b0, b1, b2, b3) = u32_to_be_bytes (lsn_val l) in (b1, b2, b3))"

section \<open>Opcodes (opcode.rs)\<close>

datatype opcode =
    Nop | Time | PrintFlush | GetStat | Init | Print | Read | SetStat | Term | Write
  | Reread | Rewrite | ReadEx | RereadEx | Reset2 | Reset1
  | WirebugMode | SerRead | SerGetStat | SerInit | DwInit | SerReadM | SerWriteM
  | SerWrite | SerSetStat | SerTerm | Reset3

text \<open>The discriminants of the \<open>repr(u8)\<close> enum.\<close>

fun opcode_byte :: "opcode \<Rightarrow> u8" where
  "opcode_byte Nop = 0x00"
| "opcode_byte Time = 0x23"
| "opcode_byte PrintFlush = 0x46"
| "opcode_byte GetStat = 0x47"
| "opcode_byte Init = 0x49"
| "opcode_byte Print = 0x50"
| "opcode_byte Read = 0x52"
| "opcode_byte SetStat = 0x53"
| "opcode_byte Term = 0x54"
| "opcode_byte Write = 0x57"
| "opcode_byte Reread = 0x72"
| "opcode_byte Rewrite = 0x77"
| "opcode_byte ReadEx = 0xD2"
| "opcode_byte RereadEx = 0xF2"
| "opcode_byte Reset2 = 0xFE"
| "opcode_byte Reset1 = 0xFF"
| "opcode_byte WirebugMode = 0x42"
| "opcode_byte SerRead = 0x43"
| "opcode_byte SerGetStat = 0x44"
| "opcode_byte SerInit = 0x45"
| "opcode_byte DwInit = 0x5A"
| "opcode_byte SerReadM = 0x63"
| "opcode_byte SerWriteM = 0x64"
| "opcode_byte SerWrite = 0xC3"
| "opcode_byte SerSetStat = 0xC4"
| "opcode_byte SerTerm = 0xC5"
| "opcode_byte Reset3 = 0xF8"

text \<open>\<open>TryFrom<u8> for Opcode\<close>: \<open>Err\<close> carries the byte back.\<close>

definition opcode_try_from :: "u8 \<Rightarrow> u8 + opcode" where
  "opcode_try_from b =
    (if b = 0x00 then Inr Nop
     else if b = 0x23 then Inr Time
     else if b = 0x42 then Inr WirebugMode
     else if b = 0x43 then Inr SerRead
     else if b = 0x44 then Inr SerGetStat
     else if b = 0x45 then Inr SerInit
     else if b = 0x46 then Inr PrintFlush
     else if b = 0x47 then Inr GetStat
     else if b = 0x49 then Inr Init
     else if b = 0x50 then Inr Print
     else if b = 0x52 then Inr Read
     else if b = 0x53 then Inr SetStat
     else if b = 0x54 then Inr Term
     else if b = 0x57 then Inr Write
     else if b = 0x5A then Inr DwInit
     else if b = 0x63 then Inr SerReadM
     else if b = 0x64 then Inr SerWriteM
     else if b = 0x72 then Inr Reread
     else if b = 0x77 then Inr Rewrite
     else if b = 0xC3 then Inr SerWrite
     else if b = 0xC4 then Inr SerSetStat
     else if b = 0xC5 then Inr SerTerm
     else if b = 0xD2 then Inr ReadEx
     else if b = 0xF2 then Inr RereadEx
     else if b = 0xF8 then Inr Reset3
     else if b = 0xFE then Inr Reset2
     else if b = 0xFF then Inr Reset1
     else Inl b)"

datatype decoded = Op opcode | FastWrite u8 | Unknown u8

definition from_byte :: "u8 \<Rightarrow> decoded" where
  "from_byte b =
    (if 0x80 \<le> b \<and> b \<le> 0x8F then FastWrite (b - 0x80)
     else case opcode_try_from b of Inr opc \<Rightarrow> Op opc | Inl _ \<Rightarrow> Unknown b)"

section \<open>Facts about the checksum\<close>

lemma checksum16_foldl: "foldl (\<lambda>acc b. acc + ucast (b :: u8)) c xs = c + checksum16 xs"
proof (induction xs arbitrary: c)
  case (Cons x xs)
  from Cons [of "c + ucast x"] Cons [of "ucast x"] show ?case
    by (simp add: checksum16_def)
qed (simp add: checksum16_def)

lemma checksum16_Nil [simp]: "checksum16 [] = 0"
  by (simp add: checksum16_def)

lemma checksum16_Cons [simp]: "checksum16 (b # bs) = ucast b + checksum16 bs"
  using checksum16_foldl [of "ucast b" bs] by (simp add: checksum16_def)

lemma checksum16_append [simp]: "checksum16 (xs @ ys) = checksum16 xs + checksum16 ys"
  by (induction xs) auto

lemma checksum16_replicate_0 [simp]: "checksum16 (replicate n 0) = 0"
  by (induction n) auto

lemma unat_checksum16: "unat (checksum16 data) = sum_list (map unat data) mod 65536"
proof (induction data)
  case (Cons b bs)
  have "unat (checksum16 (b # bs)) = (unat b + unat (checksum16 bs)) mod 65536"
    by (simp add: unat_word_ariths)
  with Cons show ?case by (simp add: mod_simps)
qed simp

lemma sum_list_unat_le: "sum_list (map unat (xs :: bytes)) \<le> 255 * length xs"
proof (induction xs)
  case (Cons x xs)
  moreover have "unat x \<le> 255" using u8_less [of x] by linarith
  ultimately show ?case by simp
qed simp

text \<open>
  Over any block of at most 257 bytes, so in particular over a 256-byte sector,
  the 16-bit checksum is the exact sum of the bytes: the wrapping addition of
  \<open>checksum16\<close> never wraps.
\<close>

theorem checksum16_exact:
  assumes "length data \<le> 257"
  shows "unat (checksum16 data) = sum_list (map unat data)"
proof -
  have "sum_list (map unat data) \<le> 255 * 257"
    using sum_list_unat_le [of data] assms by linarith
  then show ?thesis by (simp add: unat_checksum16)
qed

theorem checksum16_exact_witness:
  "unat (checksum16 [0xFF, 0xFF, 0x03]) = 513"
  using checksum16_exact [of "[0xFF, 0xFF, 0x03]"] by simp

lemma checksum16_update_neq:
  assumes "i < length data" "data ! i \<noteq> b"
  shows "checksum16 (data[i := b]) \<noteq> checksum16 data"
proof -
  have split: "data = take i data @ data ! i # drop (Suc i) data"
    using assms(1) by (simp add: id_take_nth_drop)
  have "checksum16 (data[i := b]) = checksum16 data + (ucast b - ucast (data ! i))"
    by (subst (2) split) (simp add: upd_conv_take_nth_drop assms(1))
  moreover have "(ucast b :: u16) \<noteq> ucast (data ! i)"
  proof
    assume "(ucast b :: u16) = ucast (data ! i)"
    then have "unat b = unat (data ! i)" by (metis unat_ucast_u8_u16)
    with assms(2) show False by (simp add: word_unat_eq_iff)
  qed
  ultimately show ?thesis by simp
qed

text \<open>
  Corrupting exactly one byte of a block, whatever its length, always changes
  the checksum; a single-byte transmission error never passes the comparison of
  \<open>handle_read\<close> and \<open>handle_write\<close>.
\<close>

theorem checksum16_detects_single_byte:
  assumes "i < length data" "b \<noteq> data ! i"
  shows "checksum16 (data[i := b]) \<noteq> checksum16 data"
  using assms by (metis checksum16_update_neq)

theorem checksum16_detects_single_byte_witness:
  "checksum16 ([1, 2, 3][1 := 7]) \<noteq> checksum16 [1, 2, 3]"
  using checksum16_detects_single_byte [of 1 "[1, 2, 3]" 7] by simp

section \<open>Facts about sector numbers\<close>

lemma from_be3_val: "unat (lsn_val (from_be3 (a, b, c))) = unat a * 65536 + unat b * 256 + unat c"
  by (simp add: from_be3_def unat_u32_from_be_bytes)

lemma from_be3_bound: "unat (lsn_val (from_be3 bs)) < 16777216"
proof (cases bs)
  case (fields a b c)
  with u8_less [of a] u8_less [of b] u8_less [of c] show ?thesis
    by (simp add: from_be3_val)
qed

lemma from_be3_le_MAX: "from_be3 bs \<le> lsn_MAX"
  using from_be3_bound [of bs] by (simp add: less_eq_lsn_def lsn_MAX_def word_le_nat_alt)

lemma to_be3_digits:
  "to_be3 (Lsn w) = (a, b, c) \<longleftrightarrow>
     unat a = unat w div 65536 mod 256 \<and> unat b = unat w div 256 mod 256 \<and> unat c = unat w mod 256"
  by (auto simp: to_be3_def u32_to_be_bytes_def word_unat_eq_iff word_digits)

lemma to_be3_from_be3 [simp]: "to_be3 (from_be3 bs) = bs"
proof (cases bs)
  case (fields a b c)
  let ?n = "unat a * 65536 + unat b * 256 + unat c"
  have "?n = (unat a * 256 + unat b) * 256 + unat c" by simp
  then have "?n div 256 = unat a * 256 + unat b" "?n mod 256 = unat c"
    using digit_of2 u8_less [of c] by metis+
  moreover from this have "?n div 65536 = unat a"
    using digit_of2 [of "unat b" "unat a"] u8_less [of b] div_mult2_eq [of ?n 256 256] by simp
  ultimately show ?thesis
    using from_be3_val [of a b c] u8_less [of a] u8_less [of b]
    by (cases "from_be3 bs") (simp add: fields to_be3_digits digit_of2)
qed

lemma from_be3_to_be3:
  assumes "l \<le> lsn_MAX"
  shows "from_be3 (to_be3 l) = l"
proof -
  obtain a b c where abc: "to_be3 l = (a, b, c)" by (cases "to_be3 l")
  let ?n = "unat (lsn_val l)"
  have "?n < 16777216"
    using assms by (simp add: less_eq_lsn_def lsn_MAX_def word_le_nat_alt)
  moreover have "unat a = ?n div 65536 mod 256 \<and> unat b = ?n div 256 mod 256 \<and> unat c = ?n mod 256"
    using abc by (cases l) (simp add: to_be3_digits)
  ultimately have "unat (lsn_val (from_be3 (to_be3 l))) = ?n"
    unfolding abc from_be3_val using digits3 [of ?n] by simp
  then show ?thesis by (simp add: lsn.expand word_unat_eq_iff)
qed

text \<open>
  C40: the three-byte sector field round-trips in both directions.  Decoding then
  encoding is the identity on every field; encoding then decoding is the identity
  exactly on the numbers up to \<open>Lsn::MAX\<close>, and everything a packet can carry is in
  that range.
\<close>

theorem lsn_roundtrip:
  "to_be3 (from_be3 bs) = bs \<and> from_be3 bs \<le> lsn_MAX \<and> (from_be3 (to_be3 l) = l \<longleftrightarrow> l \<le> lsn_MAX)"
  by (metis from_be3_le_MAX from_be3_to_be3 to_be3_from_be3)

section \<open>Facts about opcodes\<close>

lemma opcode_try_from_byte [simp]: "opcode_try_from (opcode_byte opc) = Inr opc"
  by (cases opc) (simp_all add: opcode_try_from_def)

lemma opcode_try_from_Inr: "opcode_try_from b = Inr opc \<Longrightarrow> b = opcode_byte opc"
  by (auto simp: opcode_try_from_def split: if_splits)

lemma opcode_try_from_Inl: "opcode_try_from b = Inl c \<Longrightarrow> c = b"
  by (auto simp: opcode_try_from_def split: if_splits)

lemma opcode_byte_not_fast: "\<not> (0x80 \<le> opcode_byte opc \<and> opcode_byte opc \<le> 0x8F)"
  by (cases opc) (simp_all add: word_le_nat_alt)

declare opcode_byte.simps [simp del]

lemma from_byte_opcode_byte [simp]: "from_byte (opcode_byte opc) = Op opc"
  using opcode_byte_not_fast [of opc] by (simp add: from_byte_def)

lemma from_byte_Op_iff: "from_byte b = Op opc \<longleftrightarrow> b = opcode_byte opc"
proof
  assume "from_byte b = Op opc"
  then show "b = opcode_byte opc"
    by (auto simp: from_byte_def split: if_splits sum.splits dest: opcode_try_from_Inr)
qed simp

lemma from_byte_FastWrite_iff: "from_byte b = FastWrite c \<longleftrightarrow> b = 0x80 + c \<and> unat c < 16"
proof -
  have *: "0x80 \<le> b \<and> b \<le> 0x8F \<longleftrightarrow> unat (b - 0x80) < 16" for b :: u8
    by (simp add: word_le_nat_alt unat_sub_if_size word_size) (use u8_less [of b] in linarith)
  show ?thesis
    using * [of b] * [of "0x80 + c"]
    by (auto simp: from_byte_def split: if_splits sum.splits)
qed

lemma from_byte_fast [simp]: "unat c < 16 \<Longrightarrow> from_byte (0x80 + c) = FastWrite c"
  by (simp add: from_byte_FastWrite_iff)

lemma from_byte_UnknownD: "from_byte b = Unknown c \<Longrightarrow> c = b"
  by (auto simp: from_byte_def split: if_splits sum.splits)

text \<open>
  C39: the decoder is exact.  A byte decodes to a named opcode precisely when it is
  that opcode's discriminant, to \<open>FastWrite\<close> precisely in the range 0x80..0x8F and
  then with a channel below 16, and distinct bytes always decode differently, so no
  two requests can be confused.
\<close>

theorem from_byte_exact:
  "(from_byte b = Op opc \<longleftrightarrow> b = opcode_byte opc) \<and>
   (from_byte b = FastWrite c \<longleftrightarrow> b = 0x80 + c \<and> unat c < 16) \<and>
   inj from_byte"
proof -
  have "inj from_byte"
  proof (rule injI)
    fix x y assume eq: "from_byte x = from_byte y"
    show "x = y"
    proof (cases "from_byte x")
      case (Op opc) with eq show ?thesis by (metis from_byte_Op_iff)
    next
      case (FastWrite c) with eq show ?thesis by (metis from_byte_FastWrite_iff)
    next
      case (Unknown c) with eq show ?thesis by (metis from_byte_UnknownD)
    qed
  qed
  then show ?thesis by (simp add: from_byte_Op_iff from_byte_FastWrite_iff)
qed

end
