(* ===== verification/VDisk.thy ===== *)
theory VDisk
  imports Proto
begin

text \<open>
  The crate \<open>drivewire-vdisk\<close>: virtual disks of 256-byte sectors.  The file system the
  \<open>DskFile\<close> backend uses is explicit: an image is a byte sequence found through the
  directory at \<open>open\<close> time and identified by a file number from then on, so two mounts
  of one image share their contents.  A file may be shorter than it was when it was
  opened, and seeks, reads and writes may fail; a failing write may leave a prefix of
  its data behind.  The trait \<open>VDisk\<close> is the locale \<open>vdisk\<close>.
\<close>

section \<open>Files\<close>

record image_file =
  fdata :: bytes
  fseek_err :: "io_error option"
  fread_err :: "io_error option"
  fwrite_fault :: "(nat \<times> io_error) option"

text \<open>
  \<open>fs_open path write\<close> is the answer of \<open>OpenOptions::open\<close>: a file number or an
  error; \<open>fs_stat\<close> gives the error of \<open>metadata\<close>, if it fails.
\<close>

record filesys =
  fs_open :: "str \<Rightarrow> bool \<Rightarrow> io_error + nat"
  fs_stat :: "nat \<Rightarrow> io_error option"
  fs_file :: "nat \<Rightarrow> image_file"

definition splice :: "bytes \<Rightarrow> nat \<Rightarrow> bytes \<Rightarrow> bytes" where
  "splice data pos bs =
     take pos data @ replicate (pos - length data) 0 @ bs @ drop (pos + length bs) data"

definition file_seek :: "nat \<Rightarrow> u64 \<Rightarrow> (filesys, io_error, nat) sx" where
  "file_seek ino off fs = (case fseek_err (fs_file fs ino) of Some e \<Rightarrow> (Inl e, fs) | None \<Rightarrow> (Inr (unat off), fs))"

definition file_read_exact :: "nat \<Rightarrow> nat \<Rightarrow> nat \<Rightarrow> (filesys, io_error, bytes) sx" where
  "file_read_exact ino pos n fs =
    (let f = fs_file fs ino in
     case fread_err f of
       Some e \<Rightarrow> (Inl e, fs)
     | None \<Rightarrow>
         (if pos + n \<le> length (fdata f) then (Inr (take n (drop pos (fdata f))), fs)
          else (Inl \<lparr>kind = UnexpectedEof, message = lit ''early eof''\<rparr>, fs)))"

text \<open>\<open>write_all\<close> followed by \<open>flush\<close>, which reports a write error that is still pending.\<close>

definition file_write_all :: "nat \<Rightarrow> nat \<Rightarrow> bytes \<Rightarrow> (filesys, io_error, unit) sx" where
  "file_write_all ino pos bs fs =
    (let f = fs_file fs ino in
     case fwrite_fault f of
       None \<Rightarrow> (Inr (), fs\<lparr>fs_file := (fs_file fs)(ino := f\<lparr>fdata := splice (fdata f) pos bs\<rparr>)\<rparr>)
     | Some (room, e) \<Rightarrow>
         (if length bs \<le> room
          then (Inr (), fs\<lparr>fs_file := (fs_file fs)(ino :=
                  f\<lparr>fdata := splice (fdata f) pos bs, fwrite_fault := Some (room - length bs, e)\<rparr>)\<rparr>)
          else (Inl e, fs\<lparr>fs_file := (fs_file fs)(ino :=
                  f\<lparr>fdata := (if room = 0 then fdata f else splice (fdata f) pos (take room bs)),
                    fwrite_fault := Some (0, e)\<rparr>)\<rparr>)))"

section \<open>DskFile\<close>

definition SECTOR_SIZE :: nat where
  "SECTOR_SIZE = 256"

datatype vdisk_error = OutOfRange lsn | ReadOnly | VIo io_error

record dsk_file =
  dsk_path :: str
  dsk_ino :: nat
  dsk_sector_count :: u32
  dsk_read_only :: bool

definition io_vd :: "(filesys, io_error, 'a) sx \<Rightarrow> (filesys, vdisk_error, 'a) sx" where
  "io_vd m fs = (case m fs of (Inl e, fs') \<Rightarrow> (Inl (VIo e), fs') | (Inr a, fs') \<Rightarrow> (Inr a, fs'))"

definition dsk_open :: "str \<Rightarrow> bool \<Rightarrow> (filesys, vdisk_error, dsk_file) sx" where
  "dsk_open path read_only fs =
    (case fs_open fs path (\<not> read_only) of
       Inl e \<Rightarrow> (Inl (VIo e), fs)
     | Inr ino \<Rightarrow>
         (case fs_stat fs ino of
            Some e \<Rightarrow> (Inl (VIo e), fs)
          | None \<Rightarrow>
              (let len = length (fdata (fs_file fs ino)) in
               (Inr \<lparr>dsk_path = path, dsk_ino = ino,
                     dsk_sector_count = word_of_nat (len div SECTOR_SIZE),
                     dsk_read_only = read_only\<rparr>, fs))))"

definition sector_offset :: "lsn \<Rightarrow> u64" where
  "sector_offset l = ucast (lsn_val l) * word_of_nat SECTOR_SIZE"

definition dsk_read :: "dsk_file \<Rightarrow> lsn \<Rightarrow> (filesys, vdisk_error, bytes) sx" where
  "dsk_read d l =
    (if lsn_val l \<ge> dsk_sector_count d then raise_sx (OutOfRange l)
     else bind_sx (io_vd (file_seek (dsk_ino d) (sector_offset l))) (\<lambda>pos.
          io_vd (file_read_exact (dsk_ino d) pos SECTOR_SIZE)))"

definition dsk_write :: "dsk_file \<Rightarrow> lsn \<Rightarrow> bytes \<Rightarrow> (filesys, vdisk_error, unit) sx" where
  "dsk_write d l data =
    (if dsk_read_only d then raise_sx ReadOnly
     else if lsn_val l \<ge> dsk_sector_count d then raise_sx (OutOfRange l)
     else bind_sx (io_vd (file_seek (dsk_ino d) (sector_offset l))) (\<lambda>pos.
          io_vd (file_write_all (dsk_ino d) pos data)))"

section \<open>Byte-level facts\<close>

lemma length_splice: "length (splice data pos bs) = max (length data) (pos + length bs)"
  by (auto simp: splice_def)

lemma take_splice: "pos \<le> length data \<Longrightarrow> take pos (splice data pos bs) = take pos data"
  by (simp add: splice_def)

lemma drop_splice: "pos \<le> length data \<Longrightarrow> drop (pos + length bs) (splice data pos bs) = drop (pos + length bs) data"
  by (simp add: splice_def)

lemma read_splice: "pos \<le> length data \<Longrightarrow> take (length bs) (drop pos (splice data pos bs)) = bs"
  by (simp add: splice_def)

lemma nth_splice:
  assumes "i < length data" "pos \<le> length data"
  shows "splice data pos bs ! i = (if pos \<le> i \<and> i < pos + length bs then bs ! (i - pos) else data ! i)"
  using assms by (auto simp: splice_def nth_append)

text \<open>A block that does not meet the spliced one is not changed by it.\<close>

lemma read_splice_other:
  assumes "pos \<le> length data" "i + n \<le> length data" "i + n \<le> pos \<or> pos + length bs \<le> i"
  shows "take n (drop i (splice data pos bs)) = take n (drop i data)"
proof (rule nth_equalityI)
  show "length (take n (drop i (splice data pos bs))) = length (take n (drop i data))"
    using assms(2) by (simp add: length_splice)
next
  fix k assume "k < length (take n (drop i (splice data pos bs)))"
  then have "k < n" by simp
  with assms show "take n (drop i (splice data pos bs)) ! k = take n (drop i data) ! k"
    by (auto simp: length_splice nth_splice)
qed

lemma unat_sector_offset [simp]: "unat (sector_offset l) = unat (lsn_val l) * 256"
proof -
  have lt: "unat (lsn_val l) < 4294967296" using unsigned_less [of "lsn_val l"] by simp
  then have "unat (ucast (lsn_val l) :: u64) = unat (lsn_val l)"
    by (simp add: unsigned_ucast_eq take_bit_eq_mod)
  with lt show ?thesis by (simp add: sector_offset_def SECTOR_SIZE_def unat_word_ariths)
qed

lemma lsn_lt_count: "\<not> dsk_sector_count d \<le> lsn_val l \<longleftrightarrow> unat (lsn_val l) < unat (dsk_sector_count d)"
  by (simp add: word_le_nat_alt not_le)

section \<open>The abstract disk\<close>

text \<open>
  What the server relies on: a disk is an array of sectors.  \<open>disk_ok\<close> says that the
  image is still as long as it was when it was opened and that the device does not fail.
\<close>

definition disk_ok :: "dsk_file \<Rightarrow> filesys \<Rightarrow> bool" where
  "disk_ok d fs \<longleftrightarrow>
     (let f = fs_file fs (dsk_ino d) in
      unat (dsk_sector_count d) * 256 \<le> length (fdata f) \<and>
      fseek_err f = None \<and> fread_err f = None \<and> fwrite_fault f = None)"

definition sector_at :: "dsk_file \<Rightarrow> filesys \<Rightarrow> nat \<Rightarrow> bytes" where
  "sector_at d fs i = take 256 (drop (i * 256) (fdata (fs_file fs (dsk_ino d))))"

definition disk_sectors :: "dsk_file \<Rightarrow> filesys \<Rightarrow> bytes list" where
  "disk_sectors d fs = map (sector_at d fs) [0..<unat (dsk_sector_count d)]"

lemma length_disk_sectors [simp]: "length (disk_sectors d fs) = unat (dsk_sector_count d)"
  by (simp add: disk_sectors_def)

lemma sector_fits:
  assumes "disk_ok d fs" "i < unat (dsk_sector_count d)"
  shows "i * 256 + 256 \<le> length (fdata (fs_file fs (dsk_ino d)))"
proof -
  have "(i + 1) * 256 \<le> unat (dsk_sector_count d) * 256"
    using assms(2) by (intro mult_le_mono1) simp
  with assms(1) show ?thesis by (simp add: disk_ok_def Let_def)
qed

lemma length_sector_at: "disk_ok d fs \<Longrightarrow> i < unat (dsk_sector_count d) \<Longrightarrow> length (sector_at d fs i) = 256"
  using sector_fits [of d fs i] by (simp add: sector_at_def)

lemma dsk_read_eq:
  assumes "disk_ok d fs"
  shows "dsk_read d l fs =
    ((if unat (lsn_val l) < unat (dsk_sector_count d)
      then Inr (disk_sectors d fs ! unat (lsn_val l)) else Inl (OutOfRange l)), fs)"
proof (cases "unat (lsn_val l) < unat (dsk_sector_count d)")
  case True
  then have "\<not> dsk_sector_count d \<le> lsn_val l" by (simp add: lsn_lt_count)
  moreover have "unat (lsn_val l) * 256 + 256 \<le> length (fdata (fs_file fs (dsk_ino d)))"
    using sector_fits [OF assms True] .
  ultimately show ?thesis
    using assms True
    by (simp add: dsk_read_def disk_ok_def Let_def bind_sx_def io_vd_def file_seek_def
        file_read_exact_def SECTOR_SIZE_def disk_sectors_def sector_at_def)
next
  case False
  then have "dsk_sector_count d \<le> lsn_val l" using lsn_lt_count [of d l] by blast
  with False show ?thesis by (simp add: dsk_read_def raise_sx_def)
qed

text \<open>Writing through one handle, seen through another that shares the file.\<close>

lemma dsk_write_ok_state:
  assumes "disk_ok d fs" "\<not> dsk_read_only d" "unat (lsn_val l) < unat (dsk_sector_count d)"
  shows "dsk_write d l data fs =
    (Inr (), fs\<lparr>fs_file := (fs_file fs)(dsk_ino d :=
       (fs_file fs (dsk_ino d))\<lparr>fdata :=
          splice (fdata (fs_file fs (dsk_ino d))) (unat (lsn_val l) * 256) data\<rparr>)\<rparr>)"
proof -
  have "\<not> dsk_sector_count d \<le> lsn_val l" using assms(3) lsn_lt_count by blast
  with assms(1,2) show ?thesis
    by (simp add: dsk_write_def disk_ok_def Let_def bind_sx_def io_vd_def file_seek_def file_write_all_def)
qed

lemma dsk_write_disk_ok:
  assumes "disk_ok d fs" "length data = 256" "dsk_write d l data fs = (r, fs')" "disk_ok d2 fs"
  shows "disk_ok d2 fs'"
proof (cases "\<not> dsk_read_only d \<and> unat (lsn_val l) < unat (dsk_sector_count d)")
  case True
  with dsk_write_ok_state [OF assms(1), of l data] assms(3,4) show ?thesis
    by (auto simp: disk_ok_def Let_def length_splice)
next
  case False
  with assms(3,4) show ?thesis by (auto simp: dsk_write_def raise_sx_def lsn_lt_count split: if_splits)
qed

lemma dsk_write_sectors:
  assumes ok: "disk_ok d fs" "disk_ok d2 fs" and len: "length data = 256"
    and lt: "\<not> dsk_read_only d" "unat (lsn_val l) < unat (dsk_sector_count d)"
    and w: "dsk_write d l data fs = (r, fs')"
  shows "disk_sectors d2 fs' =
    (if dsk_ino d2 = dsk_ino d then (disk_sectors d2 fs)[unat (lsn_val l) := data] else disk_sectors d2 fs)"
proof (rule nth_equalityI)
  show "length (disk_sectors d2 fs') = length (if dsk_ino d2 = dsk_ino d
      then (disk_sectors d2 fs)[unat (lsn_val l) := data] else disk_sectors d2 fs)"
    by simp
next
  fix i assume "i < length (disk_sectors d2 fs')"
  then have i: "i < unat (dsk_sector_count d2)" by simp
  let ?n = "unat (lsn_val l)" and ?data = "fdata (fs_file fs (dsk_ino d))"
  have fs': "fs' = fs\<lparr>fs_file := (fs_file fs)(dsk_ino d :=
       (fs_file fs (dsk_ino d))\<lparr>fdata := splice ?data (?n * 256) data\<rparr>)\<rparr>"
    using dsk_write_ok_state [OF ok(1) lt] w by simp
  have fits: "?n * 256 + 256 \<le> length ?data" by (rule sector_fits [OF ok(1) lt(2)])
  have "take 256 (drop (i * 256) (splice ?data (?n * 256) data)) =
      (if i = ?n then data else take 256 (drop (i * 256) ?data))" if "dsk_ino d2 = dsk_ino d"
  proof (cases "i = ?n")
    case True
    with read_splice [of "?n * 256" ?data data] len fits show ?thesis by simp
  next
    case False
    moreover have "i * 256 + 256 \<le> length ?data" using sector_fits [OF ok(2) i] that by simp
    moreover have "i * 256 + 256 \<le> ?n * 256 \<or> ?n * 256 + length data \<le> i * 256"
      using False len by linarith
    ultimately show ?thesis
      using read_splice_other [of "?n * 256" ?data "i * 256" 256 data] fits by simp
  qed
  then show "disk_sectors d2 fs' ! i = (if dsk_ino d2 = dsk_ino d
      then (disk_sectors d2 fs)[?n := data] else disk_sectors d2 fs) ! i"
    using i by (auto simp: fs' disk_sectors_def sector_at_def nth_list_update)
qed

lemma dsk_write_result:
  assumes "disk_ok d fs" "dsk_write d l data fs = (r, fs')"
  shows "r = (if dsk_read_only d then Inl ReadOnly
       else if unat (lsn_val l) < unat (dsk_sector_count d) then Inr () else Inl (OutOfRange l))
    \<and> (r \<noteq> Inr () \<longrightarrow> fs' = fs)"
  using assms(2) dsk_write_ok_state [OF assms(1), of l data] lsn_lt_count [of d l]
  by (auto simp: dsk_write_def raise_sx_def split: if_splits)

text \<open>
  C7: \<open>DskFile\<close> refines the array of sectors.  On a sound image, a read returns the
  sector of that number or \<open>OutOfRange\<close>; a write of one sector is refused on a
  read-only disk and out of range, and otherwise updates exactly that element of the
  array, for every handle on the same image, and no handle on another.
\<close>

theorem dsk_file_refines_sector_array:
  assumes "disk_ok d fs" "disk_ok d2 fs" "length data = 256" "dsk_write d l data fs = (r, fs')"
  shows "fst (dsk_read d l fs) =
      (if unat (lsn_val l) < length (disk_sectors d fs)
       then Inr (disk_sectors d fs ! unat (lsn_val l)) else Inl (OutOfRange l)) \<and>
    r = (if dsk_read_only d then Inl ReadOnly
       else if unat (lsn_val l) < length (disk_sectors d fs) then Inr () else Inl (OutOfRange l)) \<and>
    disk_sectors d2 fs' =
      (if r = Inr () \<and> dsk_ino d2 = dsk_ino d
       then (disk_sectors d2 fs)[unat (lsn_val l) := data] else disk_sectors d2 fs)"
  using dsk_read_eq [OF assms(1), of l] dsk_write_result [OF assms(1,4)]
    dsk_write_sectors [OF assms(1-3) _ _ assms(4)]
  by (auto split: if_splits)

text \<open>A one-sector image for the witnesses: one sound file of 300 bytes, number 7.\<close>

definition demo_fs :: filesys where
  "demo_fs = \<lparr>fs_open = (\<lambda>p w. Inr 7), fs_stat = (\<lambda>_. None),
     fs_file = (\<lambda>_. \<lparr>fdata = replicate 300 0xE5, fseek_err = None, fread_err = None,
       fwrite_fault = None\<rparr>)\<rparr>"

definition demo_disk :: dsk_file where
  "demo_disk = \<lparr>dsk_path = lit ''a.dsk'', dsk_ino = 7, dsk_sector_count = 1, dsk_read_only = False\<rparr>"

lemma disk_ok_demo [simp]: "disk_ok demo_disk demo_fs"
  by (simp add: disk_ok_def demo_disk_def demo_fs_def)

lemma demo_sectors: "disk_sectors demo_disk demo_fs = [replicate 256 0xE5]"
  by (simp add: disk_sectors_def sector_at_def demo_disk_def demo_fs_def take_replicate)

theorem dsk_file_refines_sector_array_witness:
  "disk_sectors demo_disk (snd (dsk_write demo_disk (Lsn 0) (replicate 256 1) demo_fs)) =
     [replicate 256 1]"
  using dsk_file_refines_sector_array [of demo_disk demo_fs demo_disk "replicate 256 1" "Lsn 0"
      "fst (dsk_write demo_disk (Lsn 0) (replicate 256 1) demo_fs)"
      "snd (dsk_write demo_disk (Lsn 0) (replicate 256 1) demo_fs)"]
  by (simp add: demo_sectors demo_disk_def [THEN arg_cong, of dsk_read_only])

section \<open>Opening an image\<close>

text \<open>
  Opening succeeds exactly when the operating system opens the file and reports its
  metadata; the handle then has the sector count of the whole sectors of the file, taken
  modulo \<open>2 ^ 32\<close> by the cast to \<open>u32\<close>, so it never promises a sector that is not
  entirely in the file, and a file of less than \<open>2 ^ 40\<close> bytes is addressable up to
  its last whole sector.
\<close>

theorem dsk_open_sector_count:
  assumes "dsk_open path ro fs = (Inr d, fs')"
  shows "fs' = fs \<and> fs_open fs path (\<not> ro) = Inr (dsk_ino d) \<and> dsk_path d = path \<and>
    dsk_read_only d = ro \<and>
    unat (dsk_sector_count d) = length (fdata (fs_file fs (dsk_ino d))) div 256 mod 2 ^ 32 \<and>
    unat (dsk_sector_count d) * 256 \<le> length (fdata (fs_file fs (dsk_ino d)))"
proof -
  obtain ino where ino: "fs_open fs path (\<not> ro) = Inr ino" "fs' = fs"
      "d = \<lparr>dsk_path = path, dsk_ino = ino,
         dsk_sector_count = word_of_nat (length (fdata (fs_file fs ino)) div SECTOR_SIZE),
         dsk_read_only = ro\<rparr>"
    using assms by (auto simp: dsk_open_def Let_def split: sum.splits option.splits)
  let ?n = "length (fdata (fs_file fs ino))"
  have cnt: "unat (dsk_sector_count d) = ?n div 256 mod 2 ^ 32"
    by (simp add: ino SECTOR_SIZE_def unsigned_of_nat take_bit_eq_mod)
  then have "unat (dsk_sector_count d) \<le> ?n div 256" by simp
  then have "unat (dsk_sector_count d) * 256 \<le> ?n div 256 * 256" by (rule mult_le_mono1)
  also have "\<dots> \<le> ?n" by simp
  finally show ?thesis using cnt ino by simp
qed

theorem dsk_open_sector_count_witness:
  "unat (dsk_sector_count demo_disk) * 256 \<le> length (fdata (fs_file demo_fs (dsk_ino demo_disk)))"
proof -
  have "dsk_open (lit ''a.dsk'') False demo_fs = (Inr demo_disk, demo_fs)"
    by (simp add: dsk_open_def demo_fs_def demo_disk_def SECTOR_SIZE_def)
  from dsk_open_sector_count [OF this] show ?thesis by blast
qed

section \<open>Failing devices\<close>

lemma dsk_write_state:
  "\<exists>k. snd (dsk_write d l data fs) = fs \<or>
     (\<exists>f. snd (dsk_write d l data fs) = fs\<lparr>fs_file := (fs_file fs)(dsk_ino d := f)\<rparr> \<and>
       (fdata f = fdata (fs_file fs (dsk_ino d)) \<or>
        fdata f = splice (fdata (fs_file fs (dsk_ino d))) (unat (lsn_val l) * 256) (take k data)))"
proof -
  let ?r = "case fwrite_fault (fs_file fs (dsk_ino d)) of None \<Rightarrow> length data
     | Some (room, e) \<Rightarrow> room"
  show ?thesis
    by (rule exI [of _ ?r])
      (auto simp: dsk_write_def bind_sx_def io_vd_def raise_sx_def file_seek_def file_write_all_def
        Let_def split: option.splits)
qed

text \<open>
  C20: whatever happens during a sector write, including a device that fails after
  part of the data, every byte outside the addressed sector keeps its value, no other
  file changes and the image does not shrink.
\<close>

theorem dsk_write_confined:
  assumes "length data = 256" "unat (lsn_val l) * 256 + 256 \<le> length (fdata (fs_file fs (dsk_ino d)))"
    and "dsk_write d l data fs = (r, fs')"
  shows "(\<forall>ino. ino \<noteq> dsk_ino d \<longrightarrow> fs_file fs' ino = fs_file fs ino) \<and>
    length (fdata (fs_file fs' (dsk_ino d))) = length (fdata (fs_file fs (dsk_ino d))) \<and>
    (\<forall>i < length (fdata (fs_file fs (dsk_ino d))).
       \<not> (unat (lsn_val l) * 256 \<le> i \<and> i < unat (lsn_val l) * 256 + 256) \<longrightarrow>
       fdata (fs_file fs' (dsk_ino d)) ! i = fdata (fs_file fs (dsk_ino d)) ! i)"
proof -
  have fs': "fs' = snd (dsk_write d l data fs)" using assms(3) by simp
  from dsk_write_state [of d l data fs] obtain k where "fs' = fs \<or>
     (\<exists>f. fs' = fs\<lparr>fs_file := (fs_file fs)(dsk_ino d := f)\<rparr> \<and>
       (fdata f = fdata (fs_file fs (dsk_ino d)) \<or>
        fdata f = splice (fdata (fs_file fs (dsk_ino d))) (unat (lsn_val l) * 256) (take k data)))"
    unfolding fs' ..
  with assms(1,2) show ?thesis by (auto simp: length_splice nth_splice)
qed

theorem dsk_write_confined_witness:
  "length (fdata (fs_file (snd (dsk_write demo_disk (Lsn 0) (replicate 256 1) demo_fs)) 7)) = 300"
  using dsk_write_confined [of "replicate 256 1" "Lsn 0" demo_fs demo_disk
      "fst (dsk_write demo_disk (Lsn 0) (replicate 256 1) demo_fs)"
      "snd (dsk_write demo_disk (Lsn 0) (replicate 256 1) demo_fs)"]
  by (simp add: demo_fs_def demo_disk_def)

section \<open>The trait VDisk as an interface\<close>

text \<open>Running a list of sector writes, whatever each of them answers.\<close>

fun write_script :: "(lsn \<Rightarrow> bytes \<Rightarrow> ('s, 'e, unit) sx) \<Rightarrow> (lsn \<times> bytes) list \<Rightarrow> 's \<Rightarrow> 's" where
  "write_script wr [] s = s"
| "write_script wr ((l, data) # ws) s = write_script wr ws (snd (wr l data s))"

locale vdisk =
  fixes rd :: "lsn \<Rightarrow> ('s, 'e, bytes) sx"
    and wr :: "lsn \<Rightarrow> bytes \<Rightarrow> ('s, 'e, unit) sx"
    and writable :: "lsn \<Rightarrow> bool"
    and inv :: "'s \<Rightarrow> bool"
  assumes rd_state: "inv s \<Longrightarrow> snd (rd l s) = s"
    and rd_length: "inv s \<Longrightarrow> fst (rd l s) = Inr bs \<Longrightarrow> length bs = 256"
    and wr_inv: "inv s \<Longrightarrow> length data = 256 \<Longrightarrow> inv (snd (wr l data s))"
    and wr_result: "inv s \<Longrightarrow> length data = 256 \<Longrightarrow> fst (wr l data s) = Inr () \<longleftrightarrow> writable l"
    and wr_read: "inv s \<Longrightarrow> length data = 256 \<Longrightarrow>
      fst (rd k (snd (wr l data s))) = (if writable l \<and> k = l then Inr data else fst (rd k s))"
begin

lemma write_script_inv:
  "inv s \<Longrightarrow> \<forall>(l, data) \<in> set ws. length data = 256 \<Longrightarrow> inv (write_script wr ws s)"
  by (induction ws arbitrary: s) (auto simp: wr_inv)

text \<open>The last accepted write to a sector is what a read returns.\<close>

lemma last_write_wins:
  assumes "inv s" "\<forall>(l, data) \<in> set ws. length data = 256"
  shows "fst (rd k (write_script wr ws s)) =
    (case map_of (rev (filter (writable \<circ> fst) ws)) k of Some data \<Rightarrow> Inr data | None \<Rightarrow> fst (rd k s))"
  using assms
proof (induction ws arbitrary: s)
  case (Cons w ws)
  obtain l data where w: "w = (l, data)" by (cases w)
  with Cons.prems have "inv (snd (wr l data s))" "length data = 256"
    by (auto simp: wr_inv)
  with Cons.IH [of "snd (wr l data s)"] Cons.prems wr_read [of s data k l] show ?case
    by (auto simp: w map_add_def map_of_append split: option.splits)
qed simp

end

interpretation dsk: vdisk "dsk_read d" "dsk_write d"
    "\<lambda>l. \<not> dsk_read_only d \<and> unat (lsn_val l) < unat (dsk_sector_count d)" "disk_ok d" for d
proof
  fix s and l k :: lsn and data :: bytes assume ok: "disk_ok d s" and len: "length data = 256"
  obtain r s' where w: "dsk_write d l data s = (r, s')" by (cases "dsk_write d l data s")
  show "disk_ok d (snd (dsk_write d l data s))"
    using dsk_write_disk_ok [OF ok len w ok] w by simp
  then have "disk_ok d s'" by (simp add: w)
  then have "fst (dsk_read d k s') = (if unat (lsn_val k) < unat (dsk_sector_count d)
      then Inr (disk_sectors d s' ! unat (lsn_val k)) else Inl (OutOfRange k))"
    by (simp add: dsk_read_eq)
  then show "fst (dsk_read d k (snd (dsk_write d l data s))) =
      (if (\<not> dsk_read_only d \<and> unat (lsn_val l) < unat (dsk_sector_count d)) \<and> k = l
       then Inr data else fst (dsk_read d k s))"
    using dsk_write_sectors [OF ok ok len _ _ w] dsk_write_result [OF ok w]
    by (auto simp: w dsk_read_eq [OF ok] nth_list_update word_unat_eq_iff lsn.expand split: if_splits)
  show "fst (dsk_write d l data s) = Inr () \<longleftrightarrow>
      \<not> dsk_read_only d \<and> unat (lsn_val l) < unat (dsk_sector_count d)"
    using dsk_write_result [OF ok w] by (auto simp: w split: if_splits)
next
  fix s l assume "disk_ok d s"
  then show "snd (dsk_read d l s) = s" by (simp add: dsk_read_eq)
next
  fix s l bs assume "disk_ok d s" "fst (dsk_read d l s) = Inr bs"
  then show "length bs = 256"
    by (auto simp: dsk_read_eq disk_sectors_def length_sector_at split: if_splits)
qed

end
