(* ===== verification/Server_State.thy ===== *)
theory Server_State
  imports VDisk "HOL-Library.AList" "HOL-Library.Multiset"
begin

text \<open>
  The state of \<open>drivewire-server\<close> (\<open>struct Server\<close>) and the operations on it that do not
  touch a transport: mounting and unmounting drives, the per-channel queues of the
  virtual serial ports, their open flags and notifications, and the status summaries.

  \<open>drives\<close> is the \<open>HashMap\<close> as an association list with distinct keys, in an arbitrary
  order, as a hash map iterates.  Every operation runs under the lock of the field it uses
  and is atomic here.
\<close>

section \<open>State\<close>

definition VSERIAL_CHANNELS :: nat where
  "VSERIAL_CHANNELS = 16"

text \<open>
  \<open>tokio::sync::Notify\<close> by its documented behaviour: the stored permit, the tasks that
  wait, in the order in which they began to, and the tasks that have been notified but have
  not run since.  \<open>notify_one\<close> notifies the task that has waited longest, or stores a permit
  if none waits; several permits do not add up.  The first poll of \<open>notified()\<close> takes the
  permit or queues the task; every later poll completes once the task has been notified.
\<close>

record notify =
  nt_permit :: bool
  nt_waiters :: "nat list"
  nt_woken :: "nat list"

definition notify_new :: notify where
  "notify_new = \<lparr>nt_permit = False, nt_waiters = [], nt_woken = []\<rparr>"

definition notify_one :: "notify \<Rightarrow> notify" where
  "notify_one n =
    (case nt_waiters n of
       [] \<Rightarrow> n\<lparr>nt_permit := True\<rparr>
     | w # ws \<Rightarrow> n\<lparr>nt_waiters := ws, nt_woken := nt_woken n @ [w]\<rparr>)"

definition poll_notified :: "nat \<Rightarrow> notify \<Rightarrow> bool \<times> notify" where
  "poll_notified task n =
    (if nt_permit n then (True, n\<lparr>nt_permit := False\<rparr>)
     else (False, n\<lparr>nt_waiters := nt_waiters n @ [task]\<rparr>))"

definition repoll_notified :: "nat \<Rightarrow> notify \<Rightarrow> bool \<times> notify" where
  "repoll_notified task n =
    (if task \<in> set (nt_woken n) then (True, n\<lparr>nt_woken := remove1 task (nt_woken n)\<rparr>)
     else (False, n))"

record server =
  drives :: "(u8 \<times> dsk_file) list"
  print_buffer :: bytes
  vserial_inbox :: "bytes list"
  vserial_outbox :: "bytes list"
  vserial_open :: "bool list"
  vserial_inbox_notify :: "notify list"

definition server_new :: server where
  "server_new = \<lparr>drives = [], print_buffer = [],
     vserial_inbox = map (\<lambda>_. []) [0..<VSERIAL_CHANNELS],
     vserial_outbox = map (\<lambda>_. []) [0..<VSERIAL_CHANNELS],
     vserial_open = replicate VSERIAL_CHANNELS False,
     vserial_inbox_notify = map (\<lambda>_. notify_new) [0..<VSERIAL_CHANNELS]\<rparr>"

section \<open>Drives\<close>

definition mount :: "u8 \<Rightarrow> dsk_file \<Rightarrow> server \<Rightarrow> server" where
  "mount slot disk s = s\<lparr>drives := AList.update slot disk (drives s)\<rparr>"

definition unmount :: "u8 \<Rightarrow> server \<Rightarrow> server" where
  "unmount slot s = s\<lparr>drives := AList.delete slot (drives s)\<rparr>"

definition drive_lookup :: "u8 \<Rightarrow> server \<Rightarrow> dsk_file option" where
  "drive_lookup slot s = map_of (drives s) slot"

definition drive_summary :: "server \<Rightarrow> (u8 \<times> str \<times> u32) list" where
  "drive_summary s = sort_key fst (map (\<lambda>(slot, d). (slot, dsk_path d, dsk_sector_count d)) (drives s))"

section \<open>Virtual serial channels\<close>

definition push_vserial :: "u8 \<Rightarrow> u8 \<Rightarrow> server \<Rightarrow> server" where
  "push_vserial channel byte s =
    (let idx = unat channel in
     if idx \<ge> VSERIAL_CHANNELS then s
     else s\<lparr>vserial_inbox := (vserial_inbox s)[idx := vserial_inbox s ! idx @ [byte]],
            vserial_inbox_notify := (vserial_inbox_notify s)[idx := notify_one (vserial_inbox_notify s ! idx)]\<rparr>)"

definition drain_vserial :: "u8 \<Rightarrow> server \<Rightarrow> bytes \<times> server" where
  "drain_vserial channel s =
    (let idx = unat channel in
     if idx \<ge> VSERIAL_CHANNELS then ([], s)
     else (vserial_inbox s ! idx, s\<lparr>vserial_inbox := (vserial_inbox s)[idx := []]\<rparr>))"

definition send_to_vserial :: "u8 \<Rightarrow> bytes \<Rightarrow> server \<Rightarrow> server" where
  "send_to_vserial channel bs s =
    (let idx = unat channel in
     if idx \<ge> VSERIAL_CHANNELS then s
     else s\<lparr>vserial_outbox := (vserial_outbox s)[idx := vserial_outbox s ! idx @ bs]\<rparr>)"

definition vserial_outbox_len :: "u8 \<Rightarrow> server \<Rightarrow> nat" where
  "vserial_outbox_len channel s =
    (let idx = unat channel in
     if idx \<ge> VSERIAL_CHANNELS then 0 else length (vserial_outbox s ! idx))"

text \<open>
  The future of \<open>wait_vserial_inbox\<close> in a task: its first poll and its later ones, \<open>False\<close>
  while it is pending, as it is for ever on a channel that does not exist.
\<close>

definition wait_vserial_inbox :: "nat \<Rightarrow> u8 \<Rightarrow> server \<Rightarrow> bool \<times> server" where
  "wait_vserial_inbox task channel s =
    (let idx = unat channel in
     if idx \<ge> VSERIAL_CHANNELS then (False, s)
     else
       (case poll_notified task (vserial_inbox_notify s ! idx) of
          (done, n) \<Rightarrow> (done, s\<lparr>vserial_inbox_notify := (vserial_inbox_notify s)[idx := n]\<rparr>)))"

definition wake_vserial_inbox :: "nat \<Rightarrow> u8 \<Rightarrow> server \<Rightarrow> bool \<times> server" where
  "wake_vserial_inbox task channel s =
    (let idx = unat channel in
     if idx \<ge> VSERIAL_CHANNELS then (False, s)
     else
       (case repoll_notified task (vserial_inbox_notify s ! idx) of
          (done, n) \<Rightarrow> (done, s\<lparr>vserial_inbox_notify := (vserial_inbox_notify s)[idx := n]\<rparr>)))"

definition set_channel_open :: "u8 \<Rightarrow> bool \<Rightarrow> server \<Rightarrow> server" where
  "set_channel_open channel open s =
    (let idx = unat channel in
     if idx \<ge> VSERIAL_CHANNELS then s
     else s\<lparr>vserial_open := (vserial_open s)[idx := open]\<rparr>)"

definition is_channel_open :: "u8 \<Rightarrow> server \<Rightarrow> bool" where
  "is_channel_open channel s =
    (let idx = unat channel in
     if idx \<ge> VSERIAL_CHANNELS then False
     else if idx < length (vserial_open s) then vserial_open s ! idx else False)"

definition vserial_summary :: "server \<Rightarrow> (u8 \<times> bool \<times> nat \<times> nat) list" where
  "vserial_summary s =
     map (\<lambda>i. (word_of_nat i, vserial_open s ! i, length (vserial_inbox s ! i), length (vserial_outbox s ! i)))
       [0..<VSERIAL_CHANNELS]"

definition mount_dsk :: "u8 \<Rightarrow> str \<Rightarrow> bool \<Rightarrow> server \<times> filesys \<Rightarrow> (vdisk_error + u32 \<times> str) \<times> server \<times> filesys" where
  "mount_dsk slot path read_only = (\<lambda>(s, fs).
    (case dsk_open path read_only fs of
       (Inl e, fs') \<Rightarrow> (Inl e, s, fs')
     | (Inr disk, fs') \<Rightarrow> (Inr (dsk_sector_count disk, dsk_path disk), mount slot disk s, fs')))"

lemmas server_ops = mount_def unmount_def push_vserial_def drain_vserial_def send_to_vserial_def
  wait_vserial_inbox_def wake_vserial_inbox_def set_channel_open_def

section \<open>The invariant\<close>

text \<open>
  One queue, flag and notification per channel, so that no index below \<open>VSERIAL_CHANNELS\<close> is
  out of bounds, and at most one disk per slot.
\<close>

definition server_wf :: "server \<Rightarrow> bool" where
  "server_wf s \<longleftrightarrow> distinct (map fst (drives s)) \<and>
     length (vserial_inbox s) = VSERIAL_CHANNELS \<and> length (vserial_outbox s) = VSERIAL_CHANNELS \<and>
     length (vserial_open s) = VSERIAL_CHANNELS \<and> length (vserial_inbox_notify s) = VSERIAL_CHANNELS"

named_theorems wf_intros

lemma server_wf_new [wf_intros, simp]: "server_wf server_new"
  by (simp add: server_wf_def server_new_def)

lemma server_wf_mount [wf_intros]: "server_wf s \<Longrightarrow> server_wf (mount slot d s)"
  by (simp add: server_wf_def mount_def distinct_update)

lemma server_wf_unmount [wf_intros]: "server_wf s \<Longrightarrow> server_wf (unmount slot s)"
  by (simp add: server_wf_def unmount_def distinct_delete)

lemma server_wf_push [wf_intros]: "server_wf s \<Longrightarrow> server_wf (push_vserial c b s)"
  by (simp add: server_wf_def push_vserial_def Let_def)

lemma server_wf_drain [wf_intros]: "server_wf s \<Longrightarrow> server_wf (snd (drain_vserial c s))"
  by (simp add: server_wf_def drain_vserial_def Let_def)

lemma server_wf_send [wf_intros]: "server_wf s \<Longrightarrow> server_wf (send_to_vserial c bs s)"
  by (simp add: server_wf_def send_to_vserial_def Let_def)

lemma server_wf_wait [wf_intros]: "server_wf s \<Longrightarrow> server_wf (snd (wait_vserial_inbox i c s))"
  by (simp add: server_wf_def wait_vserial_inbox_def Let_def split: prod.split)

lemma server_wf_wake [wf_intros]: "server_wf s \<Longrightarrow> server_wf (snd (wake_vserial_inbox i c s))"
  by (simp add: server_wf_def wake_vserial_inbox_def Let_def split: prod.split)

lemma server_wf_set_open [wf_intros]: "server_wf s \<Longrightarrow> server_wf (set_channel_open c b s)"
  by (simp add: server_wf_def set_channel_open_def Let_def)

lemma server_wf_mount_dsk: "server_wf s \<Longrightarrow> mount_dsk slot p ro (s, fs) = (r, s', fs') \<Longrightarrow> server_wf s'"
  by (auto simp: mount_dsk_def server_wf_mount split: prod.splits sum.splits)

section \<open>Drives as a map\<close>

text \<open>The contract of the drive table: a finite map from slots to disks.\<close>

locale slot_table =
  fixes lookup :: "u8 \<Rightarrow> 's \<Rightarrow> 'd option"
    and put :: "u8 \<Rightarrow> 'd \<Rightarrow> 's \<Rightarrow> 's"
    and remove :: "u8 \<Rightarrow> 's \<Rightarrow> 's"
  assumes lookup_put: "lookup k (put slot d s) = (if k = slot then Some d else lookup k s)"
    and lookup_remove: "lookup k (remove slot s) = (if k = slot then None else lookup k s)"
begin

lemma remove_put: "lookup k (remove slot (put slot d s)) = lookup k (remove slot s)"
  by (simp add: lookup_put lookup_remove)

lemma put_put: "lookup k (put slot d' (put slot d s)) = lookup k (put slot d' s)"
  by (simp add: lookup_put)

lemma put_swap: "slot \<noteq> slot' \<Longrightarrow>
    lookup k (put slot d (put slot' d' s)) = lookup k (put slot' d' (put slot d s))"
  by (simp add: lookup_put)

lemma remove_idem: "lookup k (remove slot (remove slot s)) = lookup k (remove slot s)"
  by (simp add: lookup_remove)

end

interpretation drv: slot_table drive_lookup mount unmount
  by unfold_locales (auto simp: drive_lookup_def mount_def unmount_def update_conv' delete_conv')

lemma drive_summary_set:
  assumes "server_wf s"
  shows "(slot, name, n) \<in> set (drive_summary s) \<longleftrightarrow>
    (\<exists>d. drive_lookup slot s = Some d \<and> dsk_path d = name \<and> dsk_sector_count d = n)"
proof -
  have "(slot, d) \<in> set (drives s) \<longleftrightarrow> drive_lookup slot s = Some d" for d
    using assms by (simp add: drive_lookup_def server_wf_def map_of_eq_Some_iff)
  then show ?thesis by (force simp: drive_summary_def)
qed

lemma drive_summary_ordered:
  assumes "server_wf s"
  shows "sorted (map fst (drive_summary s)) \<and> distinct (map fst (drive_summary s))"
proof -
  let ?rows = "map (\<lambda>(slot, d). (slot, dsk_path d, dsk_sector_count d)) (drives s)"
  have "mset (map fst (drive_summary s)) = mset (map fst ?rows)"
    by (simp only: drive_summary_def mset_map mset_sort)
  also have "map fst ?rows = map fst (drives s)" by (simp add: case_prod_beta')
  finally have "distinct (map fst (drive_summary s))"
    using assms by (metis mset_eq_imp_distinct_iff server_wf_def)
  then show ?thesis by (simp add: drive_summary_def)
qed

text \<open>
  \<open>drive_summary\<close> lists every mounted slot exactly once, in increasing slot order,
  with the name and sector count of its disk; the rows depend only on which disk each
  slot holds, not on the order in which the hash map iterates.
\<close>

theorem drive_summary_canonical:
  assumes "server_wf s" "server_wf s'" "\<And>k. drive_lookup k s = drive_lookup k s'"
  shows "drive_summary s = drive_summary s' \<and>
    sorted (map fst (drive_summary s)) \<and> distinct (map fst (drive_summary s)) \<and>
    (\<forall>slot name n. (slot, name, n) \<in> set (drive_summary s) \<longleftrightarrow>
      (\<exists>d. drive_lookup slot s = Some d \<and> dsk_path d = name \<and> dsk_sector_count d = n))"
proof -
  have eq: "set (drive_summary s) = set (drive_summary s')"
    using assms by (auto simp: drive_summary_set)
  have "inj_on fst (set (drive_summary s) \<union> set (drive_summary s'))"
    using drive_summary_ordered [OF assms(1)] eq by (simp add: distinct_map)
  then have "drive_summary s = drive_summary s'"
    using map_sorted_distinct_set_unique drive_summary_ordered assms(1,2) eq by blast
  then show ?thesis
    using drive_summary_ordered [OF assms(1)] drive_summary_set [OF assms(1)] by simp
qed

theorem drive_summary_canonical_witness:
  "drive_summary (mount 3 demo_disk (mount 1 demo_disk server_new)) =
   drive_summary (mount 1 demo_disk (mount 3 demo_disk server_new))"
proof -
  let ?s = "mount 3 demo_disk (mount 1 demo_disk server_new)"
    and ?s' = "mount 1 demo_disk (mount 3 demo_disk server_new)"
  have "server_wf ?s" "server_wf ?s'" by (simp_all add: wf_intros)
  moreover have "drive_lookup k ?s = drive_lookup k ?s'" for k
    by (simp add: drv.lookup_put)
  ultimately show ?thesis using drive_summary_canonical [of ?s ?s'] by simp
qed

section \<open>Queues per channel\<close>

text \<open>The contents of a channel's queues; a channel that does not exist has none.\<close>

definition inbox_of :: "u8 \<Rightarrow> server \<Rightarrow> bytes" where
  "inbox_of c s = (if unat c < VSERIAL_CHANNELS then vserial_inbox s ! unat c else [])"

definition outbox_of :: "u8 \<Rightarrow> server \<Rightarrow> bytes" where
  "outbox_of c s = (if unat c < VSERIAL_CHANNELS then vserial_outbox s ! unat c else [])"

definition notify_of :: "u8 \<Rightarrow> server \<Rightarrow> notify" where
  "notify_of c s = (if unat c < VSERIAL_CHANNELS then vserial_inbox_notify s ! unat c else notify_new)"

abbreviation valid_channel :: "u8 \<Rightarrow> bool" where
  "valid_channel c \<equiv> unat c < VSERIAL_CHANNELS"

lemmas queue_defs = inbox_of_def outbox_of_def notify_of_def

named_theorems queue_simps

lemma queues_new [simp]: "inbox_of c server_new = []" "outbox_of c server_new = []" "notify_of c server_new = notify_new"
  by (simp_all add: queue_defs server_new_def)

lemma inbox_of_push [queue_simps]:
  "server_wf s \<Longrightarrow> inbox_of c (push_vserial d b s) = inbox_of c s @ (if c = d \<and> valid_channel d then [b] else [])"
  by (auto simp: inbox_of_def push_vserial_def server_wf_def Let_def nth_list_update word_unat_eq_iff)

lemma notify_of_push [queue_simps]:
  "server_wf s \<Longrightarrow> notify_of c (push_vserial d b s) =
     (if c = d \<and> valid_channel d then notify_one (notify_of c s) else notify_of c s)"
  by (auto simp: notify_of_def push_vserial_def server_wf_def Let_def nth_list_update word_unat_eq_iff)

lemma outbox_of_push [queue_simps]: "outbox_of c (push_vserial d b s) = outbox_of c s"
  by (simp add: outbox_of_def push_vserial_def Let_def)

lemma drain_result [queue_simps]: "fst (drain_vserial c s) = inbox_of c s"
  by (simp add: drain_vserial_def inbox_of_def Let_def)

lemma inbox_of_drain [queue_simps]:
  "server_wf s \<Longrightarrow> inbox_of c (snd (drain_vserial d s)) = (if c = d then [] else inbox_of c s)"
  by (auto simp: drain_vserial_def inbox_of_def server_wf_def Let_def nth_list_update word_unat_eq_iff)

lemma outbox_of_drain [queue_simps]: "outbox_of c (snd (drain_vserial d s)) = outbox_of c s"
  by (simp add: outbox_of_def drain_vserial_def Let_def)

lemma notify_of_drain [queue_simps]: "notify_of c (snd (drain_vserial d s)) = notify_of c s"
  by (simp add: notify_of_def drain_vserial_def Let_def)

lemma outbox_of_send [queue_simps]:
  "server_wf s \<Longrightarrow> outbox_of c (send_to_vserial d bs s) = outbox_of c s @ (if c = d \<and> valid_channel d then bs else [])"
  by (auto simp: send_to_vserial_def outbox_of_def server_wf_def Let_def nth_list_update word_unat_eq_iff)

lemma inbox_of_send [queue_simps]: "inbox_of c (send_to_vserial d bs s) = inbox_of c s"
  by (simp add: inbox_of_def send_to_vserial_def Let_def)

lemma notify_of_send [queue_simps]: "notify_of c (send_to_vserial d bs s) = notify_of c s"
  by (simp add: notify_of_def send_to_vserial_def Let_def)

lemma vserial_outbox_len_eq: "vserial_outbox_len c s = length (outbox_of c s)"
  by (simp add: vserial_outbox_len_def outbox_of_def Let_def)

lemma queues_mount [queue_simps]:
  "inbox_of c (mount slot d s) = inbox_of c s" "outbox_of c (mount slot d s) = outbox_of c s"
  "notify_of c (mount slot d s) = notify_of c s"
  by (simp_all add: queue_defs mount_def)

lemma queues_unmount [queue_simps]:
  "inbox_of c (unmount slot s) = inbox_of c s" "outbox_of c (unmount slot s) = outbox_of c s"
  "notify_of c (unmount slot s) = notify_of c s"
  by (simp_all add: queue_defs unmount_def)

lemma queues_set_open [queue_simps]:
  "inbox_of c (set_channel_open d b s) = inbox_of c s" "outbox_of c (set_channel_open d b s) = outbox_of c s"
  "notify_of c (set_channel_open d b s) = notify_of c s"
  by (simp_all add: queue_defs set_channel_open_def Let_def)

lemma is_channel_open_set [queue_simps]:
  "server_wf s \<Longrightarrow> is_channel_open c (set_channel_open d b s) =
     (if c = d \<and> valid_channel d then b else is_channel_open c s)"
  by (auto simp: is_channel_open_def set_channel_open_def server_wf_def Let_def nth_list_update word_unat_eq_iff)

lemma wait_queues [queue_simps]:
  assumes "server_wf s"
  shows "inbox_of c (snd (wait_vserial_inbox i d s)) = inbox_of c s"
    "outbox_of c (snd (wait_vserial_inbox i d s)) = outbox_of c s"
    "notify_of c (snd (wait_vserial_inbox i d s)) =
       (if c = d \<and> valid_channel d then snd (poll_notified i (notify_of c s)) else notify_of c s)"
    "fst (wait_vserial_inbox i d s) \<longleftrightarrow> valid_channel d \<and> nt_permit (notify_of d s)"
  using assms
  by (auto simp: queue_defs wait_vserial_inbox_def poll_notified_def server_wf_def Let_def nth_list_update word_unat_eq_iff)

lemma wake_queues [queue_simps]:
  assumes "server_wf s"
  shows "inbox_of c (snd (wake_vserial_inbox i d s)) = inbox_of c s"
    "outbox_of c (snd (wake_vserial_inbox i d s)) = outbox_of c s"
    "notify_of c (snd (wake_vserial_inbox i d s)) =
       (if c = d \<and> valid_channel d then snd (repoll_notified i (notify_of c s)) else notify_of c s)"
    "fst (wake_vserial_inbox i d s) \<longleftrightarrow> valid_channel d \<and> i \<in> set (nt_woken (notify_of d s))"
  using assms
  by (auto simp: queue_defs wake_vserial_inbox_def repoll_notified_def server_wf_def Let_def nth_list_update word_unat_eq_iff)

end
