(* ===== verification/Byte_Stream.thy ===== *)
theory Byte_Stream
  imports DW_Prelude
begin

text \<open>
  Byte streams: what the sources use of \<open>AsyncReadExt::read_exact\<close> and
  \<open>AsyncWriteExt::write_all\<close> on a transport.  \<open>transport\<close> is the view of one
  connection over its whole life: \<open>rx\<close> are the bytes the peer is still going to send
  and \<open>rx_end\<close> the error the reader gets once they are used up (\<open>UnexpectedEof\<close> for
  a closed connection); \<open>tx\<close> is what has been written so far and \<open>tx_fault\<close>, if
  present, the number of bytes the peer still accepts and the error afterwards.

  The second half is the contract of the underlying \<open>poll_read\<close> as a locale, with the
  library loop of \<open>read_exact\<close> over it: any source that keeps the contract behaves
  like \<open>t_read_exact\<close>.
\<close>

section \<open>Transports\<close>

record transport =
  rx :: bytes
  rx_end :: io_error
  tx :: bytes
  tx_fault :: "(nat \<times> io_error) option"

text \<open>On a short stream \<open>read_exact\<close> has consumed what there was when it fails.\<close>

definition t_read_exact :: "nat \<Rightarrow> (transport, io_error, bytes) sx" where
  "t_read_exact n t =
    (if n \<le> length (rx t) then (Inr (take n (rx t)), t\<lparr>rx := drop n (rx t)\<rparr>)
     else (Inl (rx_end t), t\<lparr>rx := []\<rparr>))"

definition t_write_all :: "bytes \<Rightarrow> (transport, io_error, unit) sx" where
  "t_write_all bs t =
    (case tx_fault t of
       None \<Rightarrow> (Inr (), t\<lparr>tx := tx t @ bs\<rparr>)
     | Some (room, e) \<Rightarrow>
         (if length bs \<le> room
          then (Inr (), t\<lparr>tx := tx t @ bs, tx_fault := Some (room - length bs, e)\<rparr>)
          else (Inl e, t\<lparr>tx := tx t @ take room bs, tx_fault := Some (0, e)\<rparr>)))"

lemma t_read_exact_append [sx_simps]:
  "rx t = bs @ rest \<Longrightarrow> length bs = n \<Longrightarrow> t_read_exact n t = (Inr bs, t\<lparr>rx := rest\<rparr>)"
  by (simp add: t_read_exact_def)

lemma t_read_exact_short [sx_simps]:
  "length (rx t) < n \<Longrightarrow> t_read_exact n t = (Inl (rx_end t), t\<lparr>rx := []\<rparr>)"
  by (simp add: t_read_exact_def)

lemma t_write_all_ok [sx_simps]:
  "tx_fault t = None \<Longrightarrow> t_write_all bs t = (Inr (), t\<lparr>tx := tx t @ bs\<rparr>)"
  by (simp add: t_write_all_def)

text \<open>
  The monotone part of a session: input is only consumed, from the front; output only
  grows, at the end; the way the input ends never changes.
\<close>

definition t_progress :: "transport \<Rightarrow> transport \<Rightarrow> bool" where
  "t_progress t t' \<longleftrightarrow>
     (\<exists>n. rx t' = drop n (rx t)) \<and> (\<exists>bs. tx t' = tx t @ bs) \<and> rx_end t' = rx_end t"

lemma t_progress_refl [simp]: "t_progress t t"
  unfolding t_progress_def by (metis append_Nil2 drop0)

lemma t_progress_trans: "t_progress t t' \<Longrightarrow> t_progress t' t'' \<Longrightarrow> t_progress t t''"
  unfolding t_progress_def by (metis append_assoc drop_drop)

lemma t_progress_rx_length: "t_progress t t' \<Longrightarrow> length (rx t') \<le> length (rx t)"
  by (auto simp: t_progress_def)

lemma t_progress_read_exact: "t_progress t (snd (t_read_exact n t))"
  by (auto simp: t_progress_def t_read_exact_def intro: exI [of _ "length (rx t)"])

lemma t_progress_write_all: "t_progress t (snd (t_write_all bs t))"
  by (auto simp: t_progress_def t_write_all_def split: option.splits intro: exI [of _ 0])

section \<open>The loop of read_exact over poll_read\<close>

definition early_eof :: io_error where
  "early_eof = \<lparr>kind = UnexpectedEof, message = lit ''early eof''\<rparr>"

text \<open>
  \<open>read_exact\<close> polls until its buffer of \<open>n\<close> bytes is full; a poll that is ready
  with no byte at all means the end of the stream.
\<close>

function read_exact_via :: "(nat \<Rightarrow> ('s, io_error, bytes) sx) \<Rightarrow> nat \<Rightarrow> ('s, io_error, bytes) sx" where
  "read_exact_via rd n s =
    (if n = 0 then (Inr [], s)
     else case rd n s of
       (Inl e, s') \<Rightarrow> (Inl e, s')
     | (Inr bs, s') \<Rightarrow>
         (if bs = [] then (Inl early_eof, s')
          else case read_exact_via rd (n - length bs) s' of
            (Inl e, s'') \<Rightarrow> (Inl e, s'')
          | (Inr cs, s'') \<Rightarrow> (Inr (bs @ cs), s'')))"
  by pat_completeness auto
termination
  by (relation "measure (\<lambda>(rd, n, s). n)") auto

declare read_exact_via.simps [simp del]

text \<open>
  The contract of a byte source: a poll for at least one byte hands over a non-empty
  front part of what is pending, and once nothing is pending it reports the end.
\<close>

locale byte_source =
  fixes rd :: "nat \<Rightarrow> ('s, io_error, bytes) sx"
    and pending :: "'s \<Rightarrow> bytes"
    and end_error :: "'s \<Rightarrow> io_error"
    and inv :: "'s \<Rightarrow> bool"
  assumes rd_data: "inv s \<Longrightarrow> 0 < n \<Longrightarrow> pending s \<noteq> [] \<Longrightarrow>
      \<exists>bs s'. rd n s = (Inr bs, s') \<and> bs \<noteq> [] \<and> length bs \<le> n \<and>
        pending s = bs @ pending s' \<and> end_error s' = end_error s \<and> inv s'"
    and rd_end: "inv s \<Longrightarrow> 0 < n \<Longrightarrow> pending s = [] \<Longrightarrow>
      \<exists>s'. (rd n s = (Inl (end_error s), s') \<or> rd n s = (Inr [], s') \<and> end_error s = early_eof) \<and>
        pending s' = [] \<and> end_error s' = end_error s \<and> inv s'"
begin

lemma read_exact_enough:
  assumes "inv s" "n \<le> length (pending s)"
  shows "\<exists>s'. read_exact_via rd n s = (Inr (take n (pending s)), s') \<and>
    pending s' = drop n (pending s) \<and> end_error s' = end_error s \<and> inv s'"
  using assms
proof (induction n arbitrary: s rule: less_induct)
  case (less n)
  show ?case
  proof (cases "n = 0")
    case True
    with less.prems show ?thesis by (simp add: read_exact_via.simps)
  next
    case False
    with less.prems have "pending s \<noteq> []" by auto
    then obtain bs s' where p: "rd n s = (Inr bs, s')" "bs \<noteq> []" "length bs \<le> n"
        "pending s = bs @ pending s'" "end_error s' = end_error s" "inv s'"
      using rd_data less.prems False by blast
    from p(2,3) False have dec: "n - length bs < n" by simp
    from less.prems(2) p(4) have "n - length bs \<le> length (pending s')" by simp
    from less.IH [OF dec p(6) this] obtain s'' where
        "read_exact_via rd (n - length bs) s' = (Inr (take (n - length bs) (pending s')), s'')"
        "pending s'' = drop (n - length bs) (pending s')" "end_error s'' = end_error s'" "inv s''"
      by blast
    with p False show ?thesis by (simp add: read_exact_via.simps [of rd n])
  qed
qed

lemma read_exact_short:
  assumes "inv s" "length (pending s) < n"
  shows "\<exists>s'. read_exact_via rd n s = (Inl (end_error s), s') \<and>
    pending s' = [] \<and> end_error s' = end_error s \<and> inv s'"
  using assms
proof (induction n arbitrary: s rule: less_induct)
  case (less n)
  show ?case
  proof (cases "pending s = []")
    case True
    with less.prems rd_end [of s n] show ?thesis
      by (auto simp: read_exact_via.simps [of rd n])
  next
    case False
    with less.prems obtain bs s' where p: "rd n s = (Inr bs, s')" "bs \<noteq> []" "length bs \<le> n"
        "pending s = bs @ pending s'" "end_error s' = end_error s" "inv s'"
      using rd_data [of s n] by auto
    from p(2) less.prems(2) have dec: "n - length bs < n" by auto
    from less.prems(2) p(4) have "length (pending s') < n - length bs" by simp
    from less.IH [OF dec p(6) this] obtain s'' where
        "read_exact_via rd (n - length bs) s' = (Inl (end_error s'), s'')"
        "pending s'' = []" "end_error s'' = end_error s'" "inv s''"
      by blast
    with p less.prems(2) show ?thesis by (simp add: read_exact_via.simps [of rd n])
  qed
qed

text \<open>The source behaves like \<open>t_read_exact\<close> on the abstract transport.\<close>

lemma read_exact_refines:
  assumes "inv s" "rx t = pending s" "rx_end t = end_error s"
    and "read_exact_via rd n s = (r, s')" "t_read_exact n t = (r', t')"
  shows "r = r' \<and> rx t' = pending s' \<and> rx_end t' = end_error s' \<and> inv s'"
proof (cases "n \<le> length (pending s)")
  case True
  with read_exact_enough [OF assms(1) True] assms(2-) show ?thesis
    by (auto simp: t_read_exact_def)
next
  case False
  with read_exact_short [of s n] assms show ?thesis
    by (auto simp: t_read_exact_def)
qed

end

text \<open>The abstract transport itself, polled for as many bytes as it has, is such a source.\<close>

definition t_poll_read :: "nat \<Rightarrow> (transport, io_error, bytes) sx" where
  "t_poll_read n t =
    (if rx t = [] then (Inl (rx_end t), t)
     else (Inr (take n (rx t)), t\<lparr>rx := drop n (rx t)\<rparr>))"

interpretation tr: byte_source t_poll_read rx rx_end "\<lambda>_. True"
  by unfold_locales (auto simp: t_poll_read_def)

end
