(* ===== verification/Server.thy ===== *)
theory Server
  imports Server_State Byte_Stream
begin

text \<open>
  The protocol state machine of \<open>drivewire-server\<close>: one definition per opcode handler,
  the dispatch of \<open>Server::run\<close> and its loop.  A handler is a computation over the
  \<open>world\<close>: the shared server state, the file system behind the mounted disks and the
  transport of this session.  Handlers read their payload, touch the shared state and
  answer in the order of the source; an I/O error ends them early with what was done so
  far left in place.  The clock of \<open>handle_time\<close> is a parameter: a reading per request.
\<close>

section \<open>The world of a session\<close>

datatype server_error = Eof | UnknownOpcode u8 | Io io_error

record world =
  srv :: server
  fs :: filesys
  tr :: transport

type_synonym 'a session = "(world, server_error, 'a) sx"

definition on_tr :: "(transport, io_error, 'a) sx \<Rightarrow> 'a session" where
  "on_tr m w = (case m (tr w) of
     (Inl e, t') \<Rightarrow> (Inl (Io e), w\<lparr>tr := t'\<rparr>) | (Inr a, t') \<Rightarrow> (Inr a, w\<lparr>tr := t'\<rparr>))"

abbreviation read_exact :: "nat \<Rightarrow> bytes session" where
  "read_exact n \<equiv> on_tr (t_read_exact n)"

abbreviation write_all :: "bytes \<Rightarrow> unit session" where
  "write_all bs \<equiv> on_tr (t_write_all bs)"

definition update_srv :: "(server \<Rightarrow> server) \<Rightarrow> unit session" where
  "update_srv f = modify_sx (\<lambda>w. w\<lparr>srv := f (srv w)\<rparr>)"

text \<open>A call on a disk returns its result as a value: the handlers match on it.\<close>

definition on_disk :: "(filesys, vdisk_error, 'a) sx \<Rightarrow> (vdisk_error + 'a) session" where
  "on_disk m w = (case m (fs w) of (r, fs') \<Rightarrow> (Inr r, w\<lparr>fs := fs'\<rparr>))"

section \<open>Disk handlers\<close>

definition zero_sector :: bytes where
  "zero_sector = replicate SECTOR_SIZE 0"

definition be2 :: "u16 \<Rightarrow> bytes" where
  "be2 w = (case u16_to_be_bytes w of (hi, lo) \<Rightarrow> [hi, lo])"

definition handle_read :: "bool \<Rightarrow> unit session" where
  "handle_read extended =
    bind_sx (read_exact 4) (\<lambda>hdr.
      let slot = hdr ! 0; l = from_be3 (hdr ! 1, hdr ! 2, hdr ! 3) in
      bind_sx (gets_sx (\<lambda>w. drive_lookup slot (srv w))) (\<lambda>disk.
      bind_sx (case disk of
          Some d \<Rightarrow> bind_sx (on_disk (dsk_read d l)) (\<lambda>r.
            return_sx (case r of Inr sector \<Rightarrow> sector | Inl e \<Rightarrow> zero_sector))
        | None \<Rightarrow> return_sx zero_sector) (\<lambda>sector.
      bind_sx (write_all sector) (\<lambda>_.
      let host_sum = checksum16 sector in
      if extended then
        bind_sx (read_exact 2) (\<lambda>guest_sum_bytes.
          let guest_sum = u16_from_be_bytes (guest_sum_bytes ! 0, guest_sum_bytes ! 1);
              status = (if guest_sum = host_sum then 0x00 else dw_error_code ErrCrc) in
          write_all [status])
      else write_all (be2 host_sum)))))"

definition handle_write :: "unit session" where
  "handle_write =
    bind_sx (read_exact 4) (\<lambda>hdr.
      let slot = hdr ! 0; l = from_be3 (hdr ! 1, hdr ! 2, hdr ! 3) in
      bind_sx (read_exact SECTOR_SIZE) (\<lambda>sector.
      bind_sx (read_exact 2) (\<lambda>sum_bytes.
      let guest_sum = u16_from_be_bytes (sum_bytes ! 0, sum_bytes ! 1);
          host_sum = checksum16 sector in
      if guest_sum \<noteq> host_sum then write_all [dw_error_code ErrCrc]
      else
        bind_sx (gets_sx (\<lambda>w. drive_lookup slot (srv w))) (\<lambda>disk.
        bind_sx (case disk of
            Some d \<Rightarrow> bind_sx (on_disk (dsk_write d l sector)) (\<lambda>r.
              return_sx (case r of Inr _ \<Rightarrow> 0 | Inl e \<Rightarrow> dw_error_code ErrWrite))
          | None \<Rightarrow> return_sx (dw_error_code ErrNotReady)) (\<lambda>status.
        write_all [status])))))"

section \<open>System handlers\<close>

definition DWINIT_RESPONSE :: u8 where
  "DWINIT_RESPONSE = 0x04"

definition handle_dwinit :: "unit session" where
  "handle_dwinit = bind_sx (read_exact 1) (\<lambda>driver. write_all [DWINIT_RESPONSE])"

definition handle_stat :: "unit session" where
  "handle_stat = bind_sx (read_exact 2) (\<lambda>p. return_sx ())"

definition handle_print :: "unit session" where
  "handle_print = bind_sx (read_exact 1) (\<lambda>b.
     update_srv (\<lambda>s. s\<lparr>print_buffer := print_buffer s @ [b ! 0]\<rparr>))"

definition handle_print_flush :: "unit session" where
  "handle_print_flush = update_srv (\<lambda>s. if print_buffer s = [] then s else s\<lparr>print_buffer := []\<rparr>)"

text \<open>
  What \<open>handle_time\<close> uses of \<open>time::OffsetDateTime\<close>; the two readings are the local
  time, which may be unavailable, and UTC.
\<close>

record date_time =
  year :: int
  month :: u8
  day :: u8
  hour :: u8
  minute :: u8
  second :: u8

record clock =
  now_local :: "date_time option"
  now_utc :: date_time

definition time_reply :: "clock \<Rightarrow> bytes" where
  "time_reply c =
    (let now = (case now_local c of Some dt \<Rightarrow> dt | None \<Rightarrow> now_utc c);
         year_byte = word_of_int (max 0 (min 255 (year now - 1900))) in
     [year_byte, month now, day now, hour now, minute now, second now])"

definition handle_time :: "clock \<Rightarrow> unit session" where
  "handle_time c = write_all (time_reply c)"

section \<open>Virtual serial handlers\<close>

definition handle_fastwrite :: "u8 \<Rightarrow> unit session" where
  "handle_fastwrite channel = bind_sx (read_exact 1) (\<lambda>b. update_srv (push_vserial channel (b ! 0)))"

text \<open>The first non-empty queue at or after index \<open>i\<close>, with its index.\<close>

fun first_ready :: "nat \<Rightarrow> bytes list \<Rightarrow> (nat \<times> bytes) option" where
  "first_ready i [] = None"
| "first_ready i (q # qs) = (if q = [] then first_ready (Suc i) qs else Some (i, q))"

definition handle_serread :: "unit session" where
  "handle_serread =
    bind_sx (gets_sx (\<lambda>w. first_ready 0 (vserial_outbox (srv w)))) (\<lambda>ready.
    case ready of
      None \<Rightarrow> write_all [0x00, 0x00]
    | Some (idx, q) \<Rightarrow>
        (if length q < 3 then
           bind_sx (update_srv (\<lambda>s. s\<lparr>vserial_outbox := (vserial_outbox s)[idx := tl q]\<rparr>)) (\<lambda>_.
           write_all [0x01 + word_of_nat idx, hd q])
         else
           (let cnt = word_of_nat (min (length q) 255) in
            write_all [0x11 + word_of_nat idx, cnt])))"

definition serwritem_store :: "u8 \<Rightarrow> bytes \<Rightarrow> server \<Rightarrow> server" where
  "serwritem_store channel buf s =
    (let idx = unat channel in
     if idx < VSERIAL_CHANNELS
     then s\<lparr>vserial_inbox := (vserial_inbox s)[idx := vserial_inbox s ! idx @ buf]\<rparr>
     else s)"

definition handle_serwritem :: "unit session" where
  "handle_serwritem =
    bind_sx (read_exact 2) (\<lambda>hdr.
      let channel = hdr ! 0; cnt = unat (hdr ! 1) in
      bind_sx (read_exact cnt) (\<lambda>buf. update_srv (serwritem_store channel buf)))"

definition SS_COMST :: u8 where "SS_COMST = 0x28"

definition SS_OPEN :: u8 where "SS_OPEN = 0x29"

definition SS_CLOSE :: u8 where "SS_CLOSE = 0x2A"

definition COMST_PAYLOAD_LEN :: nat where "COMST_PAYLOAD_LEN = 26"

definition handle_sersetstat :: "unit session" where
  "handle_sersetstat =
    bind_sx (read_exact 2) (\<lambda>hdr.
      let channel = hdr ! 0; code = hdr ! 1 in
      if code = SS_OPEN then update_srv (set_channel_open channel True)
      else if code = SS_CLOSE then update_srv (set_channel_open channel False)
      else if code = SS_COMST then bind_sx (read_exact COMST_PAYLOAD_LEN) (\<lambda>payload. return_sx ())
      else return_sx ())"

text \<open>The loop of \<open>handle_serreadm\<close>: \<open>count\<close> times \<open>pop_front().unwrap_or(0)\<close>.\<close>

fun pop_padded :: "nat \<Rightarrow> bytes \<Rightarrow> bytes \<times> bytes" where
  "pop_padded 0 q = ([], q)"
| "pop_padded (Suc n) q =
    (case q of
       [] \<Rightarrow> (let (bs, q') = pop_padded n [] in (0 # bs, q'))
     | b # q0 \<Rightarrow> (let (bs, q') = pop_padded n q0 in (b # bs, q')))"

definition serreadm_take :: "u8 \<Rightarrow> nat \<Rightarrow> server \<Rightarrow> bytes \<times> server" where
  "serreadm_take channel cnt s =
    (let idx = unat channel in
     if idx < VSERIAL_CHANNELS
     then (case pop_padded cnt (vserial_outbox s ! idx) of
             (buf, q') \<Rightarrow> (buf, s\<lparr>vserial_outbox := (vserial_outbox s)[idx := q']\<rparr>))
     else (replicate cnt 0, s))"

definition handle_serreadm :: "unit session" where
  "handle_serreadm =
    bind_sx (read_exact 2) (\<lambda>p.
      let channel = p ! 0; cnt = unat (p ! 1) in
      bind_sx (gets_sx (\<lambda>w. fst (serreadm_take channel cnt (srv w)))) (\<lambda>buf.
      bind_sx (update_srv (\<lambda>s. snd (serreadm_take channel cnt s))) (\<lambda>_.
      write_all buf)))"

section \<open>Dispatch and the session loop\<close>

definition dispatch :: "clock \<Rightarrow> decoded \<Rightarrow> unit session" where
  "dispatch c d =
    (case d of
       Op Nop \<Rightarrow> return_sx ()
     | Op Reset1 \<Rightarrow> return_sx ()
     | Op Reset2 \<Rightarrow> return_sx ()
     | Op Reset3 \<Rightarrow> return_sx ()
     | Op Read \<Rightarrow> handle_read False
     | Op Reread \<Rightarrow> handle_read False
     | Op ReadEx \<Rightarrow> handle_read True
     | Op RereadEx \<Rightarrow> handle_read True
     | Op Write \<Rightarrow> handle_write
     | Op Rewrite \<Rightarrow> handle_write
     | Op DwInit \<Rightarrow> handle_dwinit
     | Op Time \<Rightarrow> handle_time c
     | Op Init \<Rightarrow> return_sx ()
     | Op Term \<Rightarrow> return_sx ()
     | Op GetStat \<Rightarrow> handle_stat
     | Op SetStat \<Rightarrow> handle_stat
     | Op Print \<Rightarrow> handle_print
     | Op PrintFlush \<Rightarrow> handle_print_flush
     | Op SerRead \<Rightarrow> handle_serread
     | Op SerReadM \<Rightarrow> handle_serreadm
     | Op SerInit \<Rightarrow> bind_sx (read_exact 1) (\<lambda>ch. update_srv (set_channel_open (ch ! 0) True))
     | Op SerTerm \<Rightarrow> bind_sx (read_exact 1) (\<lambda>ch. update_srv (set_channel_open (ch ! 0) False))
     | Op SerWrite \<Rightarrow> bind_sx (read_exact 2) (\<lambda>p. update_srv (push_vserial (p ! 0) (p ! 1)))
     | Op SerWriteM \<Rightarrow> handle_serwritem
     | Op SerSetStat \<Rightarrow> handle_sersetstat
     | Op SerGetStat \<Rightarrow> bind_sx (read_exact 2) (\<lambda>p. return_sx ())
     | Op WirebugMode \<Rightarrow> return_sx ()
     | FastWrite channel \<Rightarrow> handle_fastwrite channel
     | Unknown b \<Rightarrow> return_sx ())"

section \<open>Facts shared by all handlers\<close>

lemmas handler_defs = handle_read_def handle_write_def handle_dwinit_def handle_stat_def
  handle_print_def handle_print_flush_def handle_time_def handle_fastwrite_def handle_serread_def
  handle_serwritem_def handle_sersetstat_def handle_serreadm_def

text \<open>
  Everything a handler can do: read or write the transport, call a disk, update the
  server state by an operation that keeps its invariant.  What these four keep, every
  request keeps.
\<close>

locale session_contract =
  fixes I :: "world \<Rightarrow> bool" and E :: "server_error \<Rightarrow> world \<Rightarrow> bool"
  assumes reads: "safe I E (read_exact n)"
    and writes: "safe I E (write_all bs)"
    and disk_reads: "safe I E (on_disk (dsk_read d l))"
    and disk_writes: "safe I E (on_disk (dsk_write d l data))"
    and updates: "(\<And>s. server_wf s \<Longrightarrow> server_wf (f s)) \<Longrightarrow> safe I E (update_srv f)"

begin

lemma safe_serread_update:
  "safe I E (update_srv (\<lambda>s. s\<lparr>vserial_outbox := (vserial_outbox s)[idx := q]\<rparr>))"
  by (rule updates) (simp add: server_wf_def)

lemma safe_print: "safe I E (update_srv (\<lambda>s. s\<lparr>print_buffer := f s\<rparr>))"
  by (rule updates) (simp add: server_wf_def)

lemma safe_print_flush: "safe I E (update_srv (\<lambda>s. if print_buffer s = [] then s else s\<lparr>print_buffer := []\<rparr>))"
  by (rule updates) (simp add: server_wf_def)

lemma safe_serwritem: "safe I E (update_srv (serwritem_store c buf))"
  by (rule updates) (simp add: server_wf_def serwritem_store_def Let_def)

lemma safe_serreadm: "safe I E (update_srv (\<lambda>s. snd (serreadm_take c n s)))"
  by (rule updates) (auto simp: server_wf_def serreadm_take_def Let_def split: prod.splits)

lemma safe_set_open: "safe I E (update_srv (set_channel_open c b))"
  by (rule updates) (rule server_wf_set_open)

lemma safe_push: "safe I E (update_srv (push_vserial c b))"
  by (rule updates) (rule server_wf_push)

lemmas safe_prims = reads writes disk_reads disk_writes safe_serread_update safe_print safe_print_flush
  safe_serwritem safe_serreadm safe_set_open safe_push

lemma safe_dispatch: "safe I E (dispatch c d)"
  unfolding dispatch_def handler_defs Let_def
  by (cases d; (simp only: decoded.case)?; (rename_tac opc, case_tac opc)?; simp only: opcode.case;
      intro safe_intros safe_prims)

end

lemma safe_on_trI:
  assumes "\<And>w a t'. I w \<Longrightarrow> m (tr w) = (Inr a, t') \<Longrightarrow> I (w\<lparr>tr := t'\<rparr>)"
    and "\<And>w e t'. I w \<Longrightarrow> m (tr w) = (Inl e, t') \<Longrightarrow> E (Io e) (w\<lparr>tr := t'\<rparr>)"
  shows "safe I E (on_tr m)"
  using assms by (auto simp: safe_def on_tr_def split: prod.splits sum.splits)

lemma safe_on_diskI: "(\<And>w f. I w \<Longrightarrow> I (w\<lparr>fs := f\<rparr>)) \<Longrightarrow> safe I E (on_disk m)"
  by (auto simp: safe_def on_disk_def split: prod.splits)

lemma safe_update_srvI: "(\<And>w. I w \<Longrightarrow> I (w\<lparr>srv := f (srv w)\<rparr>)) \<Longrightarrow> safe I E (update_srv f)"
  by (auto simp: safe_def update_srv_def modify_sx_def)

text \<open>
  Three instances: the transport only moves forward; the invariant of the server state
  is kept and only I/O errors are raised; without a write fault, an error means that the
  input has been used up.
\<close>

interpretation forward: session_contract "\<lambda>w. t_progress t0 (tr w)" "\<lambda>_ w. t_progress t0 (tr w)" for t0
proof
  have step: "t_progress t0 t \<Longrightarrow> t_progress t (snd p) \<Longrightarrow> p = (r, t') \<Longrightarrow> t_progress t0 t'"
    for t t' and p :: "'x \<times> transport" and r
    by (auto intro: t_progress_trans)
  show "safe (\<lambda>w. t_progress t0 (tr w)) (\<lambda>_ w. t_progress t0 (tr w)) (read_exact n)" for n
    by (rule safe_on_trI) (auto intro: step [OF _ t_progress_read_exact])
  show "safe (\<lambda>w. t_progress t0 (tr w)) (\<lambda>_ w. t_progress t0 (tr w)) (write_all bs)" for bs
    by (rule safe_on_trI) (auto intro: step [OF _ t_progress_write_all])
qed (auto intro: safe_on_diskI safe_update_srvI)

interpretation sound: session_contract "\<lambda>w. server_wf (srv w)" "\<lambda>e w. server_wf (srv w) \<and> (\<exists>x. e = Io x)"
  by unfold_locales (auto intro: safe_on_trI safe_on_diskI safe_update_srvI)

interpretation drained: session_contract "\<lambda>w. tx_fault (tr w) = None"
    "\<lambda>e w. rx (tr w) = [] \<and> e = Io (rx_end (tr w))"
  by unfold_locales
    (auto intro!: safe_on_trI safe_on_diskI safe_update_srvI
      simp: t_read_exact_def t_write_all_def split: if_splits)

lemma dispatch_rx_length:
  assumes "dispatch c d w = (r, w')"
  shows "length (rx (tr w')) \<le> length (rx (tr w))"
proof -
  have "t_progress (tr w) (tr w')"
    using assms forward.safe_dispatch [of "tr w" c d] unfolding safe_def
    by (cases r) (auto dest!: spec [of _ w])
  then show ?thesis by (rule t_progress_rx_length)
qed

section \<open>The session loop\<close>

text \<open>
  The loop of \<open>run\<close>.  It is left only through an error: end of stream while waiting for
  an opcode is \<open>Eof\<close>; every other failure, and a stream that ends inside a request,
  is \<open>Io\<close>.  \<open>clk n\<close> is the clock during the \<open>n\<close>-th request.
\<close>

function run :: "(nat \<Rightarrow> clock) \<Rightarrow> nat \<Rightarrow> unit session" where
  "run clk n w =
    (case t_read_exact 1 (tr w) of
       (Inl e, t') \<Rightarrow> (Inl (if kind e = UnexpectedEof then Eof else Io e), w\<lparr>tr := t'\<rparr>)
     | (Inr byte, t') \<Rightarrow>
         (case dispatch (clk n) (from_byte (byte ! 0)) (w\<lparr>tr := t'\<rparr>) of
            (Inl e, w') \<Rightarrow> (Inl e, w')
          | (Inr _, w') \<Rightarrow> run clk (Suc n) w'))"
  by pat_completeness auto
termination
  by (relation "measure (\<lambda>(clk, n, w). length (rx (tr w)))")
    (auto simp: t_read_exact_def split: if_splits dest!: dispatch_rx_length [OF sym])

declare run.simps [simp del]

lemma run_end [sx_simps]:
  "rx (tr w) = [] \<Longrightarrow> run clk n w = (Inl (if kind (rx_end (tr w)) = UnexpectedEof then Eof else Io (rx_end (tr w))), w)"
  by (simp add: run.simps t_read_exact_def)

lemma run_step:
  "rx (tr w) = b # rest \<Longrightarrow>
    run clk n w = bind_sx (dispatch (clk n) (from_byte b)) (\<lambda>_. run clk (Suc n)) (w\<lparr>tr := (tr w)\<lparr>rx := rest\<rparr>\<rparr>)"
  by (simp add: run.simps [of clk n w] t_read_exact_def bind_sx_def)

context session_contract
begin

text \<open>What every request keeps, the whole session keeps.\<close>

lemma safe_run:
  assumes "I w" "run clk n w = (r, w')"
  shows "\<exists>e. r = Inl e \<and> (E e w' \<or> e = Eof \<and> (\<exists>x. E (Io x) w'))"
  using assms
proof (induction "length (rx (tr w))" arbitrary: n w rule: less_induct)
  case less
  show ?case
  proof (cases "rx (tr w)")
    case Nil
    then have "on_tr (t_read_exact 1) w = (Inl (Io (rx_end (tr w))), w)"
      by (simp add: on_tr_def t_read_exact_def)
    from safe_Inl [OF reads less.prems(1) this] Nil less.prems(2) show ?thesis
      by (auto simp: run_end)
  next
    case (Cons b rest)
    let ?w = "w\<lparr>tr := (tr w)\<lparr>rx := rest\<rparr>\<rparr>"
    have rd: "t_read_exact 1 (tr w) = (Inr [b], (tr w)\<lparr>rx := rest\<rparr>)"
      using Cons by (simp add: t_read_exact_def)
    then have "on_tr (t_read_exact 1) w = (Inr [b], ?w)" by (simp add: on_tr_def)
    from safe_Inr [OF reads less.prems(1) this] have I: "I ?w" .
    obtain q w1 where d: "dispatch (clk n) (from_byte b) ?w = (q, w1)" by fastforce
    show ?thesis
    proof (cases q)
      case (Inl e)
      with d have "E e w1" using safe_Inl [OF safe_dispatch I] by blast
      with Inl d less.prems(2) show ?thesis by (auto simp: run_step [OF Cons] bind_sx_def)
    next
      case (Inr u)
      with d have "I w1" using safe_Inr [OF safe_dispatch I] by blast
      moreover have "run clk (Suc n) w1 = (r, w')"
        using d Inr less.prems(2) by (simp add: run_step [OF Cons] bind_sx_def)
      moreover have "length (rx (tr w1)) < length (rx (tr w))"
        using dispatch_rx_length [OF d] Cons by simp
      ultimately show ?thesis using less.hyps by blast
    qed
  qed
qed

end

text \<open>A transport for the witnesses: it delivers \<open>bs\<close> and then closes.\<close>

definition closing :: "bytes \<Rightarrow> transport" where
  "closing bs = \<lparr>rx = bs, rx_end = early_eof, tx = [], tx_fault = None\<rparr>"

definition demo_world :: "bytes \<Rightarrow> world" where
  "demo_world bs = \<lparr>srv = mount 0 demo_disk server_new, fs = demo_fs, tr = closing bs\<rparr>"

definition demo_clock :: clock where
  "demo_clock = \<lparr>now_local = None,
     now_utc = \<lparr>year = 2025, month = 7, day = 4, hour = 12, minute = 30, second = 5\<rparr>\<rparr>"

lemma demo_world_simps [simp]:
  "srv (demo_world bs) = mount 0 demo_disk server_new" "fs (demo_world bs) = demo_fs"
  "rx (tr (demo_world bs)) = bs" "rx_end (tr (demo_world bs)) = early_eof"
  "tx (tr (demo_world bs)) = []" "tx_fault (tr (demo_world bs)) = None"
  by (simp_all add: demo_world_def closing_def)

lemma server_wf_demo [simp]: "server_wf (mount 0 demo_disk server_new)"
  by (simp add: wf_intros)

text \<open>
  C19: a session over any finite input terminates, never with \<open>Ok\<close> and never with
  \<open>UnknownOpcode\<close>: it ends with \<open>Eof\<close> or an I/O error.  The server state it leaves
  behind satisfies its invariant, input was consumed from the front only and output
  appended at the end only, and if no write failed all input has been consumed.
\<close>

theorem run_outcome:
  assumes "server_wf (srv w)" "run clk n w = (r, w')"
  shows "(r = Inl Eof \<or> (\<exists>x. r = Inl (Io x))) \<and> server_wf (srv w') \<and> t_progress (tr w) (tr w') \<and>
    (tx_fault (tr w) = None \<longrightarrow> rx (tr w') = [])"
  using sound.safe_run [OF assms] forward.safe_run [OF t_progress_refl assms(2)]
    drained.safe_run [OF _ assms(2)] by auto

theorem run_outcome_witness:
  "server_wf (srv (snd (run (\<lambda>_. demo_clock) 0 (demo_world [0x49, 0x57, 0x00])))) \<and>
   rx (tr (snd (run (\<lambda>_. demo_clock) 0 (demo_world [0x49, 0x57, 0x00])))) = []"
  using run_outcome [of "demo_world [0x49, 0x57, 0x00]" "\<lambda>_. demo_clock" 0
      "fst (run (\<lambda>_. demo_clock) 0 (demo_world [0x49, 0x57, 0x00]))"
      "snd (run (\<lambda>_. demo_clock) 0 (demo_world [0x49, 0x57, 0x00]))"] by simp

end
