(* ===== verification/Protocol_Spec.thy ===== *)
theory Protocol_Spec
  imports Server
begin

text \<open>
  What the DriveWire protocol promises, independently of how the server reads and
  answers bytes: requests with typed fields, an abstract server whose drives, queues and
  flags are functions, and one equation per request giving the reply and the new state.
  \<open>encode\<close> is the wire format.  The refinement theorem says that \<open>dispatch\<close>, run on the
  encoding of a request, consumes exactly that request, sends exactly the specified
  reply and reaches the specified state; hence a session over any sequence of requests
  never loses synchronisation.
\<close>

section \<open>Requests and their encoding\<close>

datatype request =
    Bare opcode
  | ReadReq bool u8 lsn
  | ReadExReq bool u8 lsn u16
  | WriteReq bool u8 lsn bytes u16
  | DwInitReq u8
  | StatReq bool u8 u8
  | PrintReq u8
  | SerInitReq u8
  | SerTermReq u8
  | SerReadMReq u8 u8
  | SerWriteReq u8 u8
  | SerWriteMReq u8 bytes
  | SerSetStatReq u8 u8 bytes
  | SerGetStatReq u8 u8
  | FastWriteReq u8 u8
  | Junk u8

definition bare_opcodes :: "opcode list" where
  "bare_opcodes = [Nop, Reset1, Reset2, Reset3, Init, Term, Time, PrintFlush, SerRead, WirebugMode]"

fun be3 :: "u8 \<times> u8 \<times> u8 \<Rightarrow> bytes" where
  "be3 (a, b, c) = [a, b, c]"

text \<open>The first byte of a request and the payload that follows it.\<close>

fun head_byte :: "request \<Rightarrow> u8" where
  "head_byte (Bare opc) = opcode_byte opc"
| "head_byte (ReadReq re _ _) = opcode_byte (if re then Reread else Read)"
| "head_byte (ReadExReq re _ _ _) = opcode_byte (if re then RereadEx else ReadEx)"
| "head_byte (WriteReq re _ _ _ _) = opcode_byte (if re then Rewrite else Write)"
| "head_byte (DwInitReq _) = opcode_byte DwInit"
| "head_byte (StatReq st _ _) = opcode_byte (if st then SetStat else GetStat)"
| "head_byte (PrintReq _) = opcode_byte Print"
| "head_byte (SerInitReq _) = opcode_byte SerInit"
| "head_byte (SerTermReq _) = opcode_byte SerTerm"
| "head_byte (SerReadMReq _ _) = opcode_byte SerReadM"
| "head_byte (SerWriteReq _ _) = opcode_byte SerWrite"
| "head_byte (SerWriteMReq _ _) = opcode_byte SerWriteM"
| "head_byte (SerSetStatReq _ _ _) = opcode_byte SerSetStat"
| "head_byte (SerGetStatReq _ _) = opcode_byte SerGetStat"
| "head_byte (FastWriteReq c _) = 0x80 + c"
| "head_byte (Junk b) = b"

fun payload :: "request \<Rightarrow> bytes" where
  "payload (Bare _) = []"
| "payload (ReadReq _ slot l) = slot # be3 (to_be3 l)"
| "payload (ReadExReq _ slot l guest_sum) = slot # be3 (to_be3 l) @ be2 guest_sum"
| "payload (WriteReq _ slot l sector guest_sum) = slot # be3 (to_be3 l) @ sector @ be2 guest_sum"
| "payload (DwInitReq driver) = [driver]"
| "payload (StatReq _ drive code) = [drive, code]"
| "payload (PrintReq b) = [b]"
| "payload (SerInitReq ch) = [ch]"
| "payload (SerTermReq ch) = [ch]"
| "payload (SerReadMReq ch n) = [ch, n]"
| "payload (SerWriteReq ch b) = [ch, b]"
| "payload (SerWriteMReq ch bs) = ch # word_of_nat (length bs) # bs"
| "payload (SerSetStatReq ch code extra) = ch # code # extra"
| "payload (SerGetStatReq ch code) = [ch, code]"
| "payload (FastWriteReq _ b) = [b]"
| "payload (Junk _) = []"

definition encode :: "request \<Rightarrow> bytes" where
  "encode r = head_byte r # payload r"

fun wf_request :: "request \<Rightarrow> bool" where
  "wf_request (Bare opc) \<longleftrightarrow> opc \<in> set bare_opcodes"
| "wf_request (ReadReq _ _ l) \<longleftrightarrow> l \<le> lsn_MAX"
| "wf_request (ReadExReq _ _ l _) \<longleftrightarrow> l \<le> lsn_MAX"
| "wf_request (WriteReq _ _ l sector _) \<longleftrightarrow> l \<le> lsn_MAX \<and> length sector = 256"
| "wf_request (SerWriteMReq _ bs) \<longleftrightarrow> length bs < 256"
| "wf_request (SerSetStatReq _ code extra) \<longleftrightarrow> length extra = (if code = 0x28 then 26 else 0)"
| "wf_request (FastWriteReq ch _) \<longleftrightarrow> unat ch < 16"
| "wf_request (Junk b) \<longleftrightarrow> from_byte b = Unknown b"
| "wf_request _ \<longleftrightarrow> True"

section \<open>The abstract server\<close>

record astate =
  a_drives :: "u8 \<Rightarrow> dsk_file option"
  a_fs :: filesys
  a_print :: bytes
  a_inbox :: "u8 \<Rightarrow> bytes"
  a_outbox :: "u8 \<Rightarrow> bytes"
  a_open :: "u8 \<Rightarrow> bool"
  a_wake :: "u8 \<Rightarrow> notify"

definition channels :: "u8 list" where
  "channels = map word_of_nat [0..<16]"

text \<open>A failed or impossible read is answered with a sector of zeros.\<close>

definition a_sector :: "u8 \<Rightarrow> lsn \<Rightarrow> astate \<Rightarrow> bytes" where
  "a_sector slot l a =
    (case a_drives a slot of
       None \<Rightarrow> replicate 256 0
     | Some d \<Rightarrow> (case fst (dsk_read d l (a_fs a)) of Inr sector \<Rightarrow> sector | Inl _ \<Rightarrow> replicate 256 0))"

definition a_receive :: "u8 \<Rightarrow> bytes \<Rightarrow> astate \<Rightarrow> astate" where
  "a_receive ch bs a = (if ch \<in> set channels then a\<lparr>a_inbox := (a_inbox a)(ch := a_inbox a ch @ bs)\<rparr> else a)"

definition a_notify :: "u8 \<Rightarrow> astate \<Rightarrow> astate" where
  "a_notify ch a = (if ch \<in> set channels then a\<lparr>a_wake := (a_wake a)(ch := notify_one (a_wake a ch))\<rparr> else a)"

definition a_set_open :: "u8 \<Rightarrow> bool \<Rightarrow> astate \<Rightarrow> astate" where
  "a_set_open ch b a = (if ch \<in> set channels then a\<lparr>a_open := (a_open a)(ch := b)\<rparr> else a)"

text \<open>
  Polling: the lowest channel with data.  One or two bytes are delivered one at a time
  with the code 1 + channel; a longer queue is announced with 17 + channel and a count
  of at most 255, to be fetched by a multi-byte read.
\<close>

definition a_poll :: "astate \<Rightarrow> bytes \<times> astate" where
  "a_poll a =
    (case find (\<lambda>ch. a_outbox a ch \<noteq> []) channels of
       None \<Rightarrow> ([0, 0], a)
     | Some ch \<Rightarrow>
         (let q = a_outbox a ch in
          if length q < 3 then ([1 + ch, hd q], a\<lparr>a_outbox := (a_outbox a)(ch := tl q)\<rparr>)
          else ([17 + ch, word_of_nat (min 255 (length q))], a)))"

text \<open>A multi-byte read takes what is there and pads with zeros.\<close>

definition a_fetch :: "u8 \<Rightarrow> nat \<Rightarrow> astate \<Rightarrow> bytes \<times> astate" where
  "a_fetch ch n a =
    (let q = a_outbox a ch in
     (take n q @ replicate (n - length q) 0, a\<lparr>a_outbox := (a_outbox a)(ch := drop n q)\<rparr>))"

fun a_bare :: "clock \<Rightarrow> opcode \<Rightarrow> astate \<Rightarrow> bytes \<times> astate" where
  "a_bare c Time a = (time_reply c, a)"
| "a_bare c PrintFlush a = ([], a\<lparr>a_print := []\<rparr>)"
| "a_bare c SerRead a = a_poll a"
| "a_bare c _ a = ([], a)"

fun spec_step :: "clock \<Rightarrow> request \<Rightarrow> astate \<Rightarrow> bytes \<times> astate" where
  "spec_step c (Bare opc) a = a_bare c opc a"
| "spec_step c (ReadReq _ slot l) a =
     (let sector = a_sector slot l a in (sector @ be2 (checksum16 sector), a))"
| "spec_step c (ReadExReq _ slot l guest_sum) a =
     (let sector = a_sector slot l a in
      (sector @ [if guest_sum = checksum16 sector then 0 else 0xF3], a))"
| "spec_step c (WriteReq _ slot l sector guest_sum) a =
     (if guest_sum \<noteq> checksum16 sector then ([0xF3], a)
      else case a_drives a slot of
        None \<Rightarrow> ([0xF6], a)
      | Some d \<Rightarrow>
          (case dsk_write d l sector (a_fs a) of
             (Inr _, fs') \<Rightarrow> ([0], a\<lparr>a_fs := fs'\<rparr>)
           | (Inl _, fs') \<Rightarrow> ([0xF5], a\<lparr>a_fs := fs'\<rparr>)))"
| "spec_step c (DwInitReq _) a = ([4], a)"
| "spec_step c (PrintReq b) a = ([], a\<lparr>a_print := a_print a @ [b]\<rparr>)"
| "spec_step c (SerInitReq ch) a = ([], a_set_open ch True a)"
| "spec_step c (SerTermReq ch) a = ([], a_set_open ch False a)"
| "spec_step c (SerReadMReq ch n) a = a_fetch ch (unat n) a"
| "spec_step c (SerWriteReq ch b) a = ([], a_notify ch (a_receive ch [b] a))"
| "spec_step c (SerWriteMReq ch bs) a = ([], a_receive ch bs a)"
| "spec_step c (SerSetStatReq ch code _) a =
     ([], if code = 0x29 then a_set_open ch True a
          else if code = 0x2A then a_set_open ch False a else a)"
| "spec_step c (FastWriteReq ch b) a = ([], a_notify ch (a_receive ch [b] a))"
| "spec_step c (StatReq _ _ _) a = ([], a)"
| "spec_step c (SerGetStatReq _ _) a = ([], a)"
| "spec_step c (Junk _) a = ([], a)"

text \<open>A sequence of requests, the \<open>i\<close>-th under the \<open>i\<close>-th clock reading from \<open>n\<close> on.\<close>

fun spec_run :: "(nat \<Rightarrow> clock) \<Rightarrow> nat \<Rightarrow> request list \<Rightarrow> astate \<Rightarrow> bytes \<times> astate" where
  "spec_run clk n [] a = ([], a)"
| "spec_run clk n (r # rs) a =
     (let (out, a') = spec_step (clk n) r a; (out', a'') = spec_run clk (Suc n) rs a'
      in (out @ out', a''))"

section \<open>Abstraction\<close>

definition abs_st :: "server \<Rightarrow> filesys \<Rightarrow> astate" where
  "abs_st s f = \<lparr>a_drives = (\<lambda>slot. drive_lookup slot s), a_fs = f,
     a_print = print_buffer s, a_inbox = (\<lambda>c. inbox_of c s),
     a_outbox = (\<lambda>c. outbox_of c s), a_open = (\<lambda>c. is_channel_open c s),
     a_wake = (\<lambda>c. notify_of c s)\<rparr>"

abbreviation abs_of :: "world \<Rightarrow> astate" where
  "abs_of w \<equiv> abs_st (srv w) (fs w)"

lemma unat_channel: "i < 16 \<Longrightarrow> unat (word_of_nat i :: u8) = i"
  by (simp add: unsigned_of_nat take_bit_eq_mod)

lemma set_channels: "c \<in> set channels \<longleftrightarrow> valid_channel c"
proof
  assume "valid_channel c"
  then show "c \<in> set channels"
    by (auto simp: channels_def VSERIAL_CHANNELS_def intro: image_eqI [of _ _ "unat c"])
qed (auto simp: channels_def VSERIAL_CHANNELS_def unat_channel)

lemma abs_st_simps [simp]:
  "a_drives (abs_st s f) slot = drive_lookup slot s" "a_fs (abs_st s f) = f"
  "a_print (abs_st s f) = print_buffer s" "a_inbox (abs_st s f) c = inbox_of c s"
  "a_outbox (abs_st s f) c = outbox_of c s" "a_open (abs_st s f) c = is_channel_open c s"
  "a_wake (abs_st s f) c = notify_of c s" "(abs_st s f)\<lparr>a_fs := f'\<rparr> = abs_st s f'"
  by (simp_all add: abs_st_def)

lemma abs_st_eqI:
  assumes "\<And>slot. drive_lookup slot s = a_drives a slot" "f = a_fs a"
    "print_buffer s = a_print a" "\<And>c. inbox_of c s = a_inbox a c"
    "\<And>c. outbox_of c s = a_outbox a c" "\<And>c. is_channel_open c s = a_open a c"
    "\<And>c. notify_of c s = a_wake a c"
  shows "abs_st s f = a"
  using assms by (cases a) (simp add: abs_st_def fun_eq_iff)

lemma drive_lookup_frames [simp]:
  "drive_lookup slot (push_vserial c b s) = drive_lookup slot s"
  "drive_lookup slot (set_channel_open c o' s) = drive_lookup slot s"
  "drive_lookup slot (serwritem_store c bs s) = drive_lookup slot s"
  by (simp_all add: drive_lookup_def push_vserial_def set_channel_open_def serwritem_store_def Let_def)

lemma print_buffer_frames [simp]:
  "print_buffer (push_vserial c b s) = print_buffer s"
  "print_buffer (set_channel_open c o' s) = print_buffer s"
  "print_buffer (serwritem_store c bs s) = print_buffer s"
  by (simp_all add: push_vserial_def set_channel_open_def serwritem_store_def Let_def)

lemma is_channel_open_frames [simp]:
  "is_channel_open d (push_vserial c b s) = is_channel_open d s"
  "is_channel_open d (serwritem_store c bs s) = is_channel_open d s"
  by (simp_all add: is_channel_open_def push_vserial_def serwritem_store_def Let_def)

lemma serwritem_store_queues [queue_simps]:
  assumes "server_wf s"
  shows "inbox_of c (serwritem_store d bs s) = inbox_of c s @ (if c = d \<and> valid_channel d then bs else [])"
    "outbox_of c (serwritem_store d bs s) = outbox_of c s"
    "notify_of c (serwritem_store d bs s) = notify_of c s"
  using assms by (auto simp: queue_defs serwritem_store_def server_wf_def Let_def nth_list_update word_unat_eq_iff)

lemma abs_push:
  "server_wf s \<Longrightarrow> abs_st (push_vserial c b s) f = a_notify c (a_receive c [b] (abs_st s f))"
  by (rule abs_st_eqI) (auto simp: a_notify_def a_receive_def set_channels queue_simps)

lemma abs_serwritem:
  "server_wf s \<Longrightarrow> abs_st (serwritem_store c bs s) f = a_receive c bs (abs_st s f)"
  by (rule abs_st_eqI) (auto simp: a_receive_def set_channels queue_simps)

lemma abs_set_open:
  "server_wf s \<Longrightarrow> abs_st (set_channel_open c b s) f = a_set_open c b (abs_st s f)"
  by (rule abs_st_eqI) (auto simp: a_set_open_def set_channels queue_simps)

lemma abs_print: "abs_st (s\<lparr>print_buffer := p\<rparr>) f = (abs_st s f)\<lparr>a_print := p\<rparr>"
  by (rule abs_st_eqI) (auto simp: drive_lookup_def queue_defs is_channel_open_def)

text \<open>Replacing one outgoing queue.\<close>

lemma abs_outbox:
  assumes "server_wf s" "valid_channel c"
  shows "abs_st (s\<lparr>vserial_outbox := (vserial_outbox s)[unat c := q]\<rparr>) f =
    (abs_st s f)\<lparr>a_outbox := (a_outbox (abs_st s f))(c := q)\<rparr>"
  using assms
  by (intro abs_st_eqI)
    (auto simp: drive_lookup_def queue_defs is_channel_open_def server_wf_def nth_list_update word_unat_eq_iff)

lemma pop_padded_eq: "pop_padded n q = (take n q @ replicate (n - length q) 0, drop n q)"
  by (induction n arbitrary: q) (auto split: list.splits)

lemma abs_serreadm:
  assumes "server_wf s"
  shows "fst (serreadm_take c n s) = fst (a_fetch c n (abs_st s f)) \<and>
    abs_st (snd (serreadm_take c n s)) f = snd (a_fetch c n (abs_st s f))"
proof (cases "valid_channel c")
  case True
  with abs_outbox [OF assms True, of "drop n (outbox_of c s)"] show ?thesis
    by (simp add: serreadm_take_def a_fetch_def pop_padded_eq outbox_of_def Let_def)
next
  case False
  then have "outbox_of c s = []" by (simp add: outbox_of_def)
  moreover from this have "abs_st s f = (abs_st s f)\<lparr>a_outbox := (a_outbox (abs_st s f))(c := [])\<rparr>"
    by (intro abs_st_eqI) auto
  ultimately show ?thesis using False by (simp add: serreadm_take_def a_fetch_def Let_def)
qed

lemma find_map: "find P (map f xs) = map_option f (find (P \<circ> f) xs)"
  by (induction xs) auto

lemma first_ready_find:
  "first_ready i qs = map_option (\<lambda>k. (i + k, qs ! k)) (find (\<lambda>k. qs ! k \<noteq> []) [0..<length qs])"
proof (induction qs arbitrary: i)
  case (Cons q qs)
  have "[0..<length (q # qs)] = 0 # map Suc [0..<length qs]"
    by (simp add: map_Suc_upt upt_conv_Cons del: upt_Suc)
  with Cons [of "Suc i"] show ?case
    by (simp add: find_map comp_def option.map_comp del: upt_Suc)
qed simp

lemma find_cong_set: "(\<And>x. x \<in> set xs \<Longrightarrow> P x = Q x) \<Longrightarrow> find P xs = find Q xs"
  by (induction xs) auto

lemma first_ready_channels:
  assumes "server_wf s"
  shows "first_ready 0 (vserial_outbox s) =
    map_option (\<lambda>c. (unat c, outbox_of c s)) (find (\<lambda>c. outbox_of c s \<noteq> []) channels)"
proof -
  have len: "length (vserial_outbox s) = 16" using assms by (simp add: server_wf_def VSERIAL_CHANNELS_def)
  have o: "outbox_of (word_of_nat i) s = vserial_outbox s ! i" if "i < 16" for i
    using that by (simp add: outbox_of_def unat_channel VSERIAL_CHANNELS_def)
  have "find (\<lambda>k. vserial_outbox s ! k \<noteq> []) [0..<16] = find ((\<lambda>c. outbox_of c s \<noteq> []) \<circ> word_of_nat) [0..<16]"
    by (rule find_cong_set) (simp add: o)
  then show ?thesis
    unfolding first_ready_find len channels_def find_map option.map_comp
    by (auto intro!: option.map_cong simp: find_Some_iff o unat_channel)
qed

section \<open>One request\<close>

text \<open>What a handler does when its payload and nothing less is at the front of the input.\<close>

definition answers :: "unit session \<Rightarrow> bytes \<Rightarrow> world \<Rightarrow> bytes \<times> astate \<Rightarrow> bool" where
  "answers m p w = (\<lambda>(out, a).
     \<forall>rest. rx (tr w) = p @ rest \<longrightarrow>
       (\<exists>w'. m w = (Inr (), w') \<and> tr w' = (tr w)\<lparr>rx := rest, tx := tx (tr w) @ out\<rparr> \<and>
             abs_of w' = a \<and> server_wf (srv w')))"

lemmas exec_defs = bind_sx_def on_tr_def t_read_exact_def t_write_all_def gets_sx_def return_sx_def
  update_srv_def modify_sx_def on_disk_def Let_def

lemma be3_to_be3 [simp]:
  "l \<le> lsn_MAX \<Longrightarrow> from_be3 (be3 (to_be3 l) ! 0, be3 (to_be3 l) ! 1, be3 (to_be3 l) ! 2) = l"
  using from_be3_to_be3 [of l] by (cases "to_be3 l") simp

lemma be3_cases: obtains a b c where "be3 (to_be3 l) = [a, b, c]" "to_be3 l = (a, b, c)"
  by (cases "to_be3 l") simp

lemma be2_cases: obtains a b where "be2 x = [a, b]" "u16_from_be_bytes (a, b) = x"
  by (cases "u16_to_be_bytes x") (metis be2_def case_prod_conv u16_be_roundtrip)

lemma dsk_read_fs: "dsk_read d l f = (r, f') \<Longrightarrow> f' = f"
  by (auto simp: dsk_read_def raise_sx_def bind_sx_def io_vd_def file_seek_def file_read_exact_def Let_def
      split: option.splits if_splits)

lemma handle_read_fetch:
  "(case drive_lookup slot (srv w) of
      None \<Rightarrow> return_sx zero_sector
    | Some d \<Rightarrow> bind_sx (on_disk (dsk_read d l))
        (\<lambda>r. return_sx (case r of Inl e \<Rightarrow> zero_sector | Inr sector \<Rightarrow> sector))) w =
   (Inr (a_sector slot l (abs_of w)), w)"
proof (cases "drive_lookup slot (srv w)")
  case None
  then show ?thesis by (simp add: return_sx_def a_sector_def zero_sector_def SECTOR_SIZE_def)
next
  case (Some d)
  obtain r f' where r: "dsk_read d l (fs w) = (r, f')" by fastforce
  then have "f' = fs w" by (rule dsk_read_fs)
  with Some r show ?thesis
    by (cases r) (simp_all add: bind_sx_def on_disk_def return_sx_def a_sector_def zero_sector_def SECTOR_SIZE_def)
qed

lemma handle_read_body:
  assumes "rx (tr w) = slot # be3 (to_be3 l) @ rest" "l \<le> lsn_MAX"
  shows "handle_read extended w =
    (let sector = a_sector slot l (abs_of w) in
     bind_sx (write_all sector) (\<lambda>_.
      if extended then
        bind_sx (read_exact 2) (\<lambda>g.
          write_all [if u16_from_be_bytes (g ! 0, g ! 1) = checksum16 sector then 0x00 else dw_error_code ErrCrc])
      else write_all (be2 (checksum16 sector))) (w\<lparr>tr := (tr w)\<lparr>rx := rest\<rparr>\<rparr>))"
proof -
  obtain b0 b1 b2 where be: "be3 (to_be3 l) = [b0, b1, b2]" "to_be3 l = (b0, b1, b2)" by (rule be3_cases)
  have l: "from_be3 (b0, b1, b2) = l" using from_be3_to_be3 [OF assms(2)] be(2) by simp
  let ?w = "w\<lparr>tr := (tr w)\<lparr>rx := rest\<rparr>\<rparr>"
  have hdr: "read_exact 4 w = (Inr [slot, b0, b1, b2], ?w)"
    using assms(1) be(1) by (simp add: on_tr_def t_read_exact_def)
  have nth: "[slot, b0, b1, b2] ! 0 = slot" "[slot, b0, b1, b2] ! 1 = b0"
      "[slot, b0, b1, b2] ! 2 = b1" "[slot, b0, b1, b2] ! 3 = b2"
    by simp_all
  show ?thesis
    unfolding handle_read_def Let_def bind_sx_Inr [of "read_exact 4", OF hdr] nth l
    using handle_read_fetch [where w = ?w and slot = slot and l = l] l by (simp add: bind_sx_def gets_sx_def Let_def)
qed

lemma read_answers:
  assumes "tx_fault (tr w) = None" "l \<le> lsn_MAX" "server_wf (srv w)"
  shows "answers (handle_read False) (slot # be3 (to_be3 l)) w (spec_step c (ReadReq re slot l) (abs_of w))"
  using assms by (auto simp: answers_def handle_read_body exec_defs)

lemma read_ex_answers:
  assumes "tx_fault (tr w) = None" "l \<le> lsn_MAX" "server_wf (srv w)"
  shows "answers (handle_read True) (slot # be3 (to_be3 l) @ be2 gs) w
    (spec_step c (ReadExReq re slot l gs) (abs_of w))"
proof -
  obtain s1 s0 where gs: "be2 gs = [s1, s0]" "u16_from_be_bytes (s1, s0) = gs" by (rule be2_cases)
  show ?thesis using assms by (auto simp: answers_def handle_read_body exec_defs gs)
qed

lemma write_answers:
  assumes "tx_fault (tr w) = None" "l \<le> lsn_MAX" "server_wf (srv w)" "length sector = 256"
  shows "answers handle_write (slot # be3 (to_be3 l) @ sector @ be2 gs) w
    (spec_step c (WriteReq re slot l sector gs) (abs_of w))"
proof -
  obtain b0 b1 b2 where be: "be3 (to_be3 l) = [b0, b1, b2]" "to_be3 l = (b0, b1, b2)" by (rule be3_cases)
  obtain s1 s0 where sum: "be2 gs = [s1, s0]" "u16_from_be_bytes (s1, s0) = gs" by (rule be2_cases)
  have l: "from_be3 (b0, b1, b2) = l" using from_be3_to_be3 [OF assms(2)] be(2) by simp
  show ?thesis
    using assms(1,3,4)
    by (auto simp: answers_def handle_write_def exec_defs be sum l SECTOR_SIZE_def
        split: option.splits prod.splits sum.splits)
qed

lemma poll_answers:
  assumes "tx_fault (tr w) = None" "server_wf (srv w)"
  shows "answers handle_serread [] w (a_poll (abs_of w))"
proof (cases "find (\<lambda>c. outbox_of c (srv w) \<noteq> []) channels")
  case None
  with assms show ?thesis
    by (auto simp: answers_def handle_serread_def exec_defs first_ready_channels a_poll_def)
next
  case (Some ch)
  then have ch: "valid_channel ch" by (auto simp: find_Some_iff set_channels [symmetric])
  moreover have "server_wf ((srv w)\<lparr>vserial_outbox := (vserial_outbox (srv w))[unat ch := q]\<rparr>)" for q
    using assms(2) by (simp add: server_wf_def)
  ultimately show ?thesis
    using Some assms abs_outbox [OF assms(2) ch, of "tl (outbox_of ch (srv w))" "fs w"]
    by (auto simp: answers_def handle_serread_def exec_defs first_ready_channels a_poll_def min.commute)
qed

lemma serreadm_answers:
  assumes "tx_fault (tr w) = None" "server_wf (srv w)"
  shows "answers handle_serreadm [ch, n] w (a_fetch ch (unat n) (abs_of w))"
proof -
  have "server_wf (snd (serreadm_take ch k s))" if "server_wf s" for k s
    using that by (auto simp: server_wf_def serreadm_take_def Let_def split: prod.splits)
  with assms abs_serreadm [OF assms(2), of ch "unat n" "fs w"] show ?thesis
    by (auto simp: answers_def handle_serreadm_def exec_defs case_prod_beta')
qed

lemma serwritem_answers:
  assumes "server_wf (srv w)" "length bs < 256"
  shows "answers handle_serwritem (ch # word_of_nat (length bs) # bs) w ([], a_receive ch bs (abs_of w))"
proof -
  have "unat (word_of_nat (length bs) :: u8) = length bs"
    using assms(2) by (simp add: unsigned_of_nat take_bit_eq_mod)
  moreover have "server_wf (serwritem_store ch bs (srv w))"
    using assms(1) by (simp add: server_wf_def serwritem_store_def Let_def)
  ultimately show ?thesis
    using assms(1) by (auto simp: answers_def handle_serwritem_def exec_defs abs_serwritem)
qed

lemma sersetstat_answers:
  assumes "server_wf (srv w)" "length extra = (if code = 0x28 then 26 else 0)"
  shows "answers handle_sersetstat (ch # code # extra) w
    (spec_step c (SerSetStatReq ch code extra) (abs_of w))"
  using assms
  by (auto simp: answers_def handle_sersetstat_def exec_defs abs_set_open SS_OPEN_def SS_CLOSE_def
      SS_COMST_def COMST_PAYLOAD_LEN_def wf_intros)

lemma print_flush_answers:
  assumes "server_wf (srv w)"
  shows "answers handle_print_flush [] w ([], (abs_of w)\<lparr>a_print := []\<rparr>)"
  using assms abs_print [where s = "srv w" and p = "[]" and f = "fs w"]
  by (auto simp: answers_def handle_print_flush_def exec_defs server_wf_def)

lemma bare_answers:
  assumes "tx_fault (tr w) = None" "server_wf (srv w)" "opc \<in> set bare_opcodes"
  shows "answers (dispatch c (Op opc)) [] w (a_bare c opc (abs_of w))"
  using assms poll_answers [OF assms(1,2)] print_flush_answers [OF assms(2)]
  by (auto simp: bare_opcodes_def dispatch_def)
    (auto simp: answers_def handle_time_def exec_defs)

lemmas request_answers = read_answers read_ex_answers write_answers serreadm_answers serwritem_answers
  sersetstat_answers bare_answers

lemma dispatch_answers:
  assumes "wf_request r" "tx_fault (tr w) = None" "server_wf (srv w)"
  shows "answers (dispatch c (from_byte (head_byte r))) (payload r) w (spec_step c r (abs_of w))"
proof (cases r)
  case (Bare opc)
  with assms show ?thesis by (simp add: bare_answers)
next
  case (ReadReq re slot l)
  with assms show ?thesis by (simp add: dispatch_def read_answers del: spec_step.simps)
next
  case (ReadExReq re slot l gs)
  with assms show ?thesis by (simp add: dispatch_def read_ex_answers del: spec_step.simps)
next
  case (WriteReq re slot l sector gs)
  with assms show ?thesis by (simp add: dispatch_def write_answers del: spec_step.simps)
next
  case (SerReadMReq ch n)
  with assms show ?thesis by (simp add: dispatch_def serreadm_answers)
next
  case (SerWriteMReq ch bs)
  with assms show ?thesis by (simp add: dispatch_def serwritem_answers)
next
  case (SerSetStatReq ch code extra)
  with assms show ?thesis by (simp add: dispatch_def sersetstat_answers del: spec_step.simps)
next
  case (DwInitReq x)
  with assms show ?thesis
    by (auto simp: dispatch_def answers_def handle_dwinit_def exec_defs DWINIT_RESPONSE_def)
next
  case (PrintReq b)
  with assms show ?thesis
    by (auto simp: dispatch_def answers_def handle_print_def exec_defs abs_print server_wf_def)
qed (use assms in \<open>auto simp: dispatch_def answers_def handle_stat_def handle_fastwrite_def exec_defs
      abs_push abs_set_open wf_intros\<close>)

lemma run_requests:
  assumes "\<forall>r \<in> set rs. wf_request r" "tx_fault (tr w) = None" "server_wf (srv w)"
    and "rx (tr w) = concat (map encode rs) @ rest"
  shows "\<exists>w'. run clk n w = run clk (n + length rs) w' \<and>
    tr w' = (tr w)\<lparr>rx := rest, tx := tx (tr w) @ fst (spec_run clk n rs (abs_of w))\<rparr> \<and>
    abs_of w' = snd (spec_run clk n rs (abs_of w)) \<and> server_wf (srv w')"
  using assms
proof (induction rs arbitrary: n w)
  case Nil
  then have "tr w = (tr w)\<lparr>rx := rest, tx := tx (tr w)\<rparr>" by simp
  with Nil show ?case by auto
next
  case (Cons r rs)
  let ?rest = "concat (map encode rs) @ rest"
  let ?w = "w\<lparr>tr := (tr w)\<lparr>rx := payload r @ ?rest\<rparr>\<rparr>"
  have rx: "rx (tr w) = head_byte r # payload r @ ?rest" using Cons.prems(4) by (simp add: encode_def [of r])
  obtain out a where sp: "spec_step (clk n) r (abs_of w) = (out, a)" by fastforce
  have "answers (dispatch (clk n) (from_byte (head_byte r))) (payload r) ?w (spec_step (clk n) r (abs_of ?w))"
    using Cons.prems by (intro dispatch_answers) auto
  then obtain w1 where w1: "dispatch (clk n) (from_byte (head_byte r)) ?w = (Inr (), w1)"
      "tr w1 = (tr w)\<lparr>rx := ?rest, tx := tx (tr w) @ out\<rparr>" "abs_of w1 = a" "server_wf (srv w1)"
    using sp by (auto simp: answers_def)
  have "run clk n w = run clk (Suc n) w1"
    using w1(1) by (simp add: run_step [OF rx] bind_sx_def)
  moreover obtain w' where "run clk (Suc n) w1 = run clk (Suc n + length rs) w'"
      "tr w' = (tr w1)\<lparr>rx := rest, tx := tx (tr w1) @ fst (spec_run clk (Suc n) rs (abs_of w1))\<rparr>"
      "abs_of w' = snd (spec_run clk (Suc n) rs (abs_of w1))" "server_wf (srv w')"
    using Cons.IH [of w1 "Suc n"] Cons.prems w1 by auto
  ultimately show ?case
    using w1(2,3) sp by (auto simp: case_prod_beta' Let_def)
qed

text \<open>
  C1: the server implements the protocol.  On a connection that carries the encodings
  of any well-formed requests, junk bytes included, and then closes, the session ends
  with \<open>Eof\<close>, every request has been recognised, the bytes sent are exactly the
  specified replies in order and the final state is the specified one: no request ever
  consumes a byte more or less than its own.
\<close>

theorem run_implements_protocol:
  assumes "\<forall>r \<in> set rs. wf_request r" "tx_fault (tr w) = None" "server_wf (srv w)"
    and "rx (tr w) = concat (map encode rs)" "kind (rx_end (tr w)) = UnexpectedEof"
  shows "\<exists>w'. run clk n w = (Inl Eof, w') \<and>
    tx (tr w') = tx (tr w) @ fst (spec_run clk n rs (abs_st (srv w) (fs w))) \<and>
    abs_st (srv w') (fs w') = snd (spec_run clk n rs (abs_st (srv w) (fs w)))"
proof -
  obtain w' where w': "run clk n w = run clk (n + length rs) w'"
      "tr w' = (tr w)\<lparr>rx := [], tx := tx (tr w) @ fst (spec_run clk n rs (abs_of w))\<rparr>"
      "abs_of w' = snd (spec_run clk n rs (abs_of w))"
    using run_requests [of rs w "[]" clk n] assms by auto
  then have "run clk (n + length rs) w' = (Inl Eof, w')"
    using assms(5) by (simp add: run_end)
  with w' show ?thesis by auto
qed

theorem run_implements_protocol_witness:
  "\<exists>w'. run (\<lambda>_. demo_clock) 0 (demo_world [0x1F, 0x5A, 0x42, 0xC4, 0x02, 0x29, 0x23]) = (Inl Eof, w') \<and>
    tx (tr w') = [0x04, 125, 7, 4, 12, 30, 5] \<and> is_channel_open 2 (srv w')"
proof -
  let ?rs = "[Junk 0x1F, DwInitReq 0x42, SerSetStatReq 2 0x29 [], Bare Time]"
  let ?w = "demo_world [0x1F, 0x5A, 0x42, 0xC4, 0x02, 0x29, 0x23]"
  have "\<forall>r \<in> set ?rs. wf_request r"
    by (simp add: bare_opcodes_def from_byte_def opcode_try_from_def)
  moreover have "rx (tr ?w) = concat (map encode ?rs)" by (simp add: encode_def opcode_byte.simps)
  ultimately obtain w' where w': "run (\<lambda>_. demo_clock) 0 ?w = (Inl Eof, w')"
      "tx (tr w') = fst (spec_run (\<lambda>_. demo_clock) 0 ?rs (abs_of ?w))"
      "abs_of w' = snd (spec_run (\<lambda>_. demo_clock) 0 ?rs (abs_of ?w))"
    using run_implements_protocol [of ?rs ?w "\<lambda>_. demo_clock" 0] by (auto simp: early_eof_def)
  have "is_channel_open 2 (srv w') = a_open (abs_of w') 2" by simp
  also have "\<dots> = a_open (a_set_open 2 True (abs_of ?w)) 2" using w'(3) by simp
  also have "\<dots>" by (simp add: a_set_open_def channels_def upt_rec)
  finally have "is_channel_open 2 (srv w')" by simp
  moreover have "time_reply demo_clock = [125, 7, 4, 12, 30, 5]"
    by (simp add: time_reply_def demo_clock_def)
  ultimately show ?thesis using w' by auto
qed

section \<open>Requests that are cut short\<close>

text \<open>
  A handler whose payload ends early: the request fails with the error of the transport
  and leaves the server state and the disks as they were.
\<close>

definition aborts :: "unit session \<Rightarrow> bytes \<Rightarrow> world \<Rightarrow> bool" where
  "aborts m p w \<longleftrightarrow>
     (rx (tr w) = p \<longrightarrow> (\<exists>w'. m w = (Inl (Io (rx_end (tr w))), w') \<and> srv w' = srv w \<and> fs w' = fs w))"

lemma bind_read_aborts: "length p < n \<Longrightarrow> aborts (bind_sx (read_exact n) f) p w"
  by (auto simp: aborts_def bind_sx_def on_tr_def t_read_exact_def)

lemma bind_read_more:
  assumes "length q = n" "aborts (f q) p (w\<lparr>tr := (tr w)\<lparr>rx := p\<rparr>\<rparr>)"
  shows "aborts (bind_sx (read_exact n) f) (q @ p) w"
  using assms by (auto simp: aborts_def bind_sx_def on_tr_def t_read_exact_def)

lemma read_ex_aborts:
  assumes "tx_fault (tr w) = None" "l \<le> lsn_MAX" "length g < 2"
  shows "aborts (handle_read True) (slot # be3 (to_be3 l) @ g) w"
  using assms by (auto simp: aborts_def handle_read_body exec_defs)

lemma write_aborts:
  assumes "length p < 4 + 256 + 2"
  shows "aborts handle_write p w"
proof (cases "length p < 4")
  case True
  then show ?thesis unfolding handle_write_def by (rule bind_read_aborts)
next
  case False
  then have p: "p = take 4 p @ drop 4 p" "length (take 4 p) = 4" by simp_all
  show ?thesis
  proof (cases "length (drop 4 p) < SECTOR_SIZE")
    case True
    show ?thesis
      unfolding handle_write_def Let_def
      by (subst p(1), rule bind_read_more [OF p(2)], rule bind_read_aborts [OF True])
  next
    case False
    then have q: "drop 4 p = take SECTOR_SIZE (drop 4 p) @ drop SECTOR_SIZE (drop 4 p)"
        "length (take SECTOR_SIZE (drop 4 p)) = SECTOR_SIZE"
      by (simp_all only: append_take_drop_id length_take)
    have short: "length (drop SECTOR_SIZE (drop 4 p)) < 2"
      using assms False by (simp add: SECTOR_SIZE_def)
    show ?thesis
      unfolding handle_write_def Let_def
      by (subst p(1), rule bind_read_more [OF p(2)], subst q(1), rule bind_read_more [OF q(2)],
          rule bind_read_aborts [OF short])
  qed
qed

lemma serwritem_aborts:
  assumes "length bs < 256" "length p < 2 \<or> (\<exists>b. p = ch # word_of_nat (length bs) # b \<and> length b < length bs)"
  shows "aborts handle_serwritem p w"
proof (cases "length p < 2")
  case True
  then show ?thesis unfolding handle_serwritem_def by (rule bind_read_aborts)
next
  case False
  with assms(2) obtain b where b: "p = [ch, word_of_nat (length bs)] @ b" "length b < length bs" by auto
  have n: "unat ([ch, word_of_nat (length bs)] ! 1) = length bs"
    using assms(1) by (simp add: unsigned_of_nat take_bit_eq_mod)
  show ?thesis
    unfolding handle_serwritem_def Let_def b(1)
    by (rule bind_read_more, simp, unfold n, rule bind_read_aborts [OF b(2)])
qed

lemma sersetstat_aborts:
  assumes "length p < 2 \<or> (\<exists>b. p = ch # 0x28 # b \<and> length b < 26)"
  shows "aborts handle_sersetstat p w"
proof (cases "length p < 2")
  case True
  then show ?thesis unfolding handle_sersetstat_def by (rule bind_read_aborts)
next
  case False
  with assms obtain b where b: "p = [ch, 0x28] @ b" "length b < 26" by auto
  show ?thesis
    unfolding handle_sersetstat_def b(1)
    by (rule bind_read_more) (use b(2) in \<open>auto intro!: bind_read_aborts
        simp: SS_OPEN_def SS_CLOSE_def SS_COMST_def COMST_PAYLOAD_LEN_def\<close>)
qed

lemma append_eq_2: "[a, b] @ xs = p @ q \<Longrightarrow> length p < 2 \<or> (\<exists>r. p = a # b # r \<and> xs = r @ q)"
  by (cases p; cases "tl p") auto

lemma length_be3 [simp]: "length (be3 x) = 3"
  by (cases x) simp

lemma length_be2 [simp]: "length (be2 x) = 2"
  by (simp add: be2_def split: prod.splits)

lemma dispatch_aborts:
  assumes "wf_request r" "tx_fault (tr w) = None" "payload r = p @ q" "q \<noteq> []"
  shows "aborts (dispatch c (from_byte (head_byte r))) p w"
proof -
  have len: "length p < length (payload r)" using assms(3,4) by simp
  show ?thesis
  proof (cases r)
    case (ReadReq re slot l)
    with len show ?thesis by (simp add: dispatch_def handle_read_def bind_read_aborts)
  next
    case (ReadExReq re slot l gs)
    show ?thesis
    proof (cases "length p < 4")
      case True
      with ReadExReq show ?thesis by (simp add: dispatch_def handle_read_def bind_read_aborts)
    next
      case False
      have eq: "(slot # be3 (to_be3 l)) @ be2 gs = p @ q" using assms(3) ReadExReq by simp
      from False arg_cong [OF eq, of "take 4"] arg_cong [OF eq, of "drop 4"]
      have "slot # be3 (to_be3 l) = take 4 p" "be2 gs = drop 4 p @ q" by simp_all
      moreover from this(2) have "length (drop 4 p) + length q = 2"
        by (metis length_append length_be2)
      with assms(4) have "length (drop 4 p) < 2" by (cases q) auto
      ultimately have "p = slot # be3 (to_be3 l) @ drop 4 p" "length (drop 4 p) < 2"
        by (metis append_Cons append_take_drop_id)+
      then have "aborts (handle_read True) p w"
        using read_ex_aborts [of w l "drop 4 p" slot] assms(1,2) ReadExReq by simp
      then show ?thesis using ReadExReq by (simp add: dispatch_def)
    qed
  next
    case (WriteReq re slot l sector gs)
    with len assms(1) show ?thesis by (simp add: dispatch_def write_aborts)
  next
    case (SerWriteMReq ch bs)
    with append_eq_2 [of ch "word_of_nat (length bs)" bs p q] assms show ?thesis
      by (auto simp: dispatch_def intro!: serwritem_aborts [where ch = ch and bs = bs])
  next
    case (SerSetStatReq ch code extra)
    with append_eq_2 [of ch code extra p q] assms show ?thesis
      by (cases q) (auto simp: dispatch_def intro!: sersetstat_aborts [where ch = ch] split: if_splits)
  qed (use len assms(1) in \<open>auto simp: dispatch_def handle_stat_def handle_dwinit_def handle_print_def
      handle_serreadm_def handle_fastwrite_def intro!: bind_read_aborts\<close>)
qed

text \<open>
  C15: a connection that breaks inside a request.  After any sequence of complete
  requests, a request whose payload is cut short ends the session with an I/O error,
  never with a clean \<open>Eof\<close>, and has no effect: drives, disks, queues, flags and the
  print buffer are exactly as the complete requests left them.
\<close>

theorem truncated_request_has_no_effect:
  assumes "\<forall>r \<in> set rs. wf_request r" "wf_request r" "tx_fault (tr w) = None" "server_wf (srv w)"
    and "payload r = p @ q" "q \<noteq> []" "rx (tr w) = concat (map encode rs) @ head_byte r # p"
  shows "\<exists>w'. run clk n w = (Inl (Io (rx_end (tr w))), w') \<and>
    abs_st (srv w') (fs w') = snd (spec_run clk n rs (abs_st (srv w) (fs w)))"
proof -
  obtain w1 where w1: "run clk n w = run clk (n + length rs) w1"
      "tr w1 = (tr w)\<lparr>rx := head_byte r # p, tx := tx (tr w) @ fst (spec_run clk n rs (abs_of w))\<rparr>"
      "abs_of w1 = snd (spec_run clk n rs (abs_of w))"
    using run_requests [OF assms(1,3,4,7)] by blast
  let ?w = "w1\<lparr>tr := (tr w1)\<lparr>rx := p\<rparr>\<rparr>"
  have "aborts (dispatch (clk (n + length rs)) (from_byte (head_byte r))) p ?w"
    using assms(2,3,5,6) w1(2) by (intro dispatch_aborts) auto
  then obtain w' where "dispatch (clk (n + length rs)) (from_byte (head_byte r)) ?w =
      (Inl (Io (rx_end (tr w))), w')" "srv w' = srv w1" "fs w' = fs w1"
    using w1(2) by (auto simp: aborts_def)
  moreover have "rx (tr w1) = head_byte r # p" using w1(2) by simp
  ultimately show ?thesis using w1(1,3) by (auto simp: run_step bind_sx_def)
qed

theorem truncated_request_has_no_effect_witness:
  "\<exists>w'. run (\<lambda>_. demo_clock) 0 (demo_world [0x50, 0x48, 0x64, 0x03, 0x02, 0x41]) = (Inl (Io early_eof), w') \<and>
    print_buffer (srv w') = [0x48] \<and> inbox_of 3 (srv w') = []"
proof -
  let ?w = "demo_world [0x50, 0x48, 0x64, 0x03, 0x02, 0x41]"
  have "\<exists>w'. run (\<lambda>_. demo_clock) 0 ?w = (Inl (Io (rx_end (tr ?w))), w') \<and>
    abs_st (srv w') (fs w') = snd (spec_run (\<lambda>_. demo_clock) 0 [PrintReq 0x48] (abs_st (srv ?w) (fs ?w)))"
    by (rule truncated_request_has_no_effect [where r = "SerWriteMReq 3 [0x41, 0x42]" and
          p = "[3, 2, 0x41]" and q = "[0x42]"])
      (simp_all add: encode_def opcode_byte.simps)
  then obtain w' where w': "run (\<lambda>_. demo_clock) 0 ?w = (Inl (Io early_eof), w')"
      "abs_of w' = (abs_of ?w)\<lparr>a_print := [0x48]\<rparr>"
    by (auto simp: mount_def server_new_def)
  have "inbox_of 3 (srv ?w) = []"
    by (simp add: queue_simps)
  then have "a_inbox (abs_of w') 3 = [] \<and> a_print (abs_of w') = [0x48]" unfolding w'(2) by simp
  with w'(1) show ?thesis by auto
qed

end
