(* ===== verification/Disk_Service.thy ===== *)
theory Disk_Service
  imports Protocol_Spec
begin

text \<open>
  What the guest gets from the disk service, stated for whole sessions: sectors read
  back as they were last written, damaged transfers refused, replies whose length
  depends on the request alone.  The laws of \<open>VDisk\<close> enter through the interpretation
  \<open>dsk\<close> of the disk interface, the session through \<open>run_requests\<close>.
\<close>

section \<open>Disk operations depend on one file only\<close>

lemma dsk_read_local:
  "fs_file f1 (dsk_ino d) = fs_file f2 (dsk_ino d) \<Longrightarrow> fst (dsk_read d l f1) = fst (dsk_read d l f2)"
  by (auto simp: dsk_read_def raise_sx_def bind_sx_def io_vd_def file_seek_def file_read_exact_def Let_def
      split: option.splits)

lemma dsk_write_local:
  "fs_file f1 (dsk_ino d) = fs_file f2 (dsk_ino d) \<Longrightarrow>
    fs_file (snd (dsk_write d l data f1)) (dsk_ino d) = fs_file (snd (dsk_write d l data f2)) (dsk_ino d)"
  by (auto simp: dsk_write_def raise_sx_def bind_sx_def io_vd_def file_seek_def file_write_all_def Let_def
      split: option.splits)

lemma dsk_write_other: "ino \<noteq> dsk_ino d \<Longrightarrow> fs_file (snd (dsk_write d l data f)) ino = fs_file f ino"
  using dsk_write_state [of d l data f] by (auto 0 3)

lemma dsk_read_length: "fst (dsk_read d l f) = Inr bs \<Longrightarrow> length bs = 256"
  by (auto simp: dsk_read_def raise_sx_def bind_sx_def io_vd_def file_seek_def file_read_exact_def Let_def
      SECTOR_SIZE_def split: option.splits if_splits)

lemma length_a_sector [simp]: "length (a_sector slot l a) = 256"
  by (auto simp: a_sector_def dsk_read_length split: option.splits sum.splits)

section \<open>Drives during a session\<close>

text \<open>The writes to a slot that pass the checksum test, in order.\<close>

fun sound_writes :: "u8 \<Rightarrow> request list \<Rightarrow> (lsn \<times> bytes) list" where
  "sound_writes slot [] = []"
| "sound_writes slot (WriteReq _ slot' l sector guest_sum # rs) =
     (if slot' = slot \<and> guest_sum = checksum16 sector then [(l, sector)] else []) @ sound_writes slot rs"
| "sound_writes slot (_ # rs) = sound_writes slot rs"

definition exclusive :: "u8 \<Rightarrow> dsk_file \<Rightarrow> astate \<Rightarrow> bool" where
  "exclusive slot d a \<longleftrightarrow> a_drives a slot = Some d \<and>
     (\<forall>slot' d'. slot' \<noteq> slot \<longrightarrow> a_drives a slot' = Some d' \<longrightarrow> dsk_ino d' \<noteq> dsk_ino d)"

lemma a_ops_drives [simp]:
  "a_drives (a_receive ch bs a) = a_drives a" "a_drives (a_notify ch a) = a_drives a"
  "a_drives (a_set_open ch b a) = a_drives a" "a_drives (snd (a_poll a)) = a_drives a"
  "a_drives (snd (a_fetch ch n a)) = a_drives a" "a_drives (snd (a_bare c opc a)) = a_drives a"
  by (simp_all add: a_receive_def a_notify_def a_set_open_def a_poll_def a_fetch_def Let_def
      split: option.split) (cases opc; simp add: a_poll_def Let_def split: option.split)

lemma a_ops_fs [simp]:
  "a_fs (a_receive ch bs a) = a_fs a" "a_fs (a_notify ch a) = a_fs a"
  "a_fs (a_set_open ch b a) = a_fs a" "a_fs (snd (a_poll a)) = a_fs a"
  "a_fs (snd (a_fetch ch n a)) = a_fs a" "a_fs (snd (a_bare c opc a)) = a_fs a"
  by (simp_all add: a_receive_def a_notify_def a_set_open_def a_poll_def a_fetch_def Let_def
      split: option.split) (cases opc; simp add: a_poll_def Let_def split: option.split)

lemma spec_step_drives: "a_drives (snd (spec_step c r a)) = a_drives a"
  by (cases r) (auto simp: Let_def split: option.split prod.split sum.split)

lemma spec_step_image:
  assumes "exclusive slot d a" "fs_file (a_fs a) (dsk_ino d) = fs_file f (dsk_ino d)"
  shows "fs_file (a_fs (snd (spec_step c r a))) (dsk_ino d) =
    fs_file (write_script (dsk_write d) (sound_writes slot [r]) f) (dsk_ino d)"
proof (cases r)
  case (WriteReq re slot' l sector gs)
  show ?thesis
  proof (cases "a_drives a slot'")
    case (Some d')
    then have "a_fs (snd (spec_step c r a)) =
        (if gs = checksum16 sector then snd (dsk_write d' l sector (a_fs a)) else a_fs a)"
      by (auto simp: WriteReq split: prod.split sum.split)
    moreover have "d' = d" if "slot' = slot" using Some that assms(1) by (simp add: exclusive_def)
    moreover have "dsk_ino d \<noteq> dsk_ino d'" if "slot' \<noteq> slot"
      using Some that assms(1) unfolding exclusive_def by metis
    ultimately show ?thesis
      using assms(2) dsk_write_local [of "a_fs a" d f l sector] by (auto simp: WriteReq dsk_write_other)
  qed (use assms WriteReq in \<open>auto simp: exclusive_def\<close>)
qed (use assms in \<open>auto simp: Let_def\<close>)

lemma write_script_append: "write_script wr (xs @ ys) s = write_script wr ys (write_script wr xs s)"
  by (induction xs arbitrary: s) auto

lemma sound_writes_Cons: "sound_writes slot (r # rs) = sound_writes slot [r] @ sound_writes slot rs"
  by (cases r) auto

lemma spec_run_image:
  assumes "exclusive slot d a" "fs_file (a_fs a) (dsk_ino d) = fs_file f (dsk_ino d)"
  shows "fs_file (a_fs (snd (spec_run clk n rs a))) (dsk_ino d) =
      fs_file (write_script (dsk_write d) (sound_writes slot rs) f) (dsk_ino d) \<and>
    exclusive slot d (snd (spec_run clk n rs a))"
  using assms
proof (induction rs arbitrary: n a f)
  case (Cons r rs)
  let ?a = "snd (spec_step (clk n) r a)"
  have "exclusive slot d ?a" using Cons.prems(1) by (simp add: exclusive_def spec_step_drives)
  from Cons.IH [OF this spec_step_image [OF Cons.prems]] show ?case
    by (simp add: sound_writes_Cons [of slot r rs] write_script_append case_prod_beta' Let_def)
qed simp

lemma sound_writes_wf: "\<forall>r \<in> set rs. wf_request r \<Longrightarrow> \<forall>(l, data) \<in> set (sound_writes slot rs). length data = 256"
  by (induction slot rs rule: sound_writes.induct) auto

lemma spec_run_append:
  "spec_run clk n (rs @ rs') a =
    (let (out, a') = spec_run clk n rs a; (out', a'') = spec_run clk (n + length rs) rs' a'
     in (out @ out', a''))"
  by (induction rs arbitrary: n a) (auto simp: Let_def case_prod_beta')

text \<open>
  C9: reads return the last write, end to end.  Over a session of any well-formed
  requests on a slot whose image no other slot shares, a final read of any sector is
  answered with the data of the last write request to that sector that carried the
  right checksum and was allowed, and with the sector found on the image before the
  session when there was none; the checksum of that data follows.
\<close>

theorem guest_reads_last_write:
  assumes "\<forall>r \<in> set rs. wf_request r" "l \<le> lsn_MAX" "tx_fault (tr w) = None" "server_wf (srv w)"
    and "rx (tr w) = concat (map encode (rs @ [ReadReq re slot l]))" "kind (rx_end (tr w)) = UnexpectedEof"
    and "exclusive slot d (abs_st (srv w) (fs w))" "disk_ok d (fs w)"
    and "unat (lsn_val l) < unat (dsk_sector_count d)"
  defines "ws \<equiv> filter (\<lambda>(k, _). \<not> dsk_read_only d \<and> unat (lsn_val k) < unat (dsk_sector_count d))
                 (sound_writes slot rs)"
  defines "sector \<equiv> (case map_of (rev ws) l of
      Some data \<Rightarrow> data | None \<Rightarrow> disk_sectors d (fs w) ! unat (lsn_val l))"
  shows "\<exists>w' out. run clk n w = (Inl Eof, w') \<and> tx (tr w') = tx (tr w) @ out @ sector @ be2 (checksum16 sector)"
proof -
  let ?rs = "rs @ [ReadReq re slot l]"
  let ?a = "snd (spec_run clk n rs (abs_of w))"
  have im: "fs_file (a_fs ?a) (dsk_ino d) =
      fs_file (write_script (dsk_write d) (sound_writes slot rs) (fs w)) (dsk_ino d)"
    and ex: "exclusive slot d ?a"
    using spec_run_image [OF assms(7), of "fs w" clk n rs] by simp_all
  have "fst (dsk_read d l (a_fs ?a)) = Inr sector"
    using dsk.last_write_wins [OF assms(8) sound_writes_wf [OF assms(1)], of l slot]
      dsk_read_eq [OF assms(8), of l] assms(9)
    by (auto simp: dsk_read_local [OF im] sector_def ws_def comp_def case_prod_beta' split: option.split)
  then have sec: "a_sector slot l ?a = sector" using ex by (simp add: a_sector_def exclusive_def)
  obtain w' where w': "run clk n w = run clk (n + length ?rs) w'"
      "tr w' = (tr w)\<lparr>rx := [], tx := tx (tr w) @ fst (spec_run clk n ?rs (abs_of w))\<rparr>"
    using run_requests [of ?rs w "[]" clk n] assms(1-6) by auto
  then have "run clk n w = (Inl Eof, w')" using assms(6) by (simp add: run_end)
  moreover have "fst (spec_run clk n ?rs (abs_of w)) =
      fst (spec_run clk n rs (abs_of w)) @ sector @ be2 (checksum16 sector)"
    using sec by (simp add: spec_run_append case_prod_beta' Let_def)
  ultimately show ?thesis using w'(2) by auto
qed

lemma exclusive_demo [simp]: "exclusive 0 demo_disk (abs_st (mount 0 demo_disk server_new) f)"
proof -
  have "drive_lookup slot server_new = None" for slot by (simp add: drive_lookup_def server_new_def)
  then show ?thesis by (simp add: exclusive_def drv.lookup_put)
qed

lemma demo_count [simp]: "dsk_sector_count demo_disk = 1" "\<not> dsk_read_only demo_disk"
  by (simp_all add: demo_disk_def)

lemma lsn_0_le [simp]: "Lsn 0 \<le> lsn_MAX"
  by (simp add: lsn_MAX_def less_eq_lsn_def)

lemma checksum16_replicate: "checksum16 (replicate n b) = word_of_nat n * ucast b"
proof -
  have "foldl (\<lambda>acc c. acc + ucast c) acc (replicate n b) = acc + word_of_nat n * ucast b" for acc :: u16
    by (induction n arbitrary: acc) (auto simp: algebra_simps)
  from this [of 0] show ?thesis by (simp add: checksum16_def)
qed

theorem guest_reads_last_write_witness:
  "\<exists>w' out. run (\<lambda>_. demo_clock) 0 (demo_world (concat (map encode
       [WriteReq False 0 (Lsn 0) (replicate 256 7) 0x0700, WriteReq True 0 (Lsn 0) (replicate 256 9) 0,
        ReadReq False 0 (Lsn 0)]))) = (Inl Eof, w') \<and>
     tx (tr w') = out @ replicate 256 7 @ be2 (checksum16 (replicate 256 7))"
proof -
  let ?rs = "[WriteReq False 0 (Lsn 0) (replicate 256 7) 0x0700, WriteReq True 0 (Lsn 0) (replicate 256 9) 0]"
  let ?w = "demo_world (concat (map encode (?rs @ [ReadReq False 0 (Lsn 0)])))"
  have "sound_writes 0 ?rs = [(Lsn 0, replicate 256 7)]"
    by (simp add: checksum16_replicate)
  moreover have "\<forall>r \<in> set ?rs. wf_request r" by simp
  ultimately show ?thesis
    using guest_reads_last_write [of ?rs "Lsn 0" ?w False 0 demo_disk "\<lambda>_. demo_clock" 0]
    by (simp add: early_eof_def)
qed

section \<open>Damaged transfers\<close>

text \<open>
  C10: transfers damaged on the wire are refused.  A write whose data had one byte changed
  on the way is answered with \<open>0xF3\<close>, and so is an extended read whose guest saw the
  sector with one byte changed and returned the checksum of that; both leave the whole
  server state as it was and the session in step, so that the requests after them are
  served as if the two had not been sent.
\<close>

theorem damaged_transfer_refused:
  assumes "l \<le> lsn_MAX" "length data = 256" "i < 256" "b \<noteq> data ! i"
    and "k \<le> lsn_MAX" "sector = a_sector slot' k (abs_st (srv w) (fs w))" "j < 256" "b' \<noteq> sector ! j"
    and "tx_fault (tr w) = None" "server_wf (srv w)" "kind (rx_end (tr w)) = UnexpectedEof"
    and "\<forall>r \<in> set rs. wf_request r"
    and "rx (tr w) = encode (WriteReq re slot l (data[i := b]) (checksum16 data)) @
      encode (ReadExReq re' slot' k (checksum16 (sector[j := b']))) @ concat (map encode rs)"
  shows "\<exists>w'. run clk n w = (Inl Eof, w') \<and>
      tx (tr w') = tx (tr w) @ 0xF3 # sector @ 0xF3 # fst (spec_run clk (n + 2) rs (abs_st (srv w) (fs w))) \<and>
      abs_st (srv w') (fs w') = snd (spec_run clk (n + 2) rs (abs_st (srv w) (fs w)))"
proof -
  let ?r = "WriteReq re slot l (data[i := b]) (checksum16 data)"
  let ?r' = "ReadExReq re' slot' k (checksum16 (sector[j := b']))"
  have "checksum16 data \<noteq> checksum16 (data[i := b])"
    using assms(2-4) checksum16_update_neq [of i data b] by auto
  moreover have "checksum16 (sector[j := b']) \<noteq> checksum16 sector"
    using assms(6-8) checksum16_update_neq [of j sector b'] by auto
  ultimately have "spec_run clk n (?r # ?r' # rs) (abs_of w) =
      (let (out, a) = spec_run clk (n + 2) rs (abs_of w) in (0xF3 # sector @ 0xF3 # out, a))"
    using assms(6) by (simp add: case_prod_beta' Let_def)
  moreover have "\<forall>r \<in> set (?r # ?r' # rs). wf_request r" using assms by simp
  ultimately show ?thesis
    using run_requests [of "?r # ?r' # rs" w "[]" clk n] assms(9-11,13)
    by (auto simp: run_end case_prod_beta' Let_def)
qed

theorem damaged_transfer_refused_witness:
  "\<exists>w'. run (\<lambda>_. demo_clock) 0 (demo_world
       (encode (WriteReq False 0 (Lsn 0) ((replicate 256 7)[3 := 8]) (checksum16 (replicate 256 7))) @
        encode (ReadExReq False 9 (Lsn 0) (checksum16 ((replicate 256 0)[5 := 1]))))) = (Inl Eof, w') \<and>
     tx (tr w') = 0xF3 # replicate 256 0 @ [0xF3] \<and> fs w' = demo_fs"
proof -
  let ?w = "demo_world (encode (WriteReq False 0 (Lsn 0) ((replicate 256 7)[3 := 8]) (checksum16 (replicate 256 7))) @
        encode (ReadExReq False 9 (Lsn 0) (checksum16 ((replicate 256 0)[5 := 1]))))"
  have "a_sector 9 (Lsn 0) (abs_of ?w) = replicate 256 0"
    by (simp add: a_sector_def drv.lookup_put) (simp add: drive_lookup_def server_new_def)
  then obtain w' where "run (\<lambda>_. demo_clock) 0 ?w = (Inl Eof, w')" "tx (tr w') = 0xF3 # replicate 256 0 @ [0xF3]"
      "abs_of w' = abs_of ?w"
    using damaged_transfer_refused [of "Lsn 0" "replicate 256 7" 3 8 "Lsn 0" "replicate 256 0" 9 ?w 5 1 "[]"
        False 0 False "\<lambda>_. demo_clock" 0] by (auto simp: early_eof_def)
  moreover from this(3) have "fs w' = demo_fs" by (metis abs_st_simps(2) demo_world_simps(2))
  ultimately show ?thesis by blast
qed

section \<open>Reply lengths\<close>

text \<open>How long the reply to a request is, whatever the state of the server.\<close>

fun reply_length :: "request \<Rightarrow> nat" where
  "reply_length (Bare opc) = (case opc of Time \<Rightarrow> 6 | SerRead \<Rightarrow> 2 | _ \<Rightarrow> 0)"
| "reply_length (ReadReq _ _ _) = 258"
| "reply_length (ReadExReq _ _ _ _) = 257"
| "reply_length (WriteReq _ _ _ _ _) = 1"
| "reply_length (DwInitReq _) = 1"
| "reply_length (SerReadMReq _ n) = unat n"
| "reply_length _ = 0"

lemma length_spec_step: "length (fst (spec_step c r a)) = reply_length r"
proof (cases r)
  case (Bare opc)
  then show ?thesis by (cases opc) (auto simp: time_reply_def a_poll_def Let_def split: option.split)
qed (auto simp: Let_def a_fetch_def split: option.split prod.split sum.split)

lemma length_spec_run: "length (fst (spec_run clk n rs a)) = sum_list (map reply_length rs)"
  by (induction rs arbitrary: n a) (auto simp: case_prod_beta' Let_def length_spec_step)

text \<open>
  C36: the guest always knows how much to read.  The number of bytes a session sends is
  fixed by the requests alone: 258 for a read, 257 for an extended read, 1 for a write,
  even when the slot is empty, the sector is out of range or the device fails; a
  multi-byte serial read gets exactly the count it asked for, on any channel.
\<close>

theorem reply_lengths_fixed:
  assumes "\<forall>r \<in> set rs. wf_request r" "tx_fault (tr w) = None" "server_wf (srv w)"
    and "rx (tr w) = concat (map encode rs)" "kind (rx_end (tr w)) = UnexpectedEof"
  shows "\<exists>w' out. run clk n w = (Inl Eof, w') \<and> tx (tr w') = tx (tr w) @ out \<and>
    length out = sum_list (map reply_length rs)"
proof -
  obtain w' where "run clk n w = run clk (n + length rs) w'"
      "tr w' = (tr w)\<lparr>rx := [], tx := tx (tr w) @ fst (spec_run clk n rs (abs_of w))\<rparr>"
    using run_requests [of rs w "[]" clk n] assms by auto
  then show ?thesis using assms(5) by (auto simp: run_end length_spec_run)
qed

theorem reply_lengths_fixed_witness:
  "\<exists>w'. run (\<lambda>_. demo_clock) 0 (demo_world (concat (map encode [ReadReq False 5 (Lsn 0), SerReadMReq 99 200])))
     = (Inl Eof, w') \<and> length (tx (tr w')) = 458"
  using reply_lengths_fixed [of "[ReadReq False 5 (Lsn 0), SerReadMReq 99 200]"
      "demo_world (concat (map encode [ReadReq False 5 (Lsn 0), SerReadMReq 99 200]))" "\<lambda>_. demo_clock" 0]
  by (auto simp: early_eof_def)

end
