(* ===== verification/Serial_Port.thy ===== *)
theory Serial_Port
  imports Byte_Stream
begin

text \<open>
  The serial transport: \<open>BlockingSerial\<close> with its two worker threads, the opening and
  configuration of the device, and the draining of stale input.  \<open>libc\<close> and the kernel
  are not part of the sources: the constants and functions of the C library are the
  parameter record \<open>libc\<close>, which calls of the kernel fail is the parameter record
  \<open>faults\<close>, and the descriptors of the process and the settings of the lines are the
  state \<open>os\<close>.  The threads, the asynchronous side and the line interleave freely.
\<close>

section \<open>Line settings\<close>

record termios =
  c_iflag :: u32
  c_oflag :: u32
  c_cflag :: u32
  c_lflag :: u32
  c_cc :: bytes
  c_speed :: u32

record libc =
  CSIZE :: u32
  CS8 :: u32
  PARENB :: u32
  CSTOPB :: u32
  CRTSCTS :: u32
  CREAD :: u32
  CLOCAL :: u32
  VMIN :: nat
  VTIME :: nat
  B1200 :: u32
  B2400 :: u32
  B4800 :: u32
  B9600 :: u32
  B19200 :: u32
  B38400 :: u32
  B57600 :: u32
  B115200 :: u32
  B230400 :: u32
  cfmakeraw :: "termios \<Rightarrow> termios"
  cfsetspeed :: "termios \<Rightarrow> u32 \<Rightarrow> io_error + termios"

definition crtscts_flag :: "libc \<Rightarrow> u32" where
  "crtscts_flag lc = CRTSCTS lc"

definition baud_to_speed :: "libc \<Rightarrow> u32 \<Rightarrow> u32" where
  "baud_to_speed lc baud =
    (if baud = 1200 then B1200 lc
     else if baud = 2400 then B2400 lc
     else if baud = 4800 then B4800 lc
     else if baud = 9600 then B9600 lc
     else if baud = 19200 then B19200 lc
     else if baud = 38400 then B38400 lc
     else if baud = 57600 then B57600 lc
     else if baud = 115200 then B115200 lc
     else if baud = 230400 then B230400 lc
     else B115200 lc)"

section \<open>Descriptors\<close>

text \<open>
  The process's open descriptors and, for each, the settings of its line and whether DTR
  and RTS are asserted.  The kernel hands out the lowest number that is free.
\<close>

record os =
  os_fds :: "nat list"
  os_tio :: "nat \<Rightarrow> termios"
  os_modem :: "nat \<Rightarrow> bool"

record faults =
  open_fails :: "str \<Rightarrow> io_error option"
  tcgetattr_fails :: "io_error option"
  tcsetattr_fails :: "io_error option"
  ioctl_fails :: bool
  dup_fails :: "io_error option"
  spawn_rx_fails :: bool
  spawn_tx_fails :: bool

definition lowest_fd :: "nat list \<Rightarrow> nat" where
  "lowest_fd fds = hd (filter (\<lambda>n. n \<notin> set fds) [0..<Suc (length fds)])"

definition os_acquire :: "os \<Rightarrow> nat \<times> os" where
  "os_acquire os = (let fd = lowest_fd (os_fds os) in (fd, os\<lparr>os_fds := fd # os_fds os\<rparr>))"

definition os_close :: "nat \<Rightarrow> os \<Rightarrow> os" where
  "os_close fd os = os\<lparr>os_fds := remove1 fd (os_fds os)\<rparr>"

definition configure_termios :: "libc \<Rightarrow> faults \<Rightarrow> nat \<Rightarrow> u32 \<Rightarrow> (os, io_error, unit) sx" where
  "configure_termios lc flt fd baud os =
    (case tcgetattr_fails flt of
       Some e \<Rightarrow> (Inl e, os)
     | None \<Rightarrow>
         (let tio0 = cfmakeraw lc (os_tio os fd);
              c1 = and (c_cflag tio0) (not (CSIZE lc));
              c2 = or c1 (CS8 lc);
              c3 = and c2 (not (PARENB lc));
              c4 = and c3 (not (CSTOPB lc));
              c5 = and c4 (not (crtscts_flag lc));
              c6 = or c5 (or (CREAD lc) (CLOCAL lc));
              cc = (c_cc tio0)[VMIN lc := 1, VTIME lc := 0];
              speed = baud_to_speed lc baud in
          case cfsetspeed lc (tio0\<lparr>c_cflag := c6, c_cc := cc\<rparr>) speed of
            Inl e \<Rightarrow> (Inl e, os)
          | Inr tio \<Rightarrow>
              (case tcsetattr_fails flt of
                 Some e \<Rightarrow> (Inl e, os)
               | None \<Rightarrow> (Inr (), os\<lparr>os_tio := (os_tio os)(fd := tio)\<rparr>))))"

section \<open>Channels and the port\<close>

text \<open>An unbounded \<open>mpsc\<close> channel; each end notices when the other is dropped.\<close>

record chan =
  queue :: "bytes list"
  sender_alive :: bool
  receiver_alive :: bool

definition unbounded_channel :: chan where
  "unbounded_channel = \<lparr>queue = [], sender_alive = True, receiver_alive = True\<rparr>"

definition chan_send :: "bytes \<Rightarrow> chan \<Rightarrow> chan option" where
  "chan_send chunk ch = (if receiver_alive ch then Some (ch\<lparr>queue := queue ch @ [chunk]\<rparr>) else None)"

datatype 'a poll = Ready 'a | NotReady

definition poll_recv :: "chan \<Rightarrow> bytes option poll \<times> chan" where
  "poll_recv ch =
    (case queue ch of
       chunk # rest \<Rightarrow> (Ready (Some chunk), ch\<lparr>queue := rest\<rparr>)
     | [] \<Rightarrow> ((if sender_alive ch then NotReady else Ready None), ch))"

record blocking_serial =
  bs_rx :: chan
  bs_tx :: chan
  leftover :: bytes

definition line_gone :: io_error where
  "line_gone = \<lparr>kind = UnexpectedEof, message = lit ''unexpected end of file''\<rparr>"

definition writer_gone :: io_error where
  "writer_gone = \<lparr>kind = BrokenPipe, message = lit ''writer thread closed''\<rparr>"

text \<open>\<open>poll_read\<close> with a buffer that has room for \<open>n\<close> bytes; the result is what it puts there.\<close>

definition poll_read :: "nat \<Rightarrow> blocking_serial \<Rightarrow> (io_error + bytes) poll \<times> blocking_serial" where
  "poll_read n p =
    (if leftover p \<noteq> [] then
       (let k = min (length (leftover p)) n in
        (Ready (Inr (take k (leftover p))), p\<lparr>leftover := drop k (leftover p)\<rparr>))
     else
       (case poll_recv (bs_rx p) of
          (Ready (Some chunk), ch) \<Rightarrow>
            (let k = min (length chunk) n in
             (Ready (Inr (take k chunk)),
              p\<lparr>bs_rx := ch, leftover := (if k < length chunk then leftover p @ drop k chunk else leftover p)\<rparr>))
        | (Ready None, ch) \<Rightarrow> (Ready (Inl line_gone), p\<lparr>bs_rx := ch\<rparr>)
        | (NotReady, ch) \<Rightarrow> (NotReady, p\<lparr>bs_rx := ch\<rparr>)))"

definition poll_write :: "bytes \<Rightarrow> blocking_serial \<Rightarrow> (io_error + nat) \<times> blocking_serial" where
  "poll_write buf p =
    (case chan_send buf (bs_tx p) of
       None \<Rightarrow> (Inl writer_gone, p)
     | Some ch \<Rightarrow> (Inr (length buf), p\<lparr>bs_tx := ch\<rparr>))"

text \<open>\<open>poll_flush\<close> and \<open>poll_shutdown\<close> report success and do nothing.\<close>

definition poll_flush :: "blocking_serial \<Rightarrow> (io_error + unit) \<times> blocking_serial" where
  "poll_flush p = (Inr (), p)"

definition poll_shutdown :: "blocking_serial \<Rightarrow> (io_error + unit) \<times> blocking_serial" where
  "poll_shutdown p = (Inr (), p)"

section \<open>Opening\<close>

datatype 'a outcome = Ok 'a | Err io_error | Panic str

definition bad_path :: io_error where
  "bad_path = \<lparr>kind = InvalidInput, message = lit ''non-UTF-8 device path''\<rparr>"

definition nul_in_path :: io_error where
  "nul_in_path = \<lparr>kind = InvalidInput, message = lit ''data provided contains a nul byte''\<rparr>"

text \<open>
  On success: the port, and the descriptors that the reader and the writer thread own.
  \<open>path\<close> is the result of \<open>to_str\<close>.
\<close>

definition serial_open ::
  "libc \<Rightarrow> faults \<Rightarrow> str option \<Rightarrow> u32 \<Rightarrow> os \<Rightarrow> (blocking_serial \<times> nat \<times> nat) outcome \<times> os" where
  "serial_open lc flt path baud os =
    (case path of
       None \<Rightarrow> (Err bad_path, os)
     | Some s \<Rightarrow>
        if 0 \<in> set s then (Err nul_in_path, os)
        else case open_fails flt s of
          Some e \<Rightarrow> (Err e, os)
        | None \<Rightarrow>
            (case os_acquire os of (fd, os1) \<Rightarrow>
             (case configure_termios lc flt fd baud os1 of
                (Inl e, os2) \<Rightarrow> (Err e, os_close fd os2)
              | (Inr _, os2) \<Rightarrow>
                  (let os3 = (if ioctl_fails flt then os2 else os2\<lparr>os_modem := (os_modem os2)(fd := True)\<rparr>) in
                   case dup_fails flt of
                     Some e \<Rightarrow> (Err e, os_close fd os3)
                   | None \<Rightarrow>
                       (case os_acquire os3 of (write_fd, os4) \<Rightarrow>
                        if spawn_rx_fails flt then (Panic (lit ''spawn rx thread''), os4)
                        else if spawn_tx_fails flt then (Panic (lit ''spawn tx thread''), os4)
                        else (Ok (\<lparr>bs_rx = unbounded_channel, bs_tx = unbounded_channel, leftover = []\<rparr>,
                                  fd, write_fd), os4))))))"

lemma lowest_fd_fresh: "lowest_fd fds \<notin> set fds"
proof -
  have "filter (\<lambda>n. n \<notin> set fds) [0..<Suc (length fds)] \<noteq> []"
  proof
    assume "filter (\<lambda>n. n \<notin> set fds) [0..<Suc (length fds)] = []"
    then have "set [0..<Suc (length fds)] \<subseteq> set fds" by (auto simp: filter_empty_conv simp del: upt_Suc)
    then have "card (set [0..<Suc (length fds)]) \<le> card (set fds)" by (rule card_mono [OF finite_set])
    with card_length [of fds] show False by simp
  qed
  from hd_in_set [OF this] show ?thesis by (simp add: lowest_fd_def del: upt_Suc)
qed

lemma configure_termios_fds:
  "configure_termios lc flt fd baud os = (r, os') \<Longrightarrow> os_fds os' = os_fds os \<and> os_modem os' = os_modem os"
  by (auto simp: configure_termios_def Let_def split: option.splits sum.splits)


text \<open>
  What the C library documents: the bit for each setting is its own, \<open>CS8\<close> is one of the
  values of the field \<open>CSIZE\<close>, the two control characters have different places, and
  \<open>cfsetspeed\<close> sets the speed, whose encoding (\<open>spd\<close>) is apart from these bits.
\<close>

definition libc_ok :: "libc \<Rightarrow> u32 \<Rightarrow> bool" where
  "libc_ok lc spd \<longleftrightarrow>
     and (CS8 lc) (CSIZE lc) = CS8 lc \<and>
     and (PARENB lc) (CSIZE lc) = 0 \<and> and (CSTOPB lc) (CSIZE lc) = 0 \<and> and (CRTSCTS lc) (CSIZE lc) = 0 \<and>
     and (or (CREAD lc) (CLOCAL lc)) (or (CSIZE lc) (or (PARENB lc) (or (CSTOPB lc) (CRTSCTS lc)))) = 0 \<and>
     and spd (or (CSIZE lc) (or (PARENB lc) (or (CSTOPB lc) (or (CRTSCTS lc) (or (CREAD lc) (CLOCAL lc)))))) = 0 \<and>
     VMIN lc \<noteq> VTIME lc \<and>
     (\<forall>t. length (c_cc (cfmakeraw lc t)) = length (c_cc t)) \<and>
     (\<forall>t s t'. cfsetspeed lc t s = Inr t' \<longrightarrow> c_speed t' = s \<and>
        and (c_cflag t') (not spd) = and (c_cflag t) (not spd) \<and>
        c_iflag t' = c_iflag t \<and> c_oflag t' = c_oflag t \<and> c_lflag t' = c_lflag t \<and> c_cc t' = c_cc t)"

definition line_8n1 :: "libc \<Rightarrow> termios \<Rightarrow> bool" where
  "line_8n1 lc t \<longleftrightarrow>
     and (c_cflag t) (CSIZE lc) = CS8 lc \<and> and (c_cflag t) (PARENB lc) = 0 \<and>
     and (c_cflag t) (CSTOPB lc) = 0 \<and> and (c_cflag t) (CRTSCTS lc) = 0 \<and>
     and (c_cflag t) (CREAD lc) = CREAD lc \<and> and (c_cflag t) (CLOCAL lc) = CLOCAL lc \<and>
     c_cc t ! VMIN lc = 1 \<and> c_cc t ! VTIME lc = 0"

lemma mask_apart:
  fixes a b m spd :: u32
  assumes "and a (not spd) = and b (not spd)" "and spd m = 0"
  shows "and a m = and b m"
proof (rule bit_eqI)
  fix n
  have "bit (and a (not spd)) n = bit (and b (not spd)) n" "\<not> bit (and spd m) n"
    using assms by simp_all
  then show "bit (and a m) n \<longleftrightarrow> bit (and b m) n"
    by (auto simp: bit_simps dest: bit_imp_le_length)
qed

definition cflag_8n1 :: "libc \<Rightarrow> u32 \<Rightarrow> u32" where
  "cflag_8n1 lc c =
     or (and (and (and (or (and c (not (CSIZE lc))) (CS8 lc)) (not (PARENB lc))) (not (CSTOPB lc))) (not (CRTSCTS lc)))
        (or (CREAD lc) (CLOCAL lc))"

lemma word_bits_zero: "and a b = (0 :: u32) \<Longrightarrow> bit a n \<Longrightarrow> bit b n \<Longrightarrow> False"
  by (metis bit_0_eq bit_and_iff bot_apply bot_bool_def)

lemma word_bits_sub: "and a b = (a :: u32) \<Longrightarrow> bit a n \<Longrightarrow> bit b n"
  by (metis bit_and_iff)

lemma cflag_8n1_masks:
  assumes "libc_ok lc spd"
  shows "and (cflag_8n1 lc c) (CSIZE lc) = CS8 lc" "and (cflag_8n1 lc c) (PARENB lc) = 0"
    "and (cflag_8n1 lc c) (CSTOPB lc) = 0" "and (cflag_8n1 lc c) (CRTSCTS lc) = 0"
    "and (cflag_8n1 lc c) (CREAD lc) = CREAD lc" "and (cflag_8n1 lc c) (CLOCAL lc) = CLOCAL lc"
proof -
  have apart: "bit (CS8 lc) n \<Longrightarrow> bit (CSIZE lc) n" "bit (PARENB lc) n \<Longrightarrow> \<not> bit (CSIZE lc) n"
    "bit (CSTOPB lc) n \<Longrightarrow> \<not> bit (CSIZE lc) n" "bit (CRTSCTS lc) n \<Longrightarrow> \<not> bit (CSIZE lc) n"
    "bit (CREAD lc) n \<or> bit (CLOCAL lc) n \<Longrightarrow>
       \<not> bit (CSIZE lc) n \<and> \<not> bit (PARENB lc) n \<and> \<not> bit (CSTOPB lc) n \<and> \<not> bit (CRTSCTS lc) n" for n
    using assms word_bits_sub [of "CS8 lc" "CSIZE lc" n] word_bits_zero [of _ "CSIZE lc" n]
      word_bits_zero [of "or (CREAD lc) (CLOCAL lc)" "or (CSIZE lc) (or (PARENB lc) (or (CSTOPB lc) (CRTSCTS lc)))" n]
    unfolding libc_ok_def by (auto simp: bit_or_iff)
  note bits = cflag_8n1_def bit_and_iff bit_or_iff bit_not_iff
  show "and (cflag_8n1 lc c) (CSIZE lc) = CS8 lc" "and (cflag_8n1 lc c) (PARENB lc) = 0"
    "and (cflag_8n1 lc c) (CSTOPB lc) = 0" "and (cflag_8n1 lc c) (CRTSCTS lc) = 0"
    "and (cflag_8n1 lc c) (CREAD lc) = CREAD lc" "and (cflag_8n1 lc c) (CLOCAL lc) = CLOCAL lc"
    by (rule bit_eqI, use apart in \<open>auto simp: bits dest: bit_imp_le_length\<close>)+
qed

lemma cflag_8n1_line:
  assumes ok: "libc_ok lc spd" and set: "cfsetspeed lc (tio\<lparr>c_cflag := cflag_8n1 lc c, c_cc := cc\<rparr>) s = Inr t'"
    and cc: "cc ! VMIN lc = 1" "cc ! VTIME lc = 0"
  shows "line_8n1 lc t'"
proof -
  have keep: "and (c_cflag t') (not spd) = and (cflag_8n1 lc c) (not spd)" "c_cc t' = cc"
    using ok set unfolding libc_ok_def 
    by (auto dest!: spec [of _ "tio\<lparr>c_cflag := cflag_8n1 lc c, c_cc := cc\<rparr>"] spec [of _ s])
  have "and spd (CSIZE lc) = 0" "and spd (PARENB lc) = 0" "and spd (CSTOPB lc) = 0" "and spd (CRTSCTS lc) = 0"
    "and spd (CREAD lc) = 0" "and spd (CLOCAL lc) = 0"
    using ok unfolding libc_ok_def by (auto simp: bit_eq_iff bit_and_iff bit_or_iff)
  then have "and (c_cflag t') m = and (cflag_8n1 lc c) m"
    if "m \<in> {CSIZE lc, PARENB lc, CSTOPB lc, CRTSCTS lc, CREAD lc, CLOCAL lc}" for m
    using that mask_apart [OF keep(1)] by auto
  with cflag_8n1_masks [OF ok] cc keep(2) show ?thesis by (simp add: line_8n1_def)
qed

text \<open>
  The documented meaning of the speed codes of the C library: \<open>Bn\<close> is the code of \<open>n\<close> bits
  per second, and different speeds have different codes.
\<close>

definition speed_codes :: "libc \<Rightarrow> (u32 \<times> u32) list" where
  "speed_codes lc =
    [(B1200 lc, 1200), (B2400 lc, 2400), (B4800 lc, 4800), (B9600 lc, 9600), (B19200 lc, 19200),
     (B38400 lc, 38400), (B57600 lc, 57600), (B115200 lc, 115200), (B230400 lc, 230400)]"

definition line_rate :: "libc \<Rightarrow> termios \<Rightarrow> u32 option" where
  "line_rate lc tio = map_of (speed_codes lc) (c_speed tio)"

lemma baud_rate:
  assumes "distinct (map fst (speed_codes lc))" "c_speed tio = baud_to_speed lc baud"
  shows "line_rate lc tio = Some (if baud \<in> snd ` set (speed_codes lc) then baud else 115200)"
proof -
  have "(baud_to_speed lc baud, if baud \<in> snd ` set (speed_codes lc) then baud else 115200) \<in> set (speed_codes lc)"
    by (simp add: baud_to_speed_def speed_codes_def)
  with assms show ?thesis by (simp add: line_rate_def)
qed

text \<open>
  C31: the line settings.  If \<open>configure_termios\<close> succeeds, the line has eight data bits,
  no parity, one stop bit, no hardware flow control, an enabled receiver and no modem
  control, a read returns as soon as one byte is there, the other modes are those of
  \<open>cfmakeraw\<close>, and the rate of the line, by the documented meaning of the speed codes, is
  the requested one if it is one of the nine known rates, and without an error 115200 for
  any other.  If it fails, no setting has changed.  No other line is touched.
\<close>

theorem configure_termios_line:
  assumes "libc_ok lc spd" "configure_termios lc flt fd baud os = (r, os')"
    and "VMIN lc < length (c_cc (os_tio os fd))" "VTIME lc < length (c_cc (os_tio os fd))"
    and codes: "distinct (map fst (speed_codes lc))"
  shows "r = Inr () \<and> line_8n1 lc (os_tio os' fd) \<and>
      line_rate lc (os_tio os' fd) =
        Some (if baud \<in> {1200, 2400, 4800, 9600, 19200, 38400, 57600, 115200, 230400} then baud else 115200) \<and>
      c_iflag (os_tio os' fd) = c_iflag (cfmakeraw lc (os_tio os fd)) \<and>
      c_oflag (os_tio os' fd) = c_oflag (cfmakeraw lc (os_tio os fd)) \<and>
      c_lflag (os_tio os' fd) = c_lflag (cfmakeraw lc (os_tio os fd)) \<and>
      os' = os\<lparr>os_tio := (os_tio os)(fd := os_tio os' fd)\<rparr> \<or>
     (\<exists>e. r = Inl e) \<and> os' = os"
proof -
  let ?tio = "cfmakeraw lc (os_tio os fd)"
  let ?cc = "(c_cc ?tio)[VMIN lc := 1, VTIME lc := 0]"
  let ?in = "?tio\<lparr>c_cflag := cflag_8n1 lc (c_cflag ?tio), c_cc := ?cc\<rparr>"
  have cc: "?cc ! VMIN lc = 1" "?cc ! VTIME lc = 0"
    using assms(1,3,4) by (simp_all add: libc_ok_def nth_list_update)
  have spd: "c_speed t' = baud_to_speed lc baud \<and> c_iflag t' = c_iflag ?tio \<and> c_oflag t' = c_oflag ?tio \<and>
      c_lflag t' = c_lflag ?tio" if "cfsetspeed lc ?in (baud_to_speed lc baud) = Inr t'" for t'
    using assms(1) that unfolding libc_ok_def by (auto dest!: spec [of _ ?in] spec [of _ "baud_to_speed lc baud"])
  have "configure_termios lc flt fd baud os =
     (case tcgetattr_fails flt of Some e \<Rightarrow> (Inl e, os) | None \<Rightarrow>
        (case cfsetspeed lc ?in (baud_to_speed lc baud) of Inl e \<Rightarrow> (Inl e, os)
         | Inr tio \<Rightarrow> (case tcsetattr_fails flt of Some e \<Rightarrow> (Inl e, os)
              | None \<Rightarrow> (Inr (), os\<lparr>os_tio := (os_tio os)(fd := tio)\<rparr>))))"
    unfolding configure_termios_def cflag_8n1_def crtscts_flag_def Let_def by (rule refl)
  then have "r = Inr () \<and> line_8n1 lc (os_tio os' fd) \<and>
      c_speed (os_tio os' fd) = baud_to_speed lc baud \<and>
      c_iflag (os_tio os' fd) = c_iflag ?tio \<and> c_oflag (os_tio os' fd) = c_oflag ?tio \<and>
      c_lflag (os_tio os' fd) = c_lflag ?tio \<and> os' = os\<lparr>os_tio := (os_tio os)(fd := os_tio os' fd)\<rparr> \<or>
     (\<exists>e. r = Inl e) \<and> os' = os"
    using assms(2) spd cflag_8n1_line [OF assms(1) _ cc] by (auto split: option.splits sum.splits)
  moreover have "snd ` set (speed_codes lc) = {1200, 2400, 4800, 9600, 19200, 38400, 57600, 115200, 230400}"
    by (simp add: speed_codes_def)
  ultimately show ?thesis using baud_rate [OF codes, of "os_tio os' fd" baud] by (simp only:) blast
qed

text \<open>The constants and functions of the C library on x86 Linux, for the witnesses.\<close>

definition linux :: libc where
  "linux = \<lparr>CSIZE = 0x30, CS8 = 0x30, PARENB = 0x100, CSTOPB = 0x40, CRTSCTS = 0x80000000, CREAD = 0x80,
     CLOCAL = 0x800, VMIN = 6, VTIME = 5, B1200 = 0x9, B2400 = 0xB, B4800 = 0xC, B9600 = 0xD, B19200 = 0xE,
     B38400 = 0xF, B57600 = 0x1001, B115200 = 0x1002, B230400 = 0x1003,
     cfmakeraw = (\<lambda>t. t\<lparr>c_iflag := and (c_iflag t) (not 0x5EB), c_oflag := and (c_oflag t) (not 0x1),
       c_lflag := and (c_lflag t) (not 0x804B), c_cflag := or (and (c_cflag t) (not 0x130)) 0x30\<rparr>),
     cfsetspeed = (\<lambda>t s. Inr (t\<lparr>c_cflag := or (and (c_cflag t) (not 0x100F)) (and s 0x100F), c_speed := s\<rparr>))\<rparr>"

definition cooked :: termios where
  "cooked = \<lparr>c_iflag = 0x500, c_oflag = 0x5, c_cflag = 0xBF, c_lflag = 0x8A3B, c_cc = replicate 32 0, c_speed = 0xF\<rparr>"

definition one_terminal :: os where
  "one_terminal = \<lparr>os_fds = [2, 1, 0], os_tio = (\<lambda>_. cooked), os_modem = (\<lambda>_. False)\<rparr>"

definition no_faults :: faults where
  "no_faults = \<lparr>open_fails = (\<lambda>_. None), tcgetattr_fails = None, tcsetattr_fails = None, ioctl_fails = False,
     dup_fails = None, spawn_rx_fails = False, spawn_tx_fails = False\<rparr>"

lemma speed_bits: "and (or (and c (not m)) (and s m)) (not m) = and c (not (m :: u32))"
  by (rule bit_eqI) (auto simp: bit_simps dest: bit_imp_le_length)

lemma libc_ok_linux: "libc_ok linux 0x100F"
  using speed_bits [of _ "0x100F"] by (auto simp: libc_ok_def linux_def)

lemma linux_configures: "fst (configure_termios linux no_faults fd baud one_terminal) = Inr ()"
  by (auto simp: configure_termios_def no_faults_def linux_def Let_def)

lemma linux_shape: "VMIN linux < length (c_cc (os_tio one_terminal fd))" "VTIME linux < length (c_cc (os_tio one_terminal fd))"
  "distinct (map fst (speed_codes linux))"
  by (simp_all add: linux_def one_terminal_def cooked_def speed_codes_def)

theorem configure_termios_line_witness:
  "line_8n1 linux (os_tio (snd (configure_termios linux no_faults 0 57600 one_terminal)) 0) \<and>
   line_rate linux (os_tio (snd (configure_termios linux no_faults 0 57600 one_terminal)) 0) = Some 57600 \<and>
   line_rate linux (os_tio (snd (configure_termios linux no_faults 0 31250 one_terminal)) 0) = Some 115200"
proof -
  let ?r = "\<lambda>baud. configure_termios linux no_faults 0 baud one_terminal"
  have "?r baud = (fst (?r baud), snd (?r baud))" for baud by simp
  from configure_termios_line [OF libc_ok_linux this linux_shape, of 57600]
    configure_termios_line [OF libc_ok_linux this linux_shape, of 31250]
  show ?thesis by (simp add: linux_configures)
qed

text \<open>
  C29: descriptors across \<open>open\<close>.  An error leaves the process with exactly the descriptors
  it had.  On success there are exactly two more, different from each other and from all
  that were open, one for each thread; the line is configured and, unless the call for
  it failed, DTR and RTS are asserted.  Only when a thread cannot be started does it
  panic, and then the two descriptors stay open.
\<close>

theorem serial_open_descriptors:
  "case serial_open lc flt path baud os of
     (Err e, os') \<Rightarrow> os_fds os' = os_fds os
   | (Ok (p, fd, write_fd), os') \<Rightarrow>
       os_fds os' = write_fd # fd # os_fds os \<and> fd \<notin> set (os_fds os) \<and> write_fd \<notin> set (fd # os_fds os) \<and>
       (os_modem os' fd = (if ioctl_fails flt then os_modem os fd else True)) \<and>
       configure_termios lc flt fd baud os = (Inr (), os\<lparr>os_tio := os_tio os'\<rparr>) \<and>
       p = \<lparr>bs_rx = unbounded_channel, bs_tx = unbounded_channel, leftover = []\<rparr>
   | (Panic _, os') \<Rightarrow> (spawn_rx_fails flt \<or> spawn_tx_fails flt) \<and>
       (\<exists>fd write_fd. os_fds os' = write_fd # fd # os_fds os)"
proof -
  have frame: "configure_termios lc flt fd baud (os\<lparr>os_fds := fds\<rparr>) =
      (case configure_termios lc flt fd baud os of (r, os1) \<Rightarrow> (r, os1\<lparr>os_fds := fds\<rparr>))" for fd fds
    by (simp add: configure_termios_def Let_def split: option.split sum.split)
  have shape: "configure_termios lc flt fd baud os = (r, os1) \<Longrightarrow>
      os_fds os1 = os_fds os \<and> os_modem os1 = os_modem os \<and> os1 = os\<lparr>os_tio := os_tio os1\<rparr>" for fd r os1
    by (auto simp: configure_termios_def Let_def split: option.splits sum.splits)
  show ?thesis
    using lowest_fd_fresh [of "os_fds os"] lowest_fd_fresh [of "lowest_fd (os_fds os) # os_fds os"]
    by (auto simp: serial_open_def os_acquire_def os_close_def frame Let_def dest!: shape
        split: option.split prod.split sum.split)
qed

section \<open>The port as a transport\<close>

text \<open>
  A port over its whole life: \<open>sc_future\<close> are the chunks that the reader thread is still
  going to send before it ends, \<open>sc_taken\<close> what the writer thread has taken so far.
\<close>

record serial_conn =
  sc_port :: blocking_serial
  sc_future :: "bytes list"
  sc_taken :: bytes

lemma poll_read_not_ready:
  assumes "poll_read n p = (NotReady, p')"
  shows "p' = p \<and> leftover p = [] \<and> queue (bs_rx p) = [] \<and> sender_alive (bs_rx p)"
  using assms by (auto simp: poll_read_def poll_recv_def Let_def split: if_splits list.splits)

text \<open>A poll that is not ready is repeated after the next action of the reader thread.\<close>

function await_read :: "nat \<Rightarrow> (serial_conn, io_error, bytes) sx" where
  "await_read n c =
    (case poll_read n (sc_port c) of
       (Ready r, p) \<Rightarrow> (r, c\<lparr>sc_port := p\<rparr>)
     | (NotReady, p) \<Rightarrow>
         (case sc_future c of
            chunk # later \<Rightarrow>
              await_read n (c\<lparr>sc_port := p\<lparr>bs_rx := (bs_rx p)\<lparr>queue := queue (bs_rx p) @ [chunk]\<rparr>\<rparr>, sc_future := later\<rparr>)
          | [] \<Rightarrow> await_read n (c\<lparr>sc_port := p\<lparr>bs_rx := (bs_rx p)\<lparr>sender_alive := False\<rparr>\<rparr>\<rparr>)))"
  by pat_completeness auto
termination
  by (relation "measure (\<lambda>(n, c). length (sc_future c) + (if sender_alive (bs_rx (sc_port c)) then 1 else 0))")
    (auto dest: poll_read_not_ready [OF sym])

declare await_read.simps [simp del]

definition await_write :: "bytes \<Rightarrow> (serial_conn, io_error, nat) sx" where
  "await_write buf c = (case poll_write buf (sc_port c) of (r, p) \<Rightarrow> (r, c\<lparr>sc_port := p\<rparr>))"

text \<open>\<open>write_all\<close> repeats its write until the whole buffer is accepted.\<close>

definition write_zero :: io_error where
  "write_zero = \<lparr>kind = OtherKind 0, message = lit ''write zero byte into writer''\<rparr>"

function write_all_via :: "(bytes \<Rightarrow> ('s, io_error, nat) sx) \<Rightarrow> bytes \<Rightarrow> ('s, io_error, unit) sx" where
  "write_all_via wr buf s =
    (if buf = [] then (Inr (), s)
     else case wr buf s of
       (Inl e, s') \<Rightarrow> (Inl e, s')
     | (Inr n, s') \<Rightarrow> if n = 0 then (Inl write_zero, s') else write_all_via wr (drop n buf) s')"
  by pat_completeness auto
termination
  by (relation "measure (\<lambda>(wr, buf, s). length buf)") auto

declare write_all_via.simps [simp del]

definition sc_pending :: "serial_conn \<Rightarrow> bytes" where
  "sc_pending c = leftover (sc_port c) @ concat (queue (bs_rx (sc_port c))) @ concat (sc_future c)"

text \<open>
  The threads keep their sides up: the reader sends no empty chunk and nothing after it
  has ended; the writer ends only after the port is dropped.
\<close>

definition sc_inv :: "serial_conn \<Rightarrow> bool" where
  "sc_inv c \<longleftrightarrow> [] \<notin> set (queue (bs_rx (sc_port c))) \<and> [] \<notin> set (sc_future c) \<and>
     (sender_alive (bs_rx (sc_port c)) \<or> sc_future c = []) \<and> receiver_alive (bs_tx (sc_port c))"

definition sc_abs :: "serial_conn \<Rightarrow> transport" where
  "sc_abs c = \<lparr>rx = sc_pending c, rx_end = line_gone,
     tx = sc_taken c @ concat (queue (bs_tx (sc_port c))), tx_fault = None\<rparr>"

lemma poll_read_ready:
  assumes "sc_inv c" "0 < n" "poll_read n (sc_port c) = (Ready r, p)"
  shows "sc_inv (c\<lparr>sc_port := p\<rparr>) \<and> bs_tx p = bs_tx (sc_port c) \<and>
    (case r of
       Inl e \<Rightarrow> e = line_gone \<and> sc_pending c = [] \<and> sc_pending (c\<lparr>sc_port := p\<rparr>) = []
     | Inr bs \<Rightarrow> bs \<noteq> [] \<and> length bs \<le> n \<and> sc_pending c = bs @ sc_pending (c\<lparr>sc_port := p\<rparr>))"
  using assms
  by (auto simp: poll_read_def poll_recv_def sc_inv_def sc_pending_def Let_def min_def
      split: if_splits list.splits)

lemma await_read_result:
  assumes "sc_inv c" "0 < n"
  shows "\<exists>r c'. await_read n c = (r, c') \<and> sc_inv c' \<and> bs_tx (sc_port c') = bs_tx (sc_port c) \<and>
    sc_taken c' = sc_taken c \<and>
    (case r of
       Inl e \<Rightarrow> e = line_gone \<and> sc_pending c = [] \<and> sc_pending c' = []
     | Inr bs \<Rightarrow> bs \<noteq> [] \<and> length bs \<le> n \<and> sc_pending c = bs @ sc_pending c')"
  using assms
proof (induction n c rule: await_read.induct)
  case (1 n c)
  obtain q p where q: "poll_read n (sc_port c) = (q, p)" by fastforce
  show ?case
  proof (cases q)
    case (Ready r)
    with poll_read_ready [OF 1(3,4)] q show ?thesis by (simp add: await_read.simps [of n c])
  next
    case NotReady
    note nr = poll_read_not_ready [OF q [unfolded NotReady]]
    show ?thesis
    proof (cases "sc_future c")
      case Nil
      let ?c = "c\<lparr>sc_port := p\<lparr>bs_rx := (bs_rx p)\<lparr>sender_alive := False\<rparr>\<rparr>\<rparr>"
      have "sc_inv ?c" "sc_pending ?c = sc_pending c"
        using 1(3) Nil nr by (auto simp: sc_inv_def sc_pending_def)
      with 1(1) [OF q [symmetric] NotReady Nil] 1(4) q NotReady Nil nr show ?thesis
        by (auto simp: await_read.simps [of n c] split: sum.splits)
    next
      case (Cons chunk later)
      let ?c = "c\<lparr>sc_port := p\<lparr>bs_rx := (bs_rx p)\<lparr>queue := queue (bs_rx p) @ [chunk]\<rparr>\<rparr>, sc_future := later\<rparr>"
      have "sc_inv ?c" "sc_pending ?c = sc_pending c"
        using 1(3) Cons nr by (auto simp: sc_inv_def sc_pending_def)
      with 1(2) [OF q [symmetric] NotReady Cons] 1(4) q NotReady Cons nr show ?thesis
        by (auto simp: await_read.simps [of n c] split: sum.splits)
    qed
  qed
qed

interpretation port: byte_source await_read sc_pending "\<lambda>_. line_gone" sc_inv
proof
  fix c n assume i: "sc_inv c" "0 < (n :: nat)"
  { assume "sc_pending c \<noteq> []"
    with await_read_result [OF i] show "\<exists>bs c'. await_read n c = (Inr bs, c') \<and> bs \<noteq> [] \<and> length bs \<le> n \<and>
        sc_pending c = bs @ sc_pending c' \<and> line_gone = line_gone \<and> sc_inv c'"
      by (fastforce split: sum.splits) }
  { assume "sc_pending c = []"
    with await_read_result [OF i] show "\<exists>c'. (await_read n c = (Inl line_gone, c') \<or>
        await_read n c = (Inr [], c') \<and> line_gone = early_eof) \<and> sc_pending c' = [] \<and> line_gone = line_gone \<and> sc_inv c'"
      by (fastforce split: sum.splits) }
qed

lemma read_exact_keeps_output:
  assumes "sc_inv c" "read_exact_via await_read n c = (r, c')"
  shows "bs_tx (sc_port c') = bs_tx (sc_port c) \<and> sc_taken c' = sc_taken c"
  using assms
proof (induction n arbitrary: c r c' rule: less_induct)
  case (less n)
  show ?case
  proof (cases "n = 0")
    case True
    with less.prems show ?thesis by (simp add: read_exact_via.simps)
  next
    case False
    then obtain q c1 where q: "await_read n c = (q, c1)" "sc_inv c1" "bs_tx (sc_port c1) = bs_tx (sc_port c)"
        "sc_taken c1 = sc_taken c"
      using await_read_result [OF less.prems(1), of n] by auto
    show ?thesis
    proof (cases q)
      case (Inl e)
      with q False less.prems(2) show ?thesis by (simp add: read_exact_via.simps [of _ n])
    next
      case (Inr bs)
      show ?thesis
      proof (cases "bs = []")
        case True
        with q Inr False less.prems(2) show ?thesis by (simp add: read_exact_via.simps [of _ n])
      next
        case nonempty: False
        with False have "n - length bs < n" by simp
        from less.IH [OF this q(2)] q Inr False nonempty less.prems(2) show ?thesis
          by (auto simp: read_exact_via.simps [of _ n] split: prod.splits sum.splits)
      qed
    qed
  qed
qed

lemma write_all_port:
  assumes "sc_inv c"
  shows "\<exists>c'. write_all_via await_write bs c = (Inr (), c') \<and> sc_inv c' \<and>
    sc_abs c' = (sc_abs c)\<lparr>tx := tx (sc_abs c) @ bs\<rparr>"
proof (cases "bs = []")
  case True
  with assms show ?thesis by (simp add: write_all_via.simps sc_abs_def)
next
  case False
  with assms show ?thesis
    by (simp add: write_all_via.simps [of _ bs] write_all_via.simps [of _ "[]"] await_write_def poll_write_def chan_send_def
        sc_inv_def sc_abs_def sc_pending_def)
qed

text \<open>
  C6: a serial port is a transport.  Seen through \<open>sc_abs\<close>, reading exactly \<open>n\<close> bytes over
  \<open>poll_read\<close> gives the same result, and leaves the same transport, as on the abstract
  one, and likewise for writing over \<open>poll_write\<close>.  So it does not matter into which
  chunks the reader thread happened to cut the line, which of them had arrived before
  the call and how much was left over from the last one: no byte is lost, repeated or
  reordered, and the end of the line is reported only after its last byte.
\<close>

theorem serial_port_refines_transport:
  assumes "sc_inv c"
  shows "(case read_exact_via await_read n c of (r, c') \<Rightarrow>
      sc_inv c' \<and> t_read_exact n (sc_abs c) = (r, sc_abs c')) \<and>
    (case write_all_via await_write bs c of (r, c') \<Rightarrow>
      sc_inv c' \<and> t_write_all bs (sc_abs c) = (r, sc_abs c'))"
proof
  obtain r c' r' t' where d: "read_exact_via await_read n c = (r, c')" "t_read_exact n (sc_abs c) = (r', t')"
    by fastforce
  have "r = r' \<and> rx t' = sc_pending c' \<and> sc_inv c'"
    using port.read_exact_refines [OF assms _ _ d] by (simp add: sc_abs_def)
  moreover have "t' = (sc_abs c)\<lparr>rx := rx t'\<rparr>"
    using d(2) by (auto simp: t_read_exact_def split: if_splits)
  moreover note read_exact_keeps_output [OF assms d(1)]
  ultimately have "t' = sc_abs c'" by (simp add: sc_abs_def)
  with \<open>r = r' \<and> rx t' = sc_pending c' \<and> sc_inv c'\<close> d
  show "case read_exact_via await_read n c of (r, c') \<Rightarrow> sc_inv c' \<and> t_read_exact n (sc_abs c) = (r, sc_abs c')"
    by simp
  have "tx_fault (sc_abs c) = None" by (simp add: sc_abs_def)
  with write_all_port [OF assms, of bs]
  show "case write_all_via await_write bs c of (r, c') \<Rightarrow> sc_inv c' \<and> t_write_all bs (sc_abs c) = (r, sc_abs c')"
    by (auto simp: t_write_all_def)
qed

definition demo_port :: serial_conn where
  "demo_port = \<lparr>sc_port = \<lparr>bs_rx = \<lparr>queue = [[2, 3]], sender_alive = True, receiver_alive = True\<rparr>,
     bs_tx = unbounded_channel, leftover = [1]\<rparr>, sc_future = [[4, 5, 6]], sc_taken = []\<rparr>"

theorem serial_port_refines_transport_witness:
  "fst (read_exact_via await_read 5 demo_port) = Inr [1, 2, 3, 4, 5] \<and>
   tx (sc_abs (snd (write_all_via await_write [0x04] demo_port))) = [0x04]"
proof -
  have "sc_inv demo_port" by (simp add: demo_port_def sc_inv_def unbounded_channel_def)
  from serial_port_refines_transport [OF this, of 5 "[0x04]"] show ?thesis
    by (auto simp: demo_port_def sc_abs_def sc_pending_def unbounded_channel_def t_read_exact_def t_write_all_def
        split: prod.splits)
qed

end
