(* ===== verification/Serial_Threads.thy ===== *)
theory Serial_Threads
  imports Serial_Port "HOL-Library.Multiset"
begin

text \<open>
  The worker threads of a serial port.  The reader and the writer are programs with a
  program counter; the line, the threads, the asynchronous side of the port and the rest
  of the process, which opens and closes descriptors of its own, interleave freely.
\<close>

section \<open>The threads\<close>

datatype rx_thread = RxRead | RxSend bytes | RxDone

datatype tx_thread = TxRecv | TxWrite bytes | TxDone

datatype line_end = LineUp | LineEof | LineFault io_error

text \<open>
  \<open>z_in\<close> is what the kernel has received and the reader has not read, \<open>z_out\<close> what was
  sent over the line.  \<open>z_others\<close> are the descriptors of the rest of the process.  The
  last three fields record the past: everything that came in over the line, everything
  handed to the caller by \<open>poll_read\<close>, everything accepted by \<open>poll_write\<close>.
\<close>

record serial_sys =
  z_port :: blocking_serial
  z_reader :: rx_thread
  z_writer :: tx_thread
  z_rfd :: nat
  z_wfd :: nat
  z_os :: os
  z_in :: bytes
  z_in_end :: line_end
  z_out :: bytes
  z_others :: "nat list"
  z_arrived :: bytes
  z_given :: bytes
  z_accepted :: bytes

definition end_reader :: "serial_sys \<Rightarrow> serial_sys" where
  "end_reader z = z\<lparr>z_reader := RxDone, z_os := os_close (z_rfd z) (z_os z),
     z_port := (z_port z)\<lparr>bs_rx := (bs_rx (z_port z))\<lparr>sender_alive := False\<rparr>\<rparr>\<rparr>"

definition end_writer :: "serial_sys \<Rightarrow> serial_sys" where
  "end_writer z = z\<lparr>z_writer := TxDone, z_os := os_close (z_wfd z) (z_os z),
     z_port := (z_port z)\<lparr>bs_tx := (bs_tx (z_port z))\<lparr>receiver_alive := False\<rparr>\<rparr>\<rparr>"

text \<open>
  One section of \<open>reader_loop\<close>: a read of at most 256 bytes (\<open>k\<close> says how many the kernel
  returns) or the sending of a chunk.  \<open>None\<close> means that the read blocks, or that the
  thread has ended.
\<close>

definition reader_step :: "nat \<Rightarrow> serial_sys \<Rightarrow> serial_sys option" where
  "reader_step k z =
    (case z_reader z of
       RxRead \<Rightarrow>
         (if z_in z \<noteq> [] then
            (let n = max 1 (min k 256) in
             Some (z\<lparr>z_in := drop n (z_in z), z_reader := RxSend (take n (z_in z))\<rparr>))
          else (case z_in_end z of
                  LineUp \<Rightarrow> None
                | LineEof \<Rightarrow> Some (end_reader z)
                | LineFault e \<Rightarrow> Some (end_reader z)))
     | RxSend chunk \<Rightarrow>
         (case chan_send chunk (bs_rx (z_port z)) of
            None \<Rightarrow> Some (end_reader z)
          | Some ch \<Rightarrow> Some (z\<lparr>z_port := (z_port z)\<lparr>bs_rx := ch\<rparr>, z_reader := RxRead\<rparr>))
     | RxDone \<Rightarrow> None)"

text \<open>
  One section of \<open>writer_loop\<close>: \<open>blocking_recv\<close>, or one \<open>write\<close> of what remains of the chunk,
  of which the kernel takes \<open>w\<close> bytes; 0 stands for a failing write, after which the rest
  of the chunk is dropped.
\<close>

definition writer_step :: "nat \<Rightarrow> serial_sys \<Rightarrow> serial_sys option" where
  "writer_step w z =
    (case z_writer z of
       TxRecv \<Rightarrow>
         (case poll_recv (bs_tx (z_port z)) of
            (Ready (Some chunk), ch) \<Rightarrow> Some (z\<lparr>z_port := (z_port z)\<lparr>bs_tx := ch\<rparr>, z_writer := TxWrite chunk\<rparr>)
          | (Ready None, ch) \<Rightarrow> Some (end_writer (z\<lparr>z_port := (z_port z)\<lparr>bs_tx := ch\<rparr>\<rparr>))
          | (NotReady, ch) \<Rightarrow> None)
     | TxWrite remaining \<Rightarrow>
         (if remaining = [] then Some (z\<lparr>z_writer := TxRecv\<rparr>)
          else if w = 0 then Some (z\<lparr>z_writer := TxRecv\<rparr>)
          else Some (z\<lparr>z_out := z_out z @ take w remaining, z_writer := TxWrite (drop w remaining)\<rparr>))
     | TxDone \<Rightarrow> None)"

text \<open>Dropping the port drops both of its channel ends.\<close>

definition drop_port :: "blocking_serial \<Rightarrow> blocking_serial" where
  "drop_port p = p\<lparr>bs_rx := (bs_rx p)\<lparr>receiver_alive := False\<rparr>, bs_tx := (bs_tx p)\<lparr>sender_alive := False\<rparr>\<rparr>"

definition dropped :: "serial_sys \<Rightarrow> bool" where
  "dropped z \<longleftrightarrow> \<not> sender_alive (bs_tx (z_port z))"

section \<open>The system\<close>

datatype port_action =
    LineIn bytes
  | LineEnd line_end
  | ReaderRuns nat
  | WriterRuns nat
  | PollRead nat
  | PollWrite bytes
  | DropPort
  | OtherOpen
  | OtherClose nat

inductive port_step :: "port_action \<Rightarrow> serial_sys \<Rightarrow> serial_sys \<Rightarrow> bool" where
  line_in: "z_in_end z = LineUp \<Longrightarrow>
    port_step (LineIn bs) z (z\<lparr>z_in := z_in z @ bs, z_arrived := z_arrived z @ bs\<rparr>)"
| line_end: "port_step (LineEnd e) z (z\<lparr>z_in_end := e\<rparr>)"
| reader_runs: "reader_step k z = Some z' \<Longrightarrow> port_step (ReaderRuns k) z z'"
| writer_runs: "writer_step w z = Some z' \<Longrightarrow> port_step (WriterRuns w) z z'"
| read_data: "\<not> dropped z \<Longrightarrow> poll_read n (z_port z) = (Ready (Inr bs), p) \<Longrightarrow>
    port_step (PollRead n) z (z\<lparr>z_port := p, z_given := z_given z @ bs\<rparr>)"
| read_none: "\<not> dropped z \<Longrightarrow> poll_read n (z_port z) = (r, p) \<Longrightarrow> (\<And>bs. r \<noteq> Ready (Inr bs)) \<Longrightarrow>
    port_step (PollRead n) z (z\<lparr>z_port := p\<rparr>)"
| write_data: "\<not> dropped z \<Longrightarrow> poll_write bs (z_port z) = (Inr m, p) \<Longrightarrow>
    port_step (PollWrite bs) z (z\<lparr>z_port := p, z_accepted := z_accepted z @ take m bs\<rparr>)"
| write_fails: "\<not> dropped z \<Longrightarrow> poll_write bs (z_port z) = (Inl e, p) \<Longrightarrow>
    port_step (PollWrite bs) z (z\<lparr>z_port := p\<rparr>)"
| drop_port: "\<not> dropped z \<Longrightarrow> port_step DropPort z (z\<lparr>z_port := drop_port (z_port z)\<rparr>)"
| other_open: "os_acquire (z_os z) = (fd, os') \<Longrightarrow>
    port_step OtherOpen z (z\<lparr>z_os := os', z_others := fd # z_others z\<rparr>)"
| other_close: "fd \<in> set (z_others z) \<Longrightarrow>
    port_step (OtherClose fd) z (z\<lparr>z_os := os_close fd (z_os z), z_others := remove1 fd (z_others z)\<rparr>)"

inductive_cases port_stepE: "port_step a z z'"

text \<open>The state right after a successful \<open>open\<close>.\<close>

definition started :: "os \<Rightarrow> blocking_serial \<times> nat \<times> nat \<Rightarrow> os \<Rightarrow> serial_sys" where
  "started os = (\<lambda>(p, fd, write_fd) os'.
     \<lparr>z_port = p, z_reader = RxRead, z_writer = TxRecv, z_rfd = fd, z_wfd = write_fd, z_os = os',
      z_in = [], z_in_end = LineUp, z_out = [], z_others = os_fds os, z_arrived = [], z_given = [],
      z_accepted = []\<rparr>)"

inductive port_reach :: "(port_action \<Rightarrow> bool) \<Rightarrow> os \<Rightarrow> serial_sys \<Rightarrow> bool" for allowed os where
  opened: "serial_open lc flt path baud os = (Ok r, os') \<Longrightarrow> port_reach allowed os (started os r os')"
| step: "port_reach allowed os z \<Longrightarrow> port_step a z z' \<Longrightarrow> allowed a \<Longrightarrow> port_reach allowed os z'"

lemma serial_open_Ok:
  assumes "serial_open lc flt path baud os = (Ok r, os')"
  shows "\<exists>fd write_fd. r = (\<lparr>bs_rx = unbounded_channel, bs_tx = unbounded_channel, leftover = []\<rparr>, fd, write_fd) \<and>
    os_fds os' = write_fd # fd # os_fds os \<and> fd \<notin> set (os_fds os) \<and> write_fd \<notin> set (fd # os_fds os)"
proof -
  have fds: "configure_termios lc flt fd baud os1 = (x, os2) \<Longrightarrow> os_fds os2 = os_fds os1" for fd x os1 os2
    using configure_termios_fds by blast
  show ?thesis
    using assms lowest_fd_fresh [of "os_fds os"] lowest_fd_fresh [of "lowest_fd (os_fds os) # os_fds os"]
    by (auto simp: serial_open_def os_acquire_def Let_def dest!: fds
        split: option.splits prod.splits sum.splits if_splits)
qed

section \<open>Nothing is lost\<close>

fun rx_flight :: "rx_thread \<Rightarrow> bytes" where
  "rx_flight (RxSend chunk) = chunk"
| "rx_flight _ = []"

fun tx_flight :: "tx_thread \<Rightarrow> bytes" where
  "tx_flight (TxWrite remaining) = remaining"
| "tx_flight _ = []"

definition rx_whole :: "serial_sys \<Rightarrow> bool" where
  "rx_whole z \<longleftrightarrow> z_arrived z =
     z_given z @ leftover (z_port z) @ concat (queue (bs_rx (z_port z))) @ rx_flight (z_reader z) @ z_in z"

definition tx_whole :: "serial_sys \<Rightarrow> bool" where
  "tx_whole z \<longleftrightarrow> z_accepted z = z_out z @ tx_flight (z_writer z) @ concat (queue (bs_tx (z_port z)))"

text \<open>Each thread keeps its end of its channel as long as it runs, the port both of its ends until it is dropped.\<close>

definition ends_inv :: "serial_sys \<Rightarrow> bool" where
  "ends_inv z \<longleftrightarrow> (receiver_alive (bs_tx (z_port z)) \<longleftrightarrow> z_writer z \<noteq> TxDone) \<and>
     (sender_alive (bs_rx (z_port z)) \<longleftrightarrow> z_reader z \<noteq> RxDone) \<and>
     (receiver_alive (bs_rx (z_port z)) \<longleftrightarrow> sender_alive (bs_tx (z_port z))) \<and>
     (\<not> dropped z \<longrightarrow> z_writer z \<noteq> TxDone) \<and> (z_writer z = TxDone \<longrightarrow> queue (bs_tx (z_port z)) = [])"

lemma poll_read_effect:
  assumes "poll_read n p = (r, p')"
  shows "bs_tx p' = bs_tx p \<and> sender_alive (bs_rx p') = sender_alive (bs_rx p) \<and>
    receiver_alive (bs_rx p') = receiver_alive (bs_rx p) \<and>
    leftover p @ concat (queue (bs_rx p)) =
      (case r of Ready (Inr bs) \<Rightarrow> bs | _ \<Rightarrow> []) @ leftover p' @ concat (queue (bs_rx p'))"
  using assms
  by (auto simp: poll_read_def poll_recv_def Let_def min_def split: if_splits list.splits)

lemma poll_write_effect:
  assumes "poll_write bs p = (r, p')"
  shows "bs_rx p' = bs_rx p \<and> leftover p' = leftover p \<and> sender_alive (bs_tx p') = sender_alive (bs_tx p) \<and>
    receiver_alive (bs_tx p') = receiver_alive (bs_tx p) \<and>
    (if receiver_alive (bs_tx p) then r = Inr (length bs) \<and> queue (bs_tx p') = queue (bs_tx p) @ [bs]
     else r = Inl writer_gone \<and> p' = p)"
  using assms by (auto simp: poll_write_def chan_send_def split: if_splits)

text \<open>What a section of a thread can do, case by case.\<close>

lemma reader_stepE:
  assumes "reader_step k z = Some z'"
  obtains (read) n where "z_reader z = RxRead"
      "z' = z\<lparr>z_in := drop n (z_in z), z_reader := RxSend (take n (z_in z))\<rparr>"
    | (send) chunk where "z_reader z = RxSend chunk" "receiver_alive (bs_rx (z_port z))"
      "z' = z\<lparr>z_port := (z_port z)\<lparr>bs_rx := (bs_rx (z_port z))\<lparr>queue := queue (bs_rx (z_port z)) @ [chunk]\<rparr>\<rparr>, z_reader := RxRead\<rparr>"
    | (closed) "z_reader z = RxRead" "z_in z = []" "z' = end_reader z"
    | (hung) chunk where "z_reader z = RxSend chunk" "\<not> receiver_alive (bs_rx (z_port z))" "z' = end_reader z"
  using assms
  by (cases "z_reader z"; cases "z_in_end z") (auto simp: reader_step_def chan_send_def Let_def split: if_splits)

lemma writer_stepE:
  assumes "writer_step w z = Some z'"
  obtains (recv) chunk rest where "z_writer z = TxRecv" "queue (bs_tx (z_port z)) = chunk # rest"
      "z' = z\<lparr>z_port := (z_port z)\<lparr>bs_tx := (bs_tx (z_port z))\<lparr>queue := rest\<rparr>\<rparr>, z_writer := TxWrite chunk\<rparr>"
    | (closed) "z_writer z = TxRecv" "queue (bs_tx (z_port z)) = []" "\<not> sender_alive (bs_tx (z_port z))"
      "z' = end_writer z"
    | (finished) "z_writer z = TxWrite []" "z' = z\<lparr>z_writer := TxRecv\<rparr>"
    | (failed) remaining where "z_writer z = TxWrite remaining" "w = 0" "z' = z\<lparr>z_writer := TxRecv\<rparr>"
    | (sent) remaining where "z_writer z = TxWrite remaining" "0 < w"
      "z' = z\<lparr>z_out := z_out z @ take w remaining, z_writer := TxWrite (drop w remaining)\<rparr>"
proof (cases "z_writer z")
  case TxRecv
  show thesis
  proof (cases "queue (bs_tx (z_port z))")
    case Nil
    with assms TxRecv that(2) show thesis by (auto simp: writer_step_def poll_recv_def split: if_splits)
  next
    case (Cons chunk rest)
    with assms TxRecv that(1) show thesis by (auto simp: writer_step_def poll_recv_def)
  qed
next
  case (TxWrite remaining)
  with assms that(3-5) show thesis by (auto simp: writer_step_def split: if_splits)
next
  case TxDone
  with assms show thesis by (simp add: writer_step_def)
qed

lemmas thread_defs = end_reader_def end_writer_def

lemma ends_inv_step: "port_step a z z' \<Longrightarrow> ends_inv z \<Longrightarrow> ends_inv z'"
proof (induction rule: port_step.induct)
  case (reader_runs k z z')
  from this(1) show ?case
    by (cases rule: reader_stepE) (use reader_runs(2) in \<open>simp_all add: thread_defs ends_inv_def dropped_def\<close>)
next
  case (writer_runs w z z')
  from this(1) show ?case
    by (cases rule: writer_stepE) (use writer_runs(2) in \<open>simp_all add: thread_defs ends_inv_def dropped_def\<close>)
qed (auto simp: ends_inv_def dropped_def drop_port_def dest!: poll_read_effect poll_write_effect split: if_splits)

lemma ends_inv_reach: "port_reach allowed os z \<Longrightarrow> ends_inv z"
proof (induction rule: port_reach.induct)
  case (opened lc flt path baud r os')
  from serial_open_Ok [OF this] show ?case
    by (auto simp: started_def ends_inv_def dropped_def unbounded_channel_def)
qed (rule ends_inv_step)

lemma rx_whole_step:
  assumes "port_step a z z'" "rx_whole z" "ends_inv z" "\<not> dropped z"
  shows "rx_whole z'"
  using assms
proof (induction rule: port_step.induct)
  case (reader_runs k z z')
  from this(1) show ?case
    by (cases rule: reader_stepE)
      (use reader_runs(2-4) in \<open>simp_all add: thread_defs rx_whole_def ends_inv_def dropped_def\<close>)
next
  case (writer_runs w z z')
  from this(1) show ?case
    by (cases rule: writer_stepE) (use writer_runs(2) in \<open>simp_all add: thread_defs rx_whole_def\<close>)
qed (auto simp: rx_whole_def drop_port_def dest!: poll_read_effect poll_write_effect split: poll.splits sum.splits)

lemma tx_whole_step:
  assumes "port_step a z z'" "tx_whole z" "ends_inv z" "a \<noteq> WriterRuns 0"
  shows "tx_whole z'"
  using assms
proof (induction rule: port_step.induct)
  case (reader_runs k z z')
  from this(1) show ?case
    by (cases rule: reader_stepE) (use reader_runs(2) in \<open>simp_all add: thread_defs tx_whole_def\<close>)
next
  case (writer_runs w z z')
  from this(1) show ?case
    by (cases rule: writer_stepE) (use writer_runs(2-) in \<open>simp_all add: thread_defs tx_whole_def\<close>)
qed (auto simp: tx_whole_def drop_port_def dest!: poll_read_effect poll_write_effect split: if_splits)

lemma dropped_step:
  assumes "port_step a z z'" "\<not> dropped z" "a \<noteq> DropPort"
  shows "\<not> dropped z'"
  using assms
proof (induction rule: port_step.induct)
  case (reader_runs k z z')
  from this(1) show ?case
    by (cases rule: reader_stepE) (use reader_runs(2) in \<open>simp_all add: thread_defs dropped_def\<close>)
next
  case (writer_runs w z z')
  from this(1) show ?case
    by (cases rule: writer_stepE) (use writer_runs(2) in \<open>simp_all add: thread_defs dropped_def\<close>)
qed (auto simp: dropped_def dest!: poll_read_effect poll_write_effect)

lemma whole_reach:
  assumes "port_reach allowed os z"
  shows "(\<not> allowed DropPort \<longrightarrow> \<not> dropped z \<and> rx_whole z) \<and> (\<not> allowed (WriterRuns 0) \<longrightarrow> tx_whole z)"
  using assms
proof (induction rule: port_reach.induct)
  case (opened lc flt path baud r os')
  from serial_open_Ok [OF this] show ?case
    by (auto simp: started_def rx_whole_def tx_whole_def dropped_def unbounded_channel_def)
next
  case (step z a z')
  with ends_inv_reach [OF step(1)] rx_whole_step tx_whole_step dropped_step show ?case by metis
qed

text \<open>
  C16: the serial port loses nothing.  In every interleaving of the line, the two threads
  and the caller, as long as the port is not dropped, everything that ever came in over
  the line is, in order, what the caller has read, what is left over, what is queued,
  what the reader thread holds and what the kernel holds; and as long as no write to the
  device fails, everything accepted by \<open>poll_write\<close>, dropped port or not, is what was
  sent, what the writer thread holds and what is queued.
\<close>

theorem serial_port_lossless:
  assumes "port_reach allowed os z"
  shows "(\<not> allowed DropPort \<longrightarrow> z_arrived z =
      z_given z @ leftover (z_port z) @ concat (queue (bs_rx (z_port z))) @ rx_flight (z_reader z) @ z_in z) \<and>
    (\<not> allowed (WriterRuns 0) \<longrightarrow> z_accepted z =
      z_out z @ tx_flight (z_writer z) @ concat (queue (bs_tx (z_port z))))"
  using whole_reach [OF assms] by (simp add: rx_whole_def tx_whole_def)

text \<open>
  Writing never fails.  Until the port is dropped its writer thread runs, and
  \<open>poll_write\<close> accepts the whole buffer at once.  After the drop, the writer is never
  blocked until it ends, and if no write to the device failed, everything that was
  accepted has been sent by then.
\<close>

lemma serial_write_accepted:
  assumes "port_reach allowed os z"
  shows "(\<not> dropped z \<longrightarrow> z_writer z \<noteq> TxDone \<and> fst (poll_write bs (z_port z)) = Inr (length bs)) \<and>
    (dropped z \<longrightarrow> z_writer z \<noteq> TxDone \<longrightarrow> writer_step w z \<noteq> None) \<and>
    (z_writer z = TxDone \<longrightarrow> \<not> allowed (WriterRuns 0) \<longrightarrow> z_out z = z_accepted z)"
proof -
  note inv = ends_inv_reach [OF assms]
  have "fst (poll_write bs (z_port z)) = Inr (length bs)" if "\<not> dropped z"
    using that inv by (simp add: poll_write_def chan_send_def ends_inv_def)
  moreover have "writer_step w z \<noteq> None" if "dropped z" "z_writer z \<noteq> TxDone"
    using that by (auto simp: dropped_def writer_step_def poll_recv_def split: tx_thread.split list.split)
  ultimately show ?thesis using inv whole_reach [OF assms] by (auto simp: ends_inv_def tx_whole_def)
qed

section \<open>Descriptors\<close>

definition fds_inv :: "serial_sys \<Rightarrow> bool" where
  "fds_inv z \<longleftrightarrow> distinct (os_fds (z_os z)) \<and> distinct (z_others z) \<and>
     set (os_fds (z_os z)) = set (z_others z) \<union> (if z_reader z = RxDone then {} else {z_rfd z}) \<union>
       (if z_writer z = TxDone then {} else {z_wfd z}) \<and>
     (z_reader z \<noteq> RxDone \<longrightarrow> z_rfd z \<notin> set (z_others z)) \<and>
     (z_writer z \<noteq> TxDone \<longrightarrow> z_wfd z \<notin> set (z_others z)) \<and>
     (z_reader z \<noteq> RxDone \<longrightarrow> z_writer z \<noteq> TxDone \<longrightarrow> z_rfd z \<noteq> z_wfd z)"

lemma fds_inv_step: "port_step a z z' \<Longrightarrow> fds_inv z \<Longrightarrow> fds_inv z'"
proof (induction rule: port_step.induct)
  case (reader_runs k z z')
  from this(1) show ?case
    by (cases rule: reader_stepE) (use reader_runs(2) in \<open>auto simp: thread_defs fds_inv_def os_close_def\<close>)
next
  case (writer_runs w z z')
  from this(1) show ?case
    by (cases rule: writer_stepE) (use writer_runs(2) in \<open>auto simp: thread_defs fds_inv_def os_close_def\<close>)
next
  case (other_open z fd os')
  then have fd: "fd = lowest_fd (os_fds (z_os z))" "os_fds os' = fd # os_fds (z_os z)"
    by (auto simp: os_acquire_def Let_def)
  then have "fd \<notin> set (os_fds (z_os z))" by (simp add: lowest_fd_fresh)
  with other_open(2) fd(2) show ?case
    by (cases "z_reader z = RxDone"; cases "z_writer z = TxDone") (simp_all add: fds_inv_def insert_commute)
next
  case (other_close fd z)
  then show ?case by (auto simp: fds_inv_def os_close_def)
qed (auto simp: fds_inv_def)

lemma fds_inv_reach: "port_reach allowed os z \<Longrightarrow> distinct (os_fds os) \<Longrightarrow> fds_inv z"
proof (induction rule: port_reach.induct)
  case (opened lc flt path baud r os')
  from serial_open_Ok [OF this(1)] this(2) show ?case by (auto simp: started_def fds_inv_def)
qed (rule fds_inv_step)

text \<open>
  C30: the threads own their descriptors.  While the rest of the process opens and closes
  its own descriptors, a thread that runs holds a descriptor that is open and belongs to
  nobody else, so that its close never hits a number that was given to another file;
  once both threads have ended, exactly the descriptors of the rest are open.  The reader
  ends at the latest with the first chunk it tries to send after the port was dropped.
\<close>

theorem serial_threads_own_descriptors:
  assumes "port_reach allowed os z" "distinct (os_fds os)"
  shows "(z_reader z \<noteq> RxDone \<longrightarrow> z_rfd z \<in> set (os_fds (z_os z)) - set (z_others z)) \<and>
    (z_writer z \<noteq> TxDone \<longrightarrow> z_wfd z \<in> set (os_fds (z_os z)) - set (z_others z)) \<and>
    (z_reader z \<noteq> RxDone \<longrightarrow> z_writer z \<noteq> TxDone \<longrightarrow> z_rfd z \<noteq> z_wfd z) \<and>
    (z_reader z = RxDone \<longrightarrow> z_writer z = TxDone \<longrightarrow> mset (os_fds (z_os z)) = mset (z_others z)) \<and>
    (dropped z \<longrightarrow> (\<exists>chunk. z_reader z = RxSend chunk) \<longrightarrow> reader_step k z = Some (end_reader z))"
proof -
  note fds = fds_inv_reach [OF assms]
  have "mset (os_fds (z_os z)) = mset (z_others z)" if "z_reader z = RxDone" "z_writer z = TxDone"
    using that fds set_eq_iff_mset_eq_distinct [of "os_fds (z_os z)" "z_others z"] by (simp add: fds_inv_def)
  moreover have "reader_step k z = Some (end_reader z)" if "dropped z" "z_reader z = RxSend chunk" for chunk
    using that ends_inv_reach [OF assms(1)] by (simp add: reader_step_def chan_send_def dropped_def ends_inv_def)
  ultimately show ?thesis using fds by (auto simp: fds_inv_def)
qed

section \<open>Examples\<close>

definition demo_started :: serial_sys where
  "demo_started = started one_terminal
     (\<lparr>bs_rx = unbounded_channel, bs_tx = unbounded_channel, leftover = []\<rparr>, 3, 4)
     (snd (serial_open linux no_faults (Some (lit ''tty'')) 57600 one_terminal))"

lemma lowest_fd_demo: "lowest_fd [2, Suc 0, 0] = 3" "lowest_fd [3, 2, Suc 0, 0] = 4"
  by (simp_all add: lowest_fd_def upt_rec)

lemma demo_reach: "port_reach allowed one_terminal demo_started"
proof -
  obtain x os' where r: "serial_open linux no_faults (Some (lit ''tty'')) 57600 one_terminal = (x, os')" by fastforce
  then have "x = Ok (\<lparr>bs_rx = unbounded_channel, bs_tx = unbounded_channel, leftover = []\<rparr>, 3, 4)"
    by (auto simp: serial_open_def os_acquire_def no_faults_def one_terminal_def configure_termios_def linux_def
        Let_def lowest_fd_demo)
  with r show ?thesis using port_reach.opened [of linux no_faults "Some (lit ''tty'')" 57600 one_terminal _ os']
    by (simp add: demo_started_def)
qed

lemma demo_started_simps [simp]:
  "z_port demo_started = \<lparr>bs_rx = unbounded_channel, bs_tx = unbounded_channel, leftover = []\<rparr>"
  "z_reader demo_started = RxRead" "z_writer demo_started = TxRecv" "z_in demo_started = []"
  "z_in_end demo_started = LineUp" "z_out demo_started = []" "z_arrived demo_started = []"
  "z_given demo_started = []" "z_accepted demo_started = []" "z_rfd demo_started = 3" "z_wfd demo_started = 4"
  "z_others demo_started = [2, 1, 0]"
  by (simp_all add: demo_started_def started_def one_terminal_def)

definition demo_received :: serial_sys where
  "demo_received = demo_started\<lparr>z_in := [0x49], z_arrived := [0x49]\<rparr>"

lemma demo_received_reach: "allowed (LineIn [0x49]) \<Longrightarrow> port_reach allowed one_terminal demo_received"
  using port_reach.step [OF demo_reach line_in [of demo_started "[0x49]"]] by (simp add: demo_received_def)

theorem serial_port_lossless_witness:
  "z_arrived demo_received = z_given demo_received @ z_in demo_received \<and> z_arrived demo_received = [0x49]"
  using serial_port_lossless [OF demo_received_reach [of "\<lambda>a. a = LineIn [0x49]"]]
  by (simp add: demo_received_def unbounded_channel_def)

theorem serial_threads_own_descriptors_witness: "3 \<in> set (os_fds (z_os demo_received))"
  using serial_threads_own_descriptors [OF demo_received_reach [of "\<lambda>_. True"]]
  by (simp add: demo_received_def one_terminal_def)

text \<open>
  C35: a failed write goes unnoticed.  There is an execution in which \<open>poll_write\<close> reported
  that a byte was written, the write to the device failed, and the byte is gone: it was not
  sent, it is not held by the writer thread and not queued, and the next write is
  reported as successful again.
\<close>

theorem write_error_is_silent:
  "\<exists>z. port_reach (\<lambda>_. True) one_terminal z \<and> \<not> dropped z \<and> z_accepted z = [0x04] \<and> z_out z = [] \<and>
    z_writer z = TxRecv \<and> queue (bs_tx (z_port z)) = [] \<and> fst (poll_write [0x05] (z_port z)) = Inr 1"
proof -
  let ?reach = "port_reach (\<lambda>_. True) one_terminal"
  let ?p = "\<lambda>q. \<lparr>bs_rx = unbounded_channel, bs_tx = unbounded_channel\<lparr>queue := q\<rparr>, leftover = []\<rparr>"
  let ?z1 = "demo_started\<lparr>z_port := ?p [[0x04]], z_accepted := [0x04]\<rparr>"
  let ?z2 = "?z1\<lparr>z_port := ?p [], z_writer := TxWrite [0x04]\<rparr>"
  let ?z3 = "?z2\<lparr>z_writer := TxRecv\<rparr>"
  have "port_step (PollWrite [0x04]) demo_started ?z1"
    using write_data [of demo_started "[0x04]" 1 "?p [[0x04]]"]
    by (simp add: dropped_def poll_write_def chan_send_def unbounded_channel_def)
  with demo_reach have r1: "?reach ?z1" by (rule port_reach.step) simp
  have "port_step (WriterRuns 1) ?z1 ?z2"
    by (rule writer_runs) (simp add: writer_step_def poll_recv_def unbounded_channel_def)
  with r1 have r2: "?reach ?z2" by (rule port_reach.step) simp
  have "port_step (WriterRuns 0) ?z2 ?z3" by (rule writer_runs) (simp add: writer_step_def)
  with r2 have "?reach ?z3" by (rule port_reach.step) simp
  moreover have "fst (poll_write [0x05] (z_port ?z3)) = Inr 1" "\<not> dropped ?z3"
    by (simp_all add: poll_write_def chan_send_def dropped_def unbounded_channel_def)
  moreover have "z_accepted ?z3 = [0x04]" "z_out ?z3 = []" "z_writer ?z3 = TxRecv" "queue (bs_tx (z_port ?z3)) = []"
    by simp_all
  ultimately show ?thesis by blast
qed

end
