(* ===== verification/Vserial.thy ===== *)
theory Vserial
  imports Protocol_Spec
begin

text \<open>
  The virtual serial channels as seen from both ends.  Guest requests and host operations
  reach the shared queues in an arbitrary order; each holds the lock of the queue it
  uses while it touches it, so an execution is a sequence of atomic events.  The locale
  \<open>fifo_history\<close> states once what a channel owes to its two ends; it is interpreted for
  the host-bound and the guest-bound queues of every channel.
\<close>

section \<open>Events\<close>

datatype event =
    Guest clock request
  | HostSend u8 bytes
  | HostDrain u8
  | HostWait nat u8
  | HostWake nat u8
  | HostMount u8 str bool
  | HostUnmount u8

type_synonym shared = "server \<times> filesys"

text \<open>A guest request runs the dispatch of \<open>run\<close> on its own bytes; the reply is what it sends.\<close>

definition guest_event :: "clock \<Rightarrow> request \<Rightarrow> shared \<Rightarrow> bytes \<times> shared" where
  "guest_event c r = (\<lambda>(s, f).
    (case dispatch c (from_byte (head_byte r)) \<lparr>srv = s, fs = f, tr = closing (payload r)\<rparr> of
       (_, w) \<Rightarrow> (tx (tr w), srv w, fs w)))"

fun exec :: "event \<Rightarrow> shared \<Rightarrow> bytes \<times> shared" where
  "exec (Guest c r) sf = guest_event c r sf"
| "exec (HostSend ch bs) (s, f) = ([], send_to_vserial ch bs s, f)"
| "exec (HostDrain ch) (s, f) = (let (bs, s') = drain_vserial ch s in (bs, s', f))"
| "exec (HostWait task ch) (s, f) = ([], snd (wait_vserial_inbox task ch s), f)"
| "exec (HostWake task ch) (s, f) = ([], snd (wake_vserial_inbox task ch s), f)"
| "exec (HostMount slot path ro) sf = ([], snd (mount_dsk slot path ro sf))"
| "exec (HostUnmount slot) (s, f) = ([], unmount slot s, f)"

definition after :: "event \<Rightarrow> shared \<Rightarrow> shared" where
  "after e sf = snd (exec e sf)"

fun ok_event :: "event \<Rightarrow> bool" where
  "ok_event (Guest c r) \<longleftrightarrow> wf_request r"
| "ok_event _ \<longleftrightarrow> True"

lemma guest_event_spec:
  assumes "wf_request r" "server_wf (fst sf)"
  shows "fst (guest_event c r sf) = fst (spec_step c r (abs_st (fst sf) (snd sf))) \<and>
    abs_st (fst (snd (guest_event c r sf))) (snd (snd (guest_event c r sf))) =
      snd (spec_step c r (abs_st (fst sf) (snd sf))) \<and>
    server_wf (fst (snd (guest_event c r sf)))"
proof -
  obtain s f where sf: "sf = (s, f)" by (cases sf)
  let ?w = "\<lparr>srv = s, fs = f, tr = closing (payload r)\<rparr>"
  obtain out a where sp: "spec_step c r (abs_st s f) = (out, a)" by fastforce
  have "answers (dispatch c (from_byte (head_byte r))) (payload r) ?w (spec_step c r (abs_of ?w))"
    using assms sf by (intro dispatch_answers) (auto simp: closing_def)
  then obtain w' where "dispatch c (from_byte (head_byte r)) ?w = (Inr (), w')"
      "tr w' = (closing (payload r))\<lparr>rx := [], tx := out\<rparr>" "abs_of w' = a" "server_wf (srv w')"
    using sp by (auto simp: answers_def closing_def)
  then show ?thesis using sp by (simp add: guest_event_def sf)
qed

lemma server_wf_after: "server_wf (fst sf) \<Longrightarrow> ok_event e \<Longrightarrow> server_wf (fst (after e sf))"
proof (cases e)
  case (HostMount slot path ro)
  assume "server_wf (fst sf)"
  with HostMount server_wf_mount_dsk [of "fst sf" slot path ro "snd sf"] show ?thesis
    by (cases "mount_dsk slot path ro sf") (auto simp: after_def)
qed (cases sf; auto simp: after_def guest_event_spec wf_intros case_prod_beta' Let_def)+

section \<open>First in, first out\<close>

text \<open>What a sequence of events takes out of a queue, in order.\<close>

primrec history :: "('e \<Rightarrow> 's \<Rightarrow> 's) \<Rightarrow> ('e \<Rightarrow> 's \<Rightarrow> 'b list) \<Rightarrow> 'e list \<Rightarrow> 's \<Rightarrow> 'b list" where
  "history step outs [] s = []"
| "history step outs (e # es) s = outs e s @ history step outs es (step e s)"

locale fifo_history =
  fixes step :: "'e \<Rightarrow> 's \<Rightarrow> 's"
    and queue :: "'s \<Rightarrow> 'b list"
    and ins :: "'e \<Rightarrow> 'b list"
    and outs :: "'e \<Rightarrow> 's \<Rightarrow> 'b list"
    and inv :: "'s \<Rightarrow> bool"
    and ok :: "'e \<Rightarrow> bool"
  assumes keeps: "inv s \<Longrightarrow> ok e \<Longrightarrow> inv (step e s)"
    and conserves: "inv s \<Longrightarrow> ok e \<Longrightarrow> outs e s @ queue (step e s) = queue s @ ins e"
begin

lemma history_conserves:
  "inv s \<Longrightarrow> \<forall>e \<in> set es. ok e \<Longrightarrow>
    history step outs es s @ queue (fold step es s) = queue s @ concat (map ins es)"
proof (induction es arbitrary: s)
  case (Cons e es)
  then have "history step outs es (step e s) @ queue (fold step es (step e s)) =
      queue (step e s) @ concat (map ins es)"
    by (simp add: keeps)
  with conserves [of s e] Cons.prems show ?case by simp
qed simp

lemma history_prefix:
  assumes "inv s" "\<forall>e \<in> set es. ok e"
  shows "history step outs es s = take (length (history step outs es s)) (queue s @ concat (map ins es))"
  by (metis append_eq_conv_conj assms history_conserves)

end

text \<open>What each event puts into a queue of channel \<open>ch\<close>, and what it takes out.\<close>

fun inbox_ins :: "u8 \<Rightarrow> event \<Rightarrow> bytes" where
  "inbox_ins ch (Guest _ (SerWriteReq ch' b)) = (if ch' = ch then [b] else [])"
| "inbox_ins ch (Guest _ (SerWriteMReq ch' bs)) = (if ch' = ch then bs else [])"
| "inbox_ins ch (Guest _ (FastWriteReq ch' b)) = (if ch' = ch then [b] else [])"
| "inbox_ins ch _ = []"

fun inbox_outs :: "u8 \<Rightarrow> event \<Rightarrow> shared \<Rightarrow> bytes" where
  "inbox_outs ch (HostDrain ch') sf = (if ch' = ch then fst (exec (HostDrain ch') sf) else [])"
| "inbox_outs ch _ sf = []"

fun outbox_ins :: "u8 \<Rightarrow> event \<Rightarrow> bytes" where
  "outbox_ins ch (HostSend ch' bs) = (if ch' = ch then bs else [])"
| "outbox_ins ch _ = []"

text \<open>
  Read off the reply: the data byte of a poll answered with the code of the channel, and
  of a multi-byte read the bytes that are not padding.
\<close>

fun outbox_outs :: "u8 \<Rightarrow> event \<Rightarrow> shared \<Rightarrow> bytes" where
  "outbox_outs ch (Guest c (Bare SerRead)) sf =
     (case fst (exec (Guest c (Bare SerRead)) sf) of [code, b] \<Rightarrow> (if code = 1 + ch then [b] else []) | _ \<Rightarrow> [])"
| "outbox_outs ch (Guest c (SerReadMReq ch' n)) sf =
     (if ch' = ch then take (vserial_outbox_len ch (fst sf)) (fst (exec (Guest c (SerReadMReq ch' n)) sf)) else [])"
| "outbox_outs ch _ sf = []"

lemma inbox_of_abs: "inbox_of ch s = a_inbox (abs_st s f) ch"
  by simp

lemma outbox_of_abs: "outbox_of ch s = a_outbox (abs_st s f) ch"
  by simp

lemma a_inbox_ops [simp]:
  "a_inbox (a_notify ch a) = a_inbox a" "a_inbox (a_set_open ch b a) = a_inbox a"
  "a_inbox (snd (a_poll a)) = a_inbox a" "a_inbox (snd (a_fetch ch n a)) = a_inbox a"
  "a_inbox (snd (a_bare c opc a)) = a_inbox a"
  by (simp_all add: a_notify_def a_set_open_def a_poll_def a_fetch_def Let_def split: option.split)
    (cases opc; simp add: a_poll_def Let_def split: option.split)

lemma a_outbox_ops [simp]:
  "a_outbox (a_notify ch a) = a_outbox a" "a_outbox (a_set_open ch b a) = a_outbox a"
  "a_outbox (a_receive ch bs a) = a_outbox a"
  by (simp_all add: a_notify_def a_set_open_def a_receive_def)

lemma spec_step_inbox:
  assumes "valid_channel ch"
  shows "a_inbox (snd (spec_step c r a)) ch = a_inbox a ch @ inbox_ins ch (Guest c r)"
proof -
  have "ch \<in> set channels" using assms by (simp add: set_channels)
  then show ?thesis
    by (cases r) (auto simp: Let_def a_receive_def split: option.split prod.split sum.split)
qed

lemma first_channel:
  assumes "find (\<lambda>ch. a_outbox a ch \<noteq> []) channels = Some ch"
  shows "unat ch < 16 \<and> a_outbox a ch \<noteq> []"
  using assms set_channels [of ch] by (auto simp: find_Some_iff VSERIAL_CHANNELS_def)

lemma channel_code_inj:
  assumes "unat ch < 16" "unat ch' < 16"
  shows "(1 + ch = 1 + (ch' :: u8)) = (ch = ch')" "17 + ch' \<noteq> 1 + ch"
proof -
  have "unat (17 + ch') = 17 + unat ch'" "unat (1 + ch) = 1 + unat ch"
    using assms by (simp_all add: unat_word_ariths)
  with assms show "17 + ch' \<noteq> 1 + ch" by auto
qed simp

lemma spec_step_outbox:
  assumes "unat ch < 16" "r \<noteq> Bare SerRead"
  shows "a_outbox (snd (spec_step c r a)) ch =
    (case r of SerReadMReq ch' n \<Rightarrow> if ch' = ch then drop (unat n) (a_outbox a ch) else a_outbox a ch
     | _ \<Rightarrow> a_outbox a ch)"
proof (cases r)
  case (Bare opc)
  with assms(2) show ?thesis by (cases opc) auto
qed (auto simp: Let_def a_fetch_def split: option.split prod.split sum.split)

lemma poll_outbox:
  assumes "unat ch < 16"
  shows "(case fst (a_poll a) of [code, b] \<Rightarrow> (if code = 1 + ch then [b] else []) | _ \<Rightarrow> []) @
    a_outbox (snd (a_poll a)) ch = a_outbox a ch"
proof (cases "find (\<lambda>ch. a_outbox a ch \<noteq> []) channels")
  case None
  have "0 \<noteq> 1 + ch"
  proof
    assume "0 = 1 + ch"
    then have "unat (1 + ch) = 0" by (metis unat_0)
    with assms show False by (simp add: unat_word_ariths)
  qed
  with None show ?thesis by (simp add: a_poll_def)
next
  case (Some ch')
  with first_channel [of a ch'] assms channel_code_inj [of ch' ch] channel_code_inj [of ch ch'] show ?thesis
    by (cases "a_outbox a ch'") (auto simp: a_poll_def Let_def)
qed

section \<open>The queues of the server\<close>

lemma after_inbox:
  assumes "server_wf (fst sf)" "ok_event e" "valid_channel ch"
  shows "inbox_outs ch e sf @ inbox_of ch (fst (after e sf)) = inbox_of ch (fst sf) @ inbox_ins ch e"
proof (cases e)
  case (Guest c r)
  have "inbox_of ch (fst (after e sf)) = a_inbox (snd (spec_step c r (abs_st (fst sf) (snd sf)))) ch"
    using guest_event_spec [of r sf c] assms(1,2) Guest
      inbox_of_abs [of ch "fst (after e sf)" "snd (after e sf)"] by (simp add: after_def)
  with Guest assms(3) show ?thesis by (simp add: spec_step_inbox)
next
  case (HostMount slot path ro)
  then show ?thesis
    by (cases sf) (auto simp: after_def mount_dsk_def queue_simps split: prod.split sum.split)
qed (cases sf; use assms in \<open>auto simp: after_def queue_simps case_prod_beta' Let_def\<close>)+

lemma after_outbox:
  assumes "server_wf (fst sf)" "ok_event e" "valid_channel ch"
  shows "outbox_outs ch e sf @ outbox_of ch (fst (after e sf)) = outbox_of ch (fst sf) @ outbox_ins ch e"
proof (cases e)
  case (Guest c r)
  let ?a = "abs_st (fst sf) (snd sf)"
  have ch: "unat ch < 16" using assms(3) by (simp add: VSERIAL_CHANNELS_def)
  have st: "outbox_of ch (fst (after e sf)) = a_outbox (snd (spec_step c r ?a)) ch"
    and out: "fst (exec e sf) = fst (spec_step c r ?a)"
    using guest_event_spec [of r sf c] assms(1,2) Guest
      outbox_of_abs [of ch "fst (after e sf)" "snd (after e sf)"] by (simp_all add: after_def)
  show ?thesis
  proof (cases "r = Bare SerRead")
    case True
    with Guest st out poll_outbox [OF ch, of ?a] show ?thesis by simp
  next
    case False
    moreover have "outbox_outs ch e sf = (case r of SerReadMReq ch' n \<Rightarrow>
        if ch' = ch then take (unat n) (outbox_of ch (fst sf)) else [] | _ \<Rightarrow> [])"
    proof (cases r)
      case (Bare opc)
      with False Guest show ?thesis by (cases opc) auto
    next
      case (SerReadMReq ch' n)
      with Guest out show ?thesis
        by (cases "unat n \<le> length (outbox_of ch (fst sf))")
          (auto simp: a_fetch_def vserial_outbox_len_eq Let_def)
    qed (use Guest in auto)
    ultimately show ?thesis
      using st spec_step_outbox [OF ch False, of c ?a] Guest by (auto split: request.split)
  qed
next
  case (HostMount slot path ro)
  then show ?thesis
    by (cases sf) (auto simp: after_def mount_dsk_def queue_simps split: prod.split sum.split)
qed (cases sf; use assms in \<open>auto simp: after_def queue_simps case_prod_beta' Let_def\<close>)+

text \<open>
  Channels that do not exist have no queue: nothing is put in and nothing but padding comes
  out, so the interpretations are for the existing ones.
\<close>

definition ch_events :: "u8 \<Rightarrow> event \<Rightarrow> bool" where
  "ch_events ch e \<longleftrightarrow> ok_event e \<and> valid_channel ch"

interpretation inb: fifo_history after "\<lambda>sf. inbox_of ch (fst sf)" "inbox_ins ch" "inbox_outs ch"
    "\<lambda>sf. server_wf (fst sf)" "ch_events ch" for ch
  by unfold_locales (auto simp: ch_events_def server_wf_after after_inbox)

interpretation outb: fifo_history after "\<lambda>sf. outbox_of ch (fst sf)" "outbox_ins ch" "outbox_outs ch"
    "\<lambda>sf. server_wf (fst sf)" "ch_events ch" for ch
  by unfold_locales (auto simp: ch_events_def server_wf_after after_outbox)

text \<open>
  C13: bytes from the guest reach the host complete and in order.  Over any interleaving
  of guest requests, host sends, drains, waits, mounts and unmounts, what the host has
  drained from a channel, followed by what is still queued, is what was queued at the
  start followed by everything the guest wrote to that channel with \<open>SERWRITE\<close>,
  \<open>SERWRITEM\<close> and the fast-write opcodes; nothing is lost, duplicated, reordered or moved
  to another channel.
\<close>

theorem guest_to_host_fifo:
  assumes "server_wf s" "\<forall>e \<in> set es. ok_event e" "valid_channel ch"
  shows "history after (inbox_outs ch) es (s, f) @ inbox_of ch (fst (fold after es (s, f))) =
    inbox_of ch s @ concat (map (inbox_ins ch) es)"
  using inb.history_conserves [of "(s, f)" es ch] assms by (simp add: ch_events_def)

theorem guest_to_host_fifo_witness:
  "let es = [Guest demo_clock (SerWriteReq 3 65), HostDrain 3, Guest demo_clock (FastWriteReq 3 66),
             Guest demo_clock (SerWriteMReq 3 [67, 68])] in
   history after (inbox_outs 3) es (server_new, demo_fs) @ inbox_of 3 (fst (fold after es (server_new, demo_fs))) =
     [65, 66, 67, 68]"
  using guest_to_host_fifo [of server_new "[Guest demo_clock (SerWriteReq 3 65), HostDrain 3,
      Guest demo_clock (FastWriteReq 3 66), Guest demo_clock (SerWriteMReq 3 [67, 68])]" 3 demo_fs]
  by (simp add: VSERIAL_CHANNELS_def del: fold_simps history.simps)

text \<open>
  C14: bytes from the host reach the guest complete and in order.  Over any interleaving,
  what polls and multi-byte reads have delivered to the guest from a channel, padding
  excluded, followed by what is still queued, is what was queued at the start followed
  by everything the host sent to that channel.
\<close>

theorem host_to_guest_fifo:
  assumes "server_wf s" "\<forall>e \<in> set es. ok_event e" "valid_channel ch"
  shows "history after (outbox_outs ch) es (s, f) @ outbox_of ch (fst (fold after es (s, f))) =
    outbox_of ch s @ concat (map (outbox_ins ch) es)"
  using outb.history_conserves [of "(s, f)" es ch] assms by (simp add: ch_events_def)

theorem host_to_guest_fifo_witness:
  "let es = [HostSend 1 [65, 66, 67, 68], Guest demo_clock (Bare SerRead),
             Guest demo_clock (SerReadMReq 1 3), HostSend 1 [69]] in
   history after (outbox_outs 1) es (server_new, demo_fs) @ outbox_of 1 (fst (fold after es (server_new, demo_fs))) =
     [65, 66, 67, 68, 69]"
  using host_to_guest_fifo [of server_new "[HostSend 1 [65, 66, 67, 68], Guest demo_clock (Bare SerRead),
      Guest demo_clock (SerReadMReq 1 3), HostSend 1 [69]]" 1 demo_fs]
  by (simp add: VSERIAL_CHANNELS_def bare_opcodes_def del: fold_simps history.simps)

section \<open>Polling\<close>

text \<open>Host sends, in any number and to any channels, only lengthen queues.\<close>

definition sends :: "(u8 \<times> bytes) list \<Rightarrow> event list" where
  "sends = map (\<lambda>(ch, bs). HostSend ch bs)"

lemma sends_outbox:
  assumes "server_wf (fst sf)"
  shows "\<exists>more. outbox_of ch (fst (fold after (sends bss) sf)) = outbox_of ch (fst sf) @ more \<and>
    server_wf (fst (fold after (sends bss) sf))"
  using assms
proof (induction bss arbitrary: sf)
  case (Cons b bss)
  let ?sf = "after (HostSend (fst b) (snd b)) sf"
  have "server_wf (fst ?sf)" using Cons.prems by (rule server_wf_after) simp
  from Cons.IH [OF this] Cons.prems show ?case
    by (cases sf) (auto simp: sends_def case_prod_beta' after_def queue_simps)
qed (simp add: sends_def)

lemma poll_cases:
  assumes "a_poll a = ([code, y], a')" "0x11 \<le> code"
  shows "\<exists>ch. unat ch < 16 \<and> code = 0x11 + ch \<and> y = word_of_nat (min 255 (length (a_outbox a ch))) \<and>
    3 \<le> length (a_outbox a ch) \<and> a' = a"
proof (cases "find (\<lambda>ch. a_outbox a ch \<noteq> []) channels")
  case None
  with assms show ?thesis by (simp add: a_poll_def)
next
  case (Some ch)
  then have ch: "unat ch < 16" using first_channel by blast
  then have "unat (1 + ch) < 17" by (simp add: unat_word_ariths)
  then have "\<not> 17 \<le> 1 + ch" by (simp add: word_le_nat_alt)
  with Some assms ch show ?thesis by (auto simp: a_poll_def Let_def split: if_splits)
qed

text \<open>
  A burst announced by a poll is delivered.  When \<open>SERREAD\<close> answers with a code of
  0x11 or more, the code names an existing channel and the count is between 3 and 255;
  a following \<open>SERREADM\<close> for that channel and count returns exactly that many bytes from
  the front of the queue, without padding, whatever the host has sent meanwhile.
\<close>

theorem announced_burst_delivered:
  assumes "server_wf s" "exec (Guest c (Bare SerRead)) (s, f) = ([code, y], sf1)" "0x11 \<le> code"
  shows "\<exists>ch. valid_channel ch \<and> code = 0x11 + ch \<and> 3 \<le> unat y \<and> unat y \<le> length (outbox_of ch s) \<and>
    fst (exec (Guest c' (SerReadMReq ch y)) (fold after (sends bss) sf1)) = take (unat y) (outbox_of ch s)"
proof -
  have wf: "wf_request (Bare SerRead)" by (simp add: bare_opcodes_def)
  from guest_event_spec [OF wf, of "(s, f)" c] assms(1,2)
  have sp: "a_poll (abs_st s f) = ([code, y], abs_st (fst sf1) (snd sf1))" and wf1: "server_wf (fst sf1)"
    by (auto simp: prod_eq_iff)
  from poll_cases [OF sp assms(3)] obtain ch where ch: "unat ch < 16" "code = 0x11 + ch"
      "y = word_of_nat (min 255 (length (outbox_of ch s)))" "3 \<le> length (outbox_of ch s)"
      "abs_st (fst sf1) (snd sf1) = abs_st s f"
    by auto
  have y: "unat y = min 255 (length (outbox_of ch s))"
    using ch(3) by (simp add: unsigned_of_nat take_bit_eq_mod)
  let ?sf2 = "fold after (sends bss) sf1"
  have "outbox_of ch (fst sf1) = outbox_of ch s" using ch(5) by (metis outbox_of_abs)
  then obtain more where more: "outbox_of ch (fst ?sf2) = outbox_of ch s @ more" "server_wf (fst ?sf2)"
    using sends_outbox [OF wf1, of ch bss] by auto
  have "fst (exec (Guest c' (SerReadMReq ch y)) ?sf2) = fst (a_fetch ch (unat y) (abs_st (fst ?sf2) (snd ?sf2)))"
    using guest_event_spec [of "SerReadMReq ch y" ?sf2 c'] more(2) by simp
  also have "\<dots> = take (unat y) (outbox_of ch s)" using more(1) y by (simp add: a_fetch_def Let_def)
  finally show ?thesis
    using ch(1,2,4) y by (intro exI [of _ ch]) (simp add: VSERIAL_CHANNELS_def)
qed

theorem announced_burst_delivered_witness:
  "let sf1 = snd (exec (Guest demo_clock (Bare SerRead)) (send_to_vserial 2 [65, 66, 67, 68] server_new, demo_fs)) in
   fst (exec (Guest demo_clock (SerReadMReq 2 4)) (fold after (sends [(2, [69]), (0, [70])]) sf1)) = [65, 66, 67, 68]"
proof -
  let ?s = "send_to_vserial 2 [65, 66, 67, 68] server_new"
  let ?e = "Guest demo_clock (Bare SerRead)"
  have wf: "server_wf ?s" by (simp add: wf_intros)
  have q: "outbox_of ch ?s = (if ch = 2 then [65, 66, 67, 68] else [])" for ch
    by (auto simp: queue_simps VSERIAL_CHANNELS_def)
  have "find (\<lambda>ch. a_outbox (abs_st ?s demo_fs) ch \<noteq> []) channels = Some 2"
    by (simp add: q channels_def upt_rec)
  then have "fst (exec ?e (?s, demo_fs)) = [0x13, 4]"
    using guest_event_spec [of "Bare SerRead" "(?s, demo_fs)" demo_clock] wf
    by (simp add: bare_opcodes_def a_poll_def q)
  then have "exec ?e (?s, demo_fs) = ([0x13, 4], snd (exec ?e (?s, demo_fs)))" by (metis prod.collapse)
  from announced_burst_delivered [OF wf this, of demo_clock "[(2, [69]), (0, [70])]"]
  obtain ch where ch: "(0x13 :: u8) = 0x11 + ch"
      "fst (exec (Guest demo_clock (SerReadMReq ch 4)) (fold after (sends [(2, [69]), (0, [70])])
        (snd (exec ?e (?s, demo_fs))))) = take 4 (outbox_of ch ?s)"
    by auto
  then have "ch = 0x13 - 0x11" by (simp add: algebra_simps)
  then have "ch = 2" by simp
  with ch(2) show ?thesis by (simp add: q del: exec.simps)
qed

end
