(* ===== verification/Attach.thy ===== *)
theory Attach
  imports Vserial
begin

text \<open>
  Attached clients (\<open>handle_attach\<close> and its listener).  Every connection runs two
  spawned tasks: one copies the client's bytes into the outbox of its channel, the other
  drains the inbox to the client and sleeps on the channel's notification in between.
  Each task is a small program with a program counter; a step is one atomic section of
  it, and the tasks of all connections, the guest sessions and the clients interleave
  freely.  \<open>push_vserial\<close> is taken apart into its two sections, the queue update and the
  notification, because other tasks can run between them.
\<close>

section \<open>The two sections of push_vserial\<close>

definition push_store :: "u8 \<Rightarrow> u8 \<Rightarrow> server \<Rightarrow> server" where
  "push_store channel byte s =
    (let idx = unat channel in
     if idx \<ge> VSERIAL_CHANNELS then s
     else s\<lparr>vserial_inbox := (vserial_inbox s)[idx := vserial_inbox s ! idx @ [byte]]\<rparr>)"

definition push_notify :: "u8 \<Rightarrow> server \<Rightarrow> server" where
  "push_notify channel s =
    (let idx = unat channel in
     if idx \<ge> VSERIAL_CHANNELS then s
     else s\<lparr>vserial_inbox_notify := (vserial_inbox_notify s)[idx := notify_one (vserial_inbox_notify s ! idx)]\<rparr>)"

lemma push_vserial_sections: "push_vserial ch b s = push_notify ch (push_store ch b s)"
  by (simp add: push_vserial_def push_notify_def push_store_def Let_def)

section \<open>Connections and their tasks\<close>

datatype in_task = InRead | InSend bytes | InDone

text \<open>
  The outbound task waits in two stages: \<open>OutWait\<close> is about to poll its notification for the
  first time, \<open>OutSleep\<close> has polled it, is queued there and can go on once it is notified.
\<close>

datatype out_task = OutDrain | OutWrite bytes | OutWait | OutSleep | OutDone

datatype read_end = Pending | Closed | Broken

text \<open>
  The client's socket: what it sent and is not read yet, whether its sending side is
  still open, what was written to it, and after how many more bytes a write fails, if
  it does.  \<open>c_sent\<close> records everything the client ever sent.
\<close>

record conn =
  c_channel :: u8
  c_in :: bytes
  c_in_end :: read_end
  c_sent :: bytes
  c_out :: bytes
  c_room :: "nat option"
  c_inbound :: in_task
  c_outbound :: out_task

definition attach_new :: "u8 \<Rightarrow> conn" where
  "attach_new ch = \<lparr>c_channel = ch, c_in = [], c_in_end = Pending, c_sent = [], c_out = [],
     c_room = None, c_inbound = InRead, c_outbound = OutDrain\<rparr>"

text \<open>
  The inbound task.  \<open>read\<close> returns between 1 and 1024 of the bytes that are there (\<open>k\<close>
  says how many), 0 at the end of the stream, or an error; \<open>None\<close> while it has to wait.
\<close>

definition inbound_step :: "nat \<Rightarrow> conn \<Rightarrow> server \<Rightarrow> (conn \<times> server) option" where
  "inbound_step k c s =
    (case c_inbound c of
       InRead \<Rightarrow>
         (if c_in c \<noteq> [] then
            (let n = max 1 (min k 1024) in
             Some (c\<lparr>c_in := drop n (c_in c), c_inbound := InSend (take n (c_in c))\<rparr>, s))
          else (case c_in_end c of
                  Pending \<Rightarrow> None
                | Closed \<Rightarrow> Some (c\<lparr>c_inbound := InDone\<rparr>, s)
                | Broken \<Rightarrow> Some (c\<lparr>c_inbound := InDone\<rparr>, s)))
     | InSend buf \<Rightarrow> Some (c\<lparr>c_inbound := InRead\<rparr>, send_to_vserial (c_channel c) buf s)
     | InDone \<Rightarrow> None)"

definition client_write :: "bytes \<Rightarrow> conn \<Rightarrow> conn" where
  "client_write bs c =
    (case c_room c of
       None \<Rightarrow> c\<lparr>c_out := c_out c @ bs, c_outbound := OutDrain\<rparr>
     | Some n \<Rightarrow>
         (if length bs \<le> n then c\<lparr>c_out := c_out c @ bs, c_room := Some (n - length bs), c_outbound := OutDrain\<rparr>
          else c\<lparr>c_out := c_out c @ take n bs, c_room := Some 0, c_outbound := OutDone\<rparr>))"

text \<open>The outbound task of connection \<open>i\<close>; \<open>None\<close> while it sleeps and once it has ended.\<close>

definition outbound_step :: "nat \<Rightarrow> conn \<Rightarrow> server \<Rightarrow> (conn \<times> server) option" where
  "outbound_step i c s =
    (case c_outbound c of
       OutDrain \<Rightarrow>
         (let (bs, s') = drain_vserial (c_channel c) s in
          if bs \<noteq> [] then Some (c\<lparr>c_outbound := OutWrite bs\<rparr>, s')
          else Some (c\<lparr>c_outbound := OutWait\<rparr>, s'))
     | OutWrite bs \<Rightarrow> Some (client_write bs c, s)
     | OutWait \<Rightarrow>
         (case wait_vserial_inbox i (c_channel c) s of
            (ready, s') \<Rightarrow> Some (c\<lparr>c_outbound := if ready then OutDrain else OutSleep\<rparr>, s'))
     | OutSleep \<Rightarrow>
         (case wake_vserial_inbox i (c_channel c) s of
            (ready, s') \<Rightarrow> if ready then Some (c\<lparr>c_outbound := OutDrain\<rparr>, s') else None)
     | OutDone \<Rightarrow> None)"

text \<open>
  \<open>tokio::select!\<close>: \<open>handle_attach\<close> returns as soon as one of the tasks has ended.  It
  drops the handle of the other task, which goes on running.
\<close>

definition attach_returned :: "conn \<Rightarrow> bool" where
  "attach_returned c \<longleftrightarrow> c_inbound c = InDone \<or> c_outbound c = OutDone"

section \<open>The system\<close>

text \<open>
  All connections ever accepted, the pushes whose notification is still to come, and two
  records of the past: what the guests wrote to each channel and what was delivered to
  them from it.
\<close>

record asys =
  y_shared :: shared
  y_conns :: "conn list"
  y_pending :: "u8 list"
  y_written :: "u8 \<Rightarrow> bytes"
  y_got :: "u8 \<Rightarrow> bytes"

definition asys_new :: "filesys \<Rightarrow> asys" where
  "asys_new f = \<lparr>y_shared = (server_new, f), y_conns = [], y_pending = [],
     y_written = (\<lambda>_. []), y_got = (\<lambda>_. [])\<rparr>"

fun is_push :: "request \<Rightarrow> bool" where
  "is_push (SerWriteReq _ _) = True"
| "is_push (FastWriteReq _ _) = True"
| "is_push _ = False"

datatype action =
    Connect u8
  | ClientSend nat bytes
  | ClientEnd nat read_end
  | ClientBreak nat nat
  | Inbound nat nat
  | Outbound nat
  | GuestReq clock request
  | GuestStore u8 u8
  | GuestNotify

inductive attach_step :: "action \<Rightarrow> asys \<Rightarrow> asys \<Rightarrow> bool" where
  connect: "attach_step (Connect ch) y (y\<lparr>y_conns := y_conns y @ [attach_new ch]\<rparr>)"
| client_send: "i < length (y_conns y) \<Longrightarrow> c = y_conns y ! i \<Longrightarrow> c_in_end c = Pending \<Longrightarrow>
    attach_step (ClientSend i bs) y
      (y\<lparr>y_conns := (y_conns y)[i := c\<lparr>c_in := c_in c @ bs, c_sent := c_sent c @ bs\<rparr>]\<rparr>)"
| client_end: "i < length (y_conns y) \<Longrightarrow> c = y_conns y ! i \<Longrightarrow> e \<noteq> Pending \<Longrightarrow>
    attach_step (ClientEnd i e) y (y\<lparr>y_conns := (y_conns y)[i := c\<lparr>c_in_end := e\<rparr>]\<rparr>)"
| client_break: "i < length (y_conns y) \<Longrightarrow> c = y_conns y ! i \<Longrightarrow>
    attach_step (ClientBreak i n) y (y\<lparr>y_conns := (y_conns y)[i := c\<lparr>c_room := Some n\<rparr>]\<rparr>)"
| inbound: "i < length (y_conns y) \<Longrightarrow> y_shared y = (s, f) \<Longrightarrow>
    inbound_step k (y_conns y ! i) s = Some (c', s') \<Longrightarrow>
    attach_step (Inbound i k) y (y\<lparr>y_conns := (y_conns y)[i := c'], y_shared := (s', f)\<rparr>)"
| outbound: "i < length (y_conns y) \<Longrightarrow> y_shared y = (s, f) \<Longrightarrow>
    outbound_step i (y_conns y ! i) s = Some (c', s') \<Longrightarrow>
    attach_step (Outbound i) y (y\<lparr>y_conns := (y_conns y)[i := c'], y_shared := (s', f)\<rparr>)"
| guest_req: "wf_request r \<Longrightarrow> \<not> is_push r \<Longrightarrow> e = Guest clk r \<Longrightarrow>
    attach_step (GuestReq clk r) y
      (y\<lparr>y_shared := after e (y_shared y),
         y_written := (\<lambda>ch. y_written y ch @ inbox_ins ch e),
         y_got := (\<lambda>ch. y_got y ch @ outbox_outs ch e (y_shared y))\<rparr>)"
| guest_store: "y_shared y = (s, f) \<Longrightarrow> valid_channel ch \<Longrightarrow>
    attach_step (GuestStore ch b) y
      (y\<lparr>y_shared := (push_store ch b s, f), y_pending := y_pending y @ [ch],
         y_written := (y_written y)(ch := y_written y ch @ [b])\<rparr>)"
| guest_notify: "y_pending y = ps @ ch # ps' \<Longrightarrow> y_shared y = (s, f) \<Longrightarrow>
    attach_step GuestNotify y (y\<lparr>y_shared := (push_notify ch s, f), y_pending := ps @ ps'\<rparr>)"

inductive attach_reach :: "(action \<Rightarrow> bool) \<Rightarrow> filesys \<Rightarrow> asys \<Rightarrow> bool" for allowed f where
  start: "attach_reach allowed f (asys_new f)"
| step: "attach_reach allowed f y \<Longrightarrow> attach_step a y y' \<Longrightarrow> allowed a \<Longrightarrow> attach_reach allowed f y'"

inductive_cases attach_stepE: "attach_step a y y'"

text \<open>Executions computed: \<open>GuestNotify\<close> makes the oldest notification.\<close>

fun attach_perform :: "action \<Rightarrow> asys \<Rightarrow> asys option" where
  "attach_perform (Connect ch) y = Some (y\<lparr>y_conns := y_conns y @ [attach_new ch]\<rparr>)"
| "attach_perform (ClientSend i bs) y =
    (if i < length (y_conns y) \<and> c_in_end (y_conns y ! i) = Pending then
       (let c = y_conns y ! i in
        Some (y\<lparr>y_conns := (y_conns y)[i := c\<lparr>c_in := c_in c @ bs, c_sent := c_sent c @ bs\<rparr>]\<rparr>))
     else None)"
| "attach_perform (ClientEnd i e) y =
    (if i < length (y_conns y) \<and> e \<noteq> Pending
     then Some (y\<lparr>y_conns := (y_conns y)[i := (y_conns y ! i)\<lparr>c_in_end := e\<rparr>]\<rparr>) else None)"
| "attach_perform (ClientBreak i n) y =
    (if i < length (y_conns y)
     then Some (y\<lparr>y_conns := (y_conns y)[i := (y_conns y ! i)\<lparr>c_room := Some n\<rparr>]\<rparr>) else None)"
| "attach_perform (Inbound i k) y =
    (if i < length (y_conns y) then
       (case inbound_step k (y_conns y ! i) (fst (y_shared y)) of
          None \<Rightarrow> None
        | Some (c', s') \<Rightarrow> Some (y\<lparr>y_conns := (y_conns y)[i := c'], y_shared := (s', snd (y_shared y))\<rparr>))
     else None)"
| "attach_perform (Outbound i) y =
    (if i < length (y_conns y) then
       (case outbound_step i (y_conns y ! i) (fst (y_shared y)) of
          None \<Rightarrow> None
        | Some (c', s') \<Rightarrow> Some (y\<lparr>y_conns := (y_conns y)[i := c'], y_shared := (s', snd (y_shared y))\<rparr>))
     else None)"
| "attach_perform (GuestReq clk r) y =
    (if wf_request r \<and> \<not> is_push r then
       (let e = Guest clk r in
        Some (y\<lparr>y_shared := after e (y_shared y),
                y_written := (\<lambda>ch. y_written y ch @ inbox_ins ch e),
                y_got := (\<lambda>ch. y_got y ch @ outbox_outs ch e (y_shared y))\<rparr>))
     else None)"
| "attach_perform (GuestStore ch b) y =
    (if valid_channel ch
     then Some (y\<lparr>y_shared := (push_store ch b (fst (y_shared y)), snd (y_shared y)), y_pending := y_pending y @ [ch],
         y_written := (y_written y)(ch := y_written y ch @ [b])\<rparr>)
     else None)"
| "attach_perform GuestNotify y =
    (case y_pending y of
       [] \<Rightarrow> None
     | ch # ps \<Rightarrow> Some (y\<lparr>y_shared := (push_notify ch (fst (y_shared y)), snd (y_shared y)), y_pending := ps\<rparr>))"

lemma attach_performI: "attach_perform a y = Some y' \<Longrightarrow> attach_step a y y'"
  using attach_step.guest_notify [of y "[]"]
  by (cases a) (auto simp: Let_def prod_eq_iff intro: attach_step.intros split: if_splits option.splits list.splits)

fun attach_performs :: "action list \<Rightarrow> asys \<Rightarrow> asys option" where
  "attach_performs [] y = Some y"
| "attach_performs (a # as) y = (case attach_perform a y of None \<Rightarrow> None | Some y' \<Rightarrow> attach_performs as y')"

lemma attach_performs_reach:
  assumes "attach_performs as y = Some y'" "attach_reach allowed f y" "list_all allowed as"
  shows "attach_reach allowed f y'"
  using assms by (induction as arbitrary: y) (auto split: option.splits intro: attach_reach.step attach_performI)

section \<open>What one step of a task does\<close>

lemma push_store_queues [queue_simps]:
  assumes "server_wf s"
  shows "inbox_of c (push_store d b s) = inbox_of c s @ (if c = d \<and> valid_channel d then [b] else [])"
    "outbox_of c (push_store d b s) = outbox_of c s" "notify_of c (push_store d b s) = notify_of c s"
    "server_wf (push_store d b s)"
  using assms by (auto simp: queue_defs push_store_def server_wf_def Let_def nth_list_update word_unat_eq_iff)

lemma push_notify_queues [queue_simps]:
  assumes "server_wf s"
  shows "inbox_of c (push_notify d s) = inbox_of c s" "outbox_of c (push_notify d s) = outbox_of c s"
    "notify_of c (push_notify d s) = (if c = d \<and> valid_channel d then notify_one (notify_of c s) else notify_of c s)"
    "server_wf (push_notify d s)"
  using assms by (auto simp: queue_defs push_notify_def server_wf_def Let_def nth_list_update word_unat_eq_iff)

lemma outbound_cases [consumes 1, case_names drains writes waits wakes]:
  assumes "outbound_step i c s = Some (c', s')"
  obtains "c_outbound c = OutDrain" "s' = snd (drain_vserial (c_channel c) s)"
      "c' = c\<lparr>c_outbound := if inbox_of (c_channel c) s = [] then OutWait else OutWrite (inbox_of (c_channel c) s)\<rparr>"
  | bs where "c_outbound c = OutWrite bs" "s' = s" "c' = client_write bs c"
  | "c_outbound c = OutWait" "s' = snd (wait_vserial_inbox i (c_channel c) s)"
      "c' = c\<lparr>c_outbound := if fst (wait_vserial_inbox i (c_channel c) s) then OutDrain else OutSleep\<rparr>"
  | "c_outbound c = OutSleep" "fst (wake_vserial_inbox i (c_channel c) s)"
      "s' = snd (wake_vserial_inbox i (c_channel c) s)" "c' = c\<lparr>c_outbound := OutDrain\<rparr>"
  using assms
  by (cases "c_outbound c")
    (auto simp: outbound_step_def case_prod_beta' Let_def drain_result split: if_splits)

text \<open>Bytes a task holds between two sections.\<close>

fun in_flight :: "in_task \<Rightarrow> bytes" where
  "in_flight (InSend bs) = bs"
| "in_flight _ = []"

fun out_flight :: "out_task \<Rightarrow> bytes" where
  "out_flight (OutWrite bs) = bs"
| "out_flight _ = []"

lemma inbound_laws:
  assumes "inbound_step k c s = Some (c', s')" "server_wf s"
  shows "server_wf s' \<and> c_channel c' = c_channel c \<and> c_out c' = c_out c \<and> c_outbound c' = c_outbound c \<and>
    c_room c' = c_room c \<and> c_sent c' = c_sent c \<and>
    inbox_of ch s' = inbox_of ch s \<and> notify_of ch s' = notify_of ch s \<and>
    (ch \<noteq> c_channel c \<longrightarrow> outbox_of ch s' = outbox_of ch s) \<and>
    (valid_channel (c_channel c) \<longrightarrow> outbox_of (c_channel c) s' @ in_flight (c_inbound c') @ c_in c' =
       outbox_of (c_channel c) s @ in_flight (c_inbound c) @ c_in c)"
  using assms
  by (auto simp: inbound_step_def Let_def queue_simps wf_intros split: in_task.splits if_splits read_end.splits)

lemma client_write_laws:
  "c_channel (client_write bs c) = c_channel c \<and> c_inbound (client_write bs c) = c_inbound c \<and>
   c_in (client_write bs c) = c_in c \<and> c_sent (client_write bs c) = c_sent c \<and>
   (c_room (client_write bs c) = None \<longrightarrow> c_room c = None \<and>
      c_out (client_write bs c) = c_out c @ bs \<and> c_outbound (client_write bs c) = OutDrain) \<and>
   c_outbound (client_write bs c) \<in> {OutDrain, OutDone}"
  by (auto simp: client_write_def split: option.splits)

lemma outbound_laws:
  assumes "outbound_step i c s = Some (c', s')" "server_wf s"
  shows "server_wf s' \<and> c_channel c' = c_channel c \<and> c_inbound c' = c_inbound c \<and> c_in c' = c_in c \<and>
    c_sent c' = c_sent c \<and> outbox_of ch s' = outbox_of ch s \<and>
    (ch \<noteq> c_channel c \<longrightarrow> inbox_of ch s' = inbox_of ch s \<and> notify_of ch s' = notify_of ch s) \<and>
    (c_room c' = None \<longrightarrow> c_room c = None \<and> c_out c' @ out_flight (c_outbound c') @ inbox_of (c_channel c) s' =
       c_out c @ out_flight (c_outbound c) @ inbox_of (c_channel c) s)"
  using assms(1)
proof (cases rule: outbound_cases)
  case (writes bs)
  with assms client_write_laws [of bs c] show ?thesis by auto
qed (use assms(2) in \<open>auto simp: queue_simps wf_intros\<close>)

lemma attach_step_wf:
  "attach_step a y y' \<Longrightarrow> server_wf (fst (y_shared y)) \<Longrightarrow> server_wf (fst (y_shared y'))"
  by (induction rule: attach_step.induct)
    (auto simp: queue_simps intro!: server_wf_after dest: inbound_laws outbound_laws)

lemma attach_reach_wf: "attach_reach allowed f y \<Longrightarrow> server_wf (fst (y_shared y))"
  by (induction rule: attach_reach.induct) (auto simp: asys_new_def attach_step_wf)

section \<open>Who sleeps\<close>

text \<open>
  The sleeping tasks of a channel are exactly those queued at its notification, waiting or
  already notified, and a permit is stored only while none waits.
\<close>

definition sleepers :: "u8 \<Rightarrow> conn list \<Rightarrow> nat set" where
  "sleepers ch cs = {i. i < length cs \<and> c_channel (cs ! i) = ch \<and> c_outbound (cs ! i) = OutSleep}"

definition notify_ok :: "notify \<Rightarrow> nat set \<Rightarrow> bool" where
  "notify_ok n tasks \<longleftrightarrow> distinct (nt_waiters n @ nt_woken n) \<and> set (nt_waiters n @ nt_woken n) = tasks \<and>
     (nt_permit n \<longrightarrow> nt_waiters n = [])"

lemma notify_ok_one: "notify_ok n tasks \<Longrightarrow> notify_ok (notify_one n) tasks"
  by (auto simp: notify_ok_def notify_one_def split: list.split)

lemma notify_ok_poll:
  "notify_ok n tasks \<Longrightarrow> i \<notin> tasks \<Longrightarrow>
    notify_ok (snd (poll_notified i n)) (if nt_permit n then tasks else insert i tasks)"
  by (auto simp: notify_ok_def poll_notified_def)

lemma notify_ok_repoll:
  "notify_ok n tasks \<Longrightarrow> i \<in> set (nt_woken n) \<Longrightarrow> notify_ok (snd (repoll_notified i n)) (tasks - {i})"
  by (auto simp: notify_ok_def repoll_notified_def)

lemma sleepers_update:
  "j < length cs \<Longrightarrow> c_channel c' = c_channel (cs ! j) \<Longrightarrow> sleepers ch (cs[j := c']) =
    (if c_channel c' = ch \<and> c_outbound c' = OutSleep then insert j (sleepers ch cs) else sleepers ch cs - {j})"
  by (auto simp: sleepers_def nth_list_update split: if_splits)

lemma sleepers_same:
  "j < length cs \<Longrightarrow> c_channel c' = c_channel (cs ! j) \<Longrightarrow> c_outbound c' = c_outbound (cs ! j) \<Longrightarrow>
    sleepers ch (cs[j := c']) = sleepers ch cs"
  by (auto simp: sleepers_def nth_list_update)

lemma sleepers_connect: "sleepers ch (cs @ [attach_new d]) = sleepers ch cs"
  by (auto simp: sleepers_def nth_append attach_new_def split: if_splits)

lemma spec_step_wake: "\<not> is_push r \<Longrightarrow> a_wake (snd (spec_step c r a)) = a_wake a"
proof (cases r)
  case (Bare opc)
  then show ?thesis by (cases opc) (auto simp: a_poll_def Let_def split: option.split)
qed (auto simp: Let_def a_set_open_def a_fetch_def a_receive_def split: option.split prod.split sum.split)

lemma guest_req_queues:
  assumes "server_wf (fst sf)" "wf_request r" "\<not> is_push r"
  shows "notify_of ch (fst (after (Guest clk r) sf)) = notify_of ch (fst sf) \<and>
    (valid_channel ch \<longrightarrow>
      inbox_of ch (fst (after (Guest clk r) sf)) = inbox_of ch (fst sf) @ inbox_ins ch (Guest clk r) \<and>
      outbox_outs ch (Guest clk r) sf @ outbox_of ch (fst (after (Guest clk r) sf)) = outbox_of ch (fst sf))"
proof -
  have "notify_of ch (fst (after (Guest clk r) sf)) = a_wake (snd (spec_step clk r (abs_st (fst sf) (snd sf)))) ch"
    using guest_event_spec [OF assms(2,1), of clk] by (metis abs_st_simps(7) after_def exec.simps(1))
  then show ?thesis
    using after_inbox [of sf "Guest clk r" ch] after_outbox [of sf "Guest clk r" ch] assms
    by (simp add: spec_step_wake)
qed

definition queued :: "u8 \<Rightarrow> asys \<Rightarrow> bool" where
  "queued ch y \<longleftrightarrow> notify_ok (notify_of ch (fst (y_shared y))) (sleepers ch (y_conns y))"

lemma queued_outbound:
  assumes "queued ch y" "i < length (y_conns y)" "y_shared y = (s, f)" "server_wf s" "valid_channel ch"
    and o: "outbound_step i (y_conns y ! i) s = Some (c', s')"
  shows "queued ch (y\<lparr>y_conns := (y_conns y)[i := c'], y_shared := (s', f)\<rparr>)"
proof -
  let ?cs = "y_conns y"
  have ok: "notify_ok (notify_of ch s) (sleepers ch ?cs)" using assms(1,3) by (simp add: queued_def)
  have chn: "c_channel c' = c_channel (?cs ! i)" using outbound_laws [OF o assms(4)] by blast
  have i: "i \<in> sleepers ch ?cs \<longleftrightarrow> c_channel (?cs ! i) = ch \<and> c_outbound (?cs ! i) = OutSleep"
    using assms(2) by (simp add: sleepers_def)
  note upd = sleepers_update [OF assms(2) chn, of ch]
  from o have "notify_ok (notify_of ch s') (sleepers ch (?cs[i := c']))"
  proof (cases rule: outbound_cases)
    case drains
    with ok upd assms(4) i show ?thesis by (simp add: queue_simps)
  next
    case (writes bs)
    with ok upd assms(4) i client_write_laws [of bs "?cs ! i"] show ?thesis by auto
  next
    case waits
    with ok upd assms(4,5) i notify_ok_poll [OF ok, of i] show ?thesis
      by (auto simp: queue_simps split: if_splits)
  next
    case wakes
    with ok upd assms(4,5) i notify_ok_repoll [OF ok, of i] show ?thesis
      by (auto simp: queue_simps split: if_splits)
  qed
  then show ?thesis by (simp add: queued_def)
qed

lemma queued_step:
  assumes "attach_step a y y'" "server_wf (fst (y_shared y))" "valid_channel ch" "queued ch y"
  shows "queued ch y'"
  using assms(1)
proof cases
  case (inbound i s f k c' s')
  with assms(2,4) inbound_laws [of k "y_conns y ! i" s c' s' ch] show ?thesis
    by (simp add: queued_def sleepers_same)
next
  case (outbound i s f c' s')
  with assms(2-4) show ?thesis by (auto intro!: queued_outbound)
next
  case (guest_req r e clk)
  with assms(4) guest_req_queues [OF assms(2), of r ch clk] show ?thesis by (simp add: queued_def)
next
  case (guest_notify ps ch' ps' s f)
  with assms(2-4) show ?thesis by (auto simp: queued_def queue_simps intro: notify_ok_one)
qed (use assms(2,4) in \<open>simp_all add: queued_def queue_simps sleepers_same sleepers_connect\<close>)

lemma attach_reach_queued: "attach_reach allowed f y \<Longrightarrow> valid_channel ch \<Longrightarrow> queued ch y"
proof (induction rule: attach_reach.induct)
  case start
  then show ?case by (simp add: queued_def asys_new_def notify_ok_def notify_new_def sleepers_def)
next
  case (step y a y')
  then show ?case by (metis queued_step attach_reach_wf)
qed

section \<open>Wake-ups\<close>

text \<open>
  Bytes are never left in an inbox unnoticed: there is a stored permit, a task that has been
  woken, a notification under way, or a task about to drain.
\<close>

definition awake :: "u8 \<Rightarrow> asys \<Rightarrow> bool" where
  "awake ch y \<longleftrightarrow> (inbox_of ch (fst (y_shared y)) \<noteq> [] \<longrightarrow>
     nt_permit (notify_of ch (fst (y_shared y))) \<or> nt_woken (notify_of ch (fst (y_shared y))) \<noteq> [] \<or>
     ch \<in> set (y_pending y) \<or> (\<exists>c \<in> set (y_conns y). c_channel c = ch \<and> c_outbound c = OutDrain))"

fun burst_to :: "u8 \<Rightarrow> action \<Rightarrow> bool" where
  "burst_to ch (GuestReq _ (SerWriteMReq ch' bs)) \<longleftrightarrow> ch' = ch \<and> bs \<noteq> []"
| "burst_to ch _ \<longleftrightarrow> False"

lemma burst_ins: "\<not> is_push r \<Longrightarrow> \<not> burst_to ch (GuestReq clk r) \<Longrightarrow> inbox_ins ch (Guest clk r) = []"
  by (cases r) auto

lemma inbox_valid: "inbox_of ch s \<noteq> [] \<Longrightarrow> valid_channel ch"
  by (auto simp: inbox_of_def split: if_splits)

lemma conn_drain_update:
  assumes "c \<in> set cs" "c_channel c = ch" "c_outbound c = OutDrain" "i < length cs"
    and "c_channel c' = c_channel (cs ! i)" "c_outbound (cs ! i) = OutDrain \<longrightarrow> c_outbound c' = OutDrain"
  shows "\<exists>x \<in> set (cs[i := c']). c_channel x = ch \<and> c_outbound x = OutDrain"
proof -
  obtain j where "j < length cs" "cs ! j = c" using assms(1) by (auto simp: in_set_conv_nth)
  with assms have "c_channel (cs[i := c'] ! j) = ch" "c_outbound (cs[i := c'] ! j) = OutDrain"
      "j < length (cs[i := c'])"
    by (auto simp: nth_list_update)
  then show ?thesis by (metis nth_mem)
qed

text \<open>
  One connection changes and the notification is only ever used up for a task that drains:
  nobody who was about to drain gives up, unless the inbox is empty.
\<close>

lemma awake_conn:
  assumes "awake ch y" "i < length (y_conns y)" "c_channel c' = c_channel (y_conns y ! i)" "y_shared y = (s, f)"
    and "c_outbound (y_conns y ! i) = OutDrain \<longrightarrow> c_outbound c' = OutDrain"
    and "inbox_of ch s' = inbox_of ch s"
    and "nt_permit (notify_of ch s) \<longrightarrow> nt_permit (notify_of ch s')"
    and "nt_woken (notify_of ch s) \<noteq> [] \<longrightarrow> nt_woken (notify_of ch s') \<noteq> []"
  shows "awake ch (y\<lparr>y_conns := (y_conns y)[i := c'], y_shared := (s', f)\<rparr>)"
  using assms conn_drain_update [of _ "y_conns y" ch i c'] unfolding awake_def
  by (auto simp del: set_update_memI)

lemma awake_drains:
  assumes "i < length (y_conns y)" "c_channel c' = ch" "c_outbound c' = OutDrain"
  shows "awake ch (y\<lparr>y_conns := (y_conns y)[i := c'], y_shared := sf\<rparr>)"
  using set_update_memI [OF assms(1), of c'] assms(2,3) unfolding awake_def by auto

lemma awake_empty: "inbox_of ch s = [] \<Longrightarrow> awake ch (y\<lparr>y_conns := cs, y_shared := (s, f)\<rparr>)"
  by (simp add: awake_def)

lemma awake_other:
  assumes "awake ch y" "i < length (y_conns y)" "c_channel c' = c_channel (y_conns y ! i)" "y_shared y = (s, f)"
    and "c_channel (y_conns y ! i) \<noteq> ch" "inbox_of ch s' = inbox_of ch s" "notify_of ch s' = notify_of ch s"
  shows "awake ch (y\<lparr>y_conns := (y_conns y)[i := c'], y_shared := (s', f)\<rparr>)"
proof -
  have "c \<in> set ((y_conns y)[i := c'])" if "c \<in> set (y_conns y)" "c_channel c = ch" for c
    using that assms(5) by (metis in_set_conv_nth length_list_update nth_list_update_neq)
  with assms show ?thesis unfolding awake_def by auto
qed

lemma awake_outbound:
  assumes "awake ch y" "i < length (y_conns y)" "y_shared y = (s, f)" "server_wf s"
    and o: "outbound_step i (y_conns y ! i) s = Some (c', s')"
  shows "awake ch (y\<lparr>y_conns := (y_conns y)[i := c'], y_shared := (s', f)\<rparr>)"
proof (cases "c_channel (y_conns y ! i) = ch")
  case False
  with outbound_laws [OF o assms(4), of ch] show ?thesis
    by (intro awake_other [OF assms(1,2) _ assms(3)]) auto
next
  case True
  have chn: "c_channel c' = ch" using outbound_laws [OF o assms(4)] True by simp
  from o show ?thesis
  proof (cases rule: outbound_cases)
    case drains
    with assms(4) True show ?thesis by (intro awake_empty) (simp add: queue_simps)
  next
    case (writes bs)
    with assms(4) True chn show ?thesis
      by (intro awake_conn [OF assms(1,2) _ assms(3)]) auto
  next
    case waits
    show ?thesis
    proof (cases "fst (wait_vserial_inbox i ch s)")
      case False
      with waits assms(4) True show ?thesis
        by (intro awake_conn [OF assms(1,2) _ assms(3)]) (auto simp: queue_simps poll_notified_def)
    qed (use waits assms(2) chn True in \<open>auto intro: awake_drains\<close>)
  next
    case wakes
    with assms(2) chn show ?thesis by (intro awake_drains) auto
  qed
qed

lemma awake_step:
  assumes "attach_step a y y'" "\<not> burst_to ch a" "server_wf (fst (y_shared y))" "awake ch y"
  shows "awake ch y'"
  using assms(1)
proof cases
  case (inbound i s f k c' s')
  with assms(3) inbound_laws [of k "y_conns y ! i" s c' s' ch] assms(4) show ?thesis
    by (auto intro!: awake_conn)
next
  case (outbound i s f c' s')
  with assms(3,4) show ?thesis by (auto intro!: awake_outbound)
next
  case (guest_req r e clk)
  with guest_req_queues [OF assms(3), of r ch clk] burst_ins [of r ch clk] assms(2,4)
    inbox_valid [of ch "fst (after e (y_shared y))"] show ?thesis
    by (auto simp: awake_def)
next
  case (guest_store s f ch' b)
  with assms(3,4) show ?thesis by (auto simp: awake_def queue_simps)
next
  case (guest_notify ps ch' ps' s f)
  with assms(3,4) inbox_valid [of ch s] show ?thesis
    by (auto simp: awake_def queue_simps notify_one_def split: list.split)
next
  case (connect ch')
  with assms(4) show ?thesis by (auto simp: awake_def)
next
  case (client_send i c bs)
  with awake_conn [OF assms(4), of i "c\<lparr>c_in := c_in c @ bs, c_sent := c_sent c @ bs\<rparr>"
      "fst (y_shared y)" "snd (y_shared y)" "fst (y_shared y)"] show ?thesis by simp
next
  case (client_end i c e)
  with awake_conn [OF assms(4), of i "c\<lparr>c_in_end := e\<rparr>"
      "fst (y_shared y)" "snd (y_shared y)" "fst (y_shared y)"] show ?thesis by simp
next
  case (client_break i c n)
  with awake_conn [OF assms(4), of i "c\<lparr>c_room := Some n\<rparr>"
      "fst (y_shared y)" "snd (y_shared y)" "fst (y_shared y)"] show ?thesis by simp
qed

lemma attach_reach_awake: "attach_reach (\<lambda>a. \<not> burst_to ch a) f y \<Longrightarrow> awake ch y"
proof (induction rule: attach_reach.induct)
  case start
  then show ?case by (simp add: awake_def asys_new_def)
next
  case (step y a y')
  then show ?case by (metis awake_step attach_reach_wf)
qed

lemma outbound_ready:
  assumes "server_wf s" "valid_channel (c_channel c)"
  shows "outbound_step i c s \<noteq> None \<longleftrightarrow> c_outbound c \<noteq> OutDone \<and>
    (c_outbound c = OutSleep \<longrightarrow> i \<in> set (nt_woken (notify_of (c_channel c) s)))"
  using assms by (cases "c_outbound c") (auto simp: outbound_step_def case_prod_beta' Let_def queue_simps)

lemma outbound_asleep:
  assumes "server_wf s" "valid_channel (c_channel c)"
  shows "outbound_step i c s = None \<longleftrightarrow> c_outbound c = OutDone \<or>
    c_outbound c = OutSleep \<and> i \<notin> set (nt_woken (notify_of (c_channel c) s))"
  using outbound_ready [OF assms, of i] by blast

lemma woken_task:
  assumes "queued ch y" "w \<in> set (nt_woken (notify_of ch (fst (y_shared y))))"
  shows "w < length (y_conns y)" "c_channel (y_conns y ! w) = ch" "c_outbound (y_conns y ! w) = OutSleep"
proof -
  have "w \<in> sleepers ch (y_conns y)" using assms by (auto simp: queued_def notify_ok_def)
  then show "w < length (y_conns y)" "c_channel (y_conns y ! w) = ch" "c_outbound (y_conns y ! w) = OutSleep"
    by (auto simp: sleepers_def)
qed

text \<open>
  C3: no lost wake-ups for bytes pushed one at a time.  In every reachable state of any
  number of attached clients and guest sessions in which no \<open>SERWRITEM\<close> went to the
  channel, bytes queued for the host are noticed: a permit is stored, or a sleeping task of
  the channel has been woken, or a notification is still to be made, or a task of the
  channel is about to drain.  Hence, if no notification is under way and some task of
  the channel waits for bytes, then some task of the channel that waits or is about to drain
  can run: it is never the case that all of them sleep.
\<close>

theorem no_lost_wakeup:
  assumes "attach_reach (\<lambda>a. \<not> burst_to ch a) f y" "s = fst (y_shared y)" "inbox_of ch s \<noteq> []"
  shows "(nt_permit (notify_of ch s) \<or>
     (\<exists>i < length (y_conns y). c_channel (y_conns y ! i) = ch \<and> c_outbound (y_conns y ! i) = OutSleep \<and>
        i \<in> set (nt_woken (notify_of ch s))) \<or>
     ch \<in> set (y_pending y) \<or>
     (\<exists>c \<in> set (y_conns y). c_channel c = ch \<and> c_outbound c = OutDrain)) \<and>
    (ch \<notin> set (y_pending y) \<and>
     (\<exists>c \<in> set (y_conns y). c_channel c = ch \<and> (c_outbound c = OutWait \<or> c_outbound c = OutSleep)) \<longrightarrow>
       (\<exists>i < length (y_conns y). c_channel (y_conns y ! i) = ch \<and>
          c_outbound (y_conns y ! i) \<in> {OutDrain, OutWait, OutSleep} \<and> outbound_step i (y_conns y ! i) s \<noteq> None))"
    (is "?covered \<and> (?quiet \<longrightarrow> ?runs)")
proof (intro conjI impI)
  have ch: "valid_channel ch" using assms(3) by (rule inbox_valid)
  have wf: "server_wf s" using attach_reach_wf [OF assms(1)] assms(2) by simp
  have q: "queued ch y" using attach_reach_queued [OF assms(1) ch] .
  have woken: "\<exists>i < length (y_conns y). c_channel (y_conns y ! i) = ch \<and> c_outbound (y_conns y ! i) = OutSleep \<and>
      i \<in> set (nt_woken (notify_of ch s))" if "nt_woken (notify_of ch s) \<noteq> []"
    using woken_task [OF q, of "hd (nt_woken (notify_of ch s))"] that assms(2) by (intro exI) auto
  show c: ?covered
    using attach_reach_awake [OF assms(1)] assms(2,3) woken unfolding awake_def by blast
  assume ?quiet
  then obtain j where j: "j < length (y_conns y)" "c_channel (y_conns y ! j) = ch"
      "c_outbound (y_conns y ! j) = OutWait \<or> c_outbound (y_conns y ! j) = OutSleep"
    by (auto simp: in_set_conv_nth)
  note ready = outbound_ready [OF wf, of "y_conns y ! i" i for i]
  from c \<open>?quiet\<close> consider "nt_permit (notify_of ch s)" "\<not> (\<exists>i. i \<in> set (nt_woken (notify_of ch s)))"
    | i where "i < length (y_conns y)" "c_channel (y_conns y ! i) = ch" "c_outbound (y_conns y ! i) = OutSleep"
        "i \<in> set (nt_woken (notify_of ch s))"
    | i where "i < length (y_conns y)" "c_channel (y_conns y ! i) = ch" "c_outbound (y_conns y ! i) = OutDrain"
    using woken_task [OF q] assms(2) by (metis in_set_conv_nth)
  then show ?runs
  proof cases
    case 1
    have "c_outbound (y_conns y ! j) \<noteq> OutSleep"
    proof
      assume "c_outbound (y_conns y ! j) = OutSleep"
      then have "j \<in> sleepers ch (y_conns y)" using j by (simp add: sleepers_def)
      with q 1 assms(2) show False by (auto simp: queued_def notify_ok_def)
    qed
    with j ch ready [of j] show ?thesis by (intro exI [of _ j]) auto
  next
    case (2 i)
    with ch ready [of i] show ?thesis by (intro exI [of _ i]) auto
  next
    case (3 i)
    with ch ready [of i] show ?thesis by (intro exI [of _ i]) auto
  qed
qed

text \<open>A client attached to channel 1 whose outbound task has gone to sleep.\<close>

definition sleeping :: "action list" where
  "sleeping = [Connect 1, Outbound 0, Outbound 0]"

lemma performed_reach:
  assumes "attach_performs as (asys_new f) = Some y" "list_all allowed as"
  shows "attach_reach allowed f y"
  using attach_performs_reach [OF assms(1) attach_reach.start assms(2)] .

theorem no_lost_wakeup_witness:
  "\<exists>y. attach_performs (sleeping @ [GuestStore 1 65, GuestNotify]) (asys_new demo_fs) = Some y \<and>
     (\<exists>i < length (y_conns y). c_outbound (y_conns y ! i) \<in> {OutDrain, OutWait, OutSleep} \<and>
        outbound_step i (y_conns y ! i) (fst (y_shared y)) \<noteq> None)"
proof -
  let ?as = "sleeping @ [GuestStore 1 65, GuestNotify]"
  have "case attach_performs ?as (asys_new demo_fs) of None \<Rightarrow> False | Some y \<Rightarrow>
      inbox_of 1 (fst (y_shared y)) = [65] \<and> y_pending y = [] \<and>
      list_ex (\<lambda>c. c_channel c = 1 \<and> c_outbound c = OutSleep) (y_conns y)"
    by code_simp
  then obtain y where y: "attach_performs ?as (asys_new demo_fs) = Some y" "inbox_of 1 (fst (y_shared y)) = [65]"
      "y_pending y = []" "\<exists>c \<in> set (y_conns y). c_channel c = 1 \<and> c_outbound c = OutSleep"
    by (auto simp: list_ex_iff simp del: attach_performs.simps split: option.splits)
  have "attach_reach (\<lambda>a. \<not> burst_to 1 a) demo_fs y"
    by (rule performed_reach [OF y(1)]) (simp add: sleeping_def)
  from no_lost_wakeup [OF this refl] y show ?thesis by (intro exI [of _ y]) auto
qed

section \<open>Two ways to lose data\<close>

text \<open>
  C32: \<open>handle_serwritem\<close> does not wake the attached client.  It stores its bytes without
  the \<open>notify_one\<close> that \<open>push_vserial\<close> makes, and a state is reachable in which the guest
  has sent a burst, a live client is attached, no notification is under way and no task
  of the server can take a step: the bytes stay in the inbox until some later
  single-byte write happens to wake the client.
\<close>

theorem serwritem_leaves_client_asleep:
  "\<exists>y. attach_reach (\<lambda>_. True) demo_fs y \<and> y_written y 1 = [72, 105] \<and>
     inbox_of 1 (fst (y_shared y)) = [72, 105] \<and> y_pending y = [] \<and>
     (\<exists>c. y_conns y = [c] \<and> c_channel c = 1 \<and> \<not> attach_returned c \<and> c_out c = [] \<and>
       outbound_step 0 c (fst (y_shared y)) = None \<and> (\<forall>k. inbound_step k c (fst (y_shared y)) = None))"
proof -
  let ?as = "sleeping @ [GuestReq demo_clock (SerWriteMReq 1 [72, 105])]"
  have "case attach_performs ?as (asys_new demo_fs) of None \<Rightarrow> False | Some y \<Rightarrow>
      y_written y 1 = [72, 105] \<and> inbox_of 1 (fst (y_shared y)) = [72, 105] \<and> y_pending y = [] \<and>
      (case y_conns y of
         [c] \<Rightarrow> c_channel c = 1 \<and> \<not> attach_returned c \<and> c_out c = [] \<and> c_inbound c = InRead \<and> c_in c = [] \<and>
           c_in_end c = Pending \<and> Option.is_none (outbound_step 0 c (fst (y_shared y)))
       | _ \<Rightarrow> False)"
    by code_simp
  then obtain y c where y: "attach_performs ?as (asys_new demo_fs) = Some y" "y_written y 1 = [72, 105]"
      "inbox_of 1 (fst (y_shared y)) = [72, 105]" "y_pending y = []"
    and c: "y_conns y = [c]" "c_channel c = 1" "\<not> attach_returned c" "c_out c = []" "c_inbound c = InRead" "c_in c = []"
      "c_in_end c = Pending" "outbound_step 0 c (fst (y_shared y)) = None"
    by (auto simp: Option.is_none_def simp del: attach_performs.simps split: option.splits list.splits)
  have "attach_reach (\<lambda>_. True) demo_fs y"
    by (rule performed_reach [OF y(1)]) (simp add: sleeping_def)
  moreover have "inbound_step k c (fst (y_shared y)) = None" for k using c by (simp add: inbound_step_def)
  ultimately show ?thesis using y c by blast
qed

text \<open>
  C34: a client that leaves takes the next bytes with it.  When a client closes its side,
  \<open>handle_attach\<close> returns but its outbound task keeps running.  A state is reachable in
  which the handler of the first connection has returned, because its inbound task has
  ended, a second client is attached to the channel and sleeps, and a byte the guest wrote
  waits in the inbox; the task of the first connection is the one that was woken, while
  that of the second cannot run.  Three steps of that stale task later the byte is
  neither queued nor in transit nor with any client.
\<close>

theorem stale_task_steals_bytes:
  "\<exists>y0 y1 y2 y3 c0 c1 d0. attach_reach (\<lambda>_. True) demo_fs y0 \<and> y_written y0 1 = [65] \<and> y_pending y0 = [] \<and>
     inbox_of 1 (fst (y_shared y0)) = [65] \<and> y_conns y0 = [c0, c1] \<and> c_channel c0 = 1 \<and> c_channel c1 = 1 \<and>
     c_in_end c0 = Closed \<and> c_inbound c0 = InDone \<and> attach_returned c0 \<and> c_outbound c0 \<noteq> OutDone \<and> c_out c0 = [] \<and>
     c_in_end c1 = Pending \<and> \<not> attach_returned c1 \<and> c_room c1 = None \<and> c_out c1 = [] \<and>
     outbound_step 1 c1 (fst (y_shared y0)) = None \<and>
     attach_step (Outbound 0) y0 y1 \<and> attach_step (Outbound 0) y1 y2 \<and> attach_step (Outbound 0) y2 y3 \<and>
     inbox_of 1 (fst (y_shared y3)) = [] \<and> y_conns y3 = [d0, c1] \<and> c_out d0 = [] \<and> out_flight (c_outbound d0) = [] \<and>
     out_flight (c_outbound c1) = [] \<and> y_written y3 1 = [65]"
proof -
  let ?as = "sleeping @ [ClientEnd 0 Closed, ClientBreak 0 0, Inbound 0 0, Connect 1, Outbound 1, Outbound 1,
    GuestStore 1 65, GuestNotify]"
  have "case attach_performs ?as (asys_new demo_fs) of None \<Rightarrow> False | Some y0 \<Rightarrow>
      (case attach_performs [Outbound 0, Outbound 0, Outbound 0] y0 of None \<Rightarrow> False | Some y3 \<Rightarrow>
        y_written y0 1 = [65] \<and> y_pending y0 = [] \<and> inbox_of 1 (fst (y_shared y0)) = [65] \<and>
        inbox_of 1 (fst (y_shared y3)) = [] \<and> y_written y3 1 = [65] \<and>
        (case (y_conns y0, y_conns y3) of
           ([c0, c1], [d0, d1]) \<Rightarrow> c_channel c0 = 1 \<and> c_channel c1 = 1 \<and> c_in_end c0 = Closed \<and>
             c_inbound c0 = InDone \<and> attach_returned c0 \<and> c_outbound c0 \<noteq> OutDone \<and> c_out c0 = [] \<and>
             c_in_end c1 = Pending \<and> \<not> attach_returned c1 \<and> c_room c1 = None \<and> c_out c1 = [] \<and>
             Option.is_none (outbound_step 1 c1 (fst (y_shared y0))) \<and> d1 = c1 \<and>
             c_out d0 = [] \<and> out_flight (c_outbound d0) = [] \<and> out_flight (c_outbound c1) = []
         | _ \<Rightarrow> False))"
    by code_simp
  then obtain y0 y3 c0 c1 d0 where y: "attach_performs ?as (asys_new demo_fs) = Some y0"
      "attach_performs [Outbound 0, Outbound 0, Outbound 0] y0 = Some y3"
    and c: "y_written y0 1 = [65]" "y_pending y0 = []" "inbox_of 1 (fst (y_shared y0)) = [65]"
      "inbox_of 1 (fst (y_shared y3)) = []" "y_written y3 1 = [65]" "y_conns y0 = [c0, c1]" "y_conns y3 = [d0, c1]"
      "c_channel c0 = 1" "c_channel c1 = 1" "c_in_end c0 = Closed" "c_inbound c0 = InDone" "attach_returned c0"
      "c_outbound c0 \<noteq> OutDone" "c_out c0 = []" "c_in_end c1 = Pending" "\<not> attach_returned c1" "c_room c1 = None"
      "c_out c1 = []" "outbound_step 1 c1 (fst (y_shared y0)) = None" "c_out d0 = []" "out_flight (c_outbound d0) = []"
      "out_flight (c_outbound c1) = []"
    by (auto simp: Option.is_none_def simp del: attach_performs.simps split: option.splits list.splits)
  have r: "attach_reach (\<lambda>_. True) demo_fs y0"
    by (rule performed_reach [OF y(1)]) (simp add: sleeping_def)
  from y(2) obtain y1 y2 where "attach_perform (Outbound 0) y0 = Some y1" "attach_perform (Outbound 0) y1 = Some y2"
      "attach_perform (Outbound 0) y2 = Some y3"
    by (auto simp del: attach_perform.simps split: option.splits)
  from this [THEN attach_performI] r c show ?thesis by blast
qed

section \<open>The pipe between one client and the guest\<close>

text \<open>Connection \<open>i\<close> is the only one ever made to channel \<open>ch\<close>.\<close>

definition sole :: "u8 \<Rightarrow> nat \<Rightarrow> conn list \<Rightarrow> bool" where
  "sole ch i cs \<longleftrightarrow> i < length cs \<and> (\<forall>j < length cs. c_channel (cs ! j) = ch \<longleftrightarrow> j = i)"

definition pipe_out :: "u8 \<Rightarrow> conn \<Rightarrow> asys \<Rightarrow> bool" where
  "pipe_out ch c y \<longleftrightarrow> (c_room c = None \<longrightarrow>
     c_out c @ out_flight (c_outbound c) @ inbox_of ch (fst (y_shared y)) = y_written y ch)"

definition pipe_in :: "u8 \<Rightarrow> conn \<Rightarrow> asys \<Rightarrow> bool" where
  "pipe_in ch c y \<longleftrightarrow>
     y_got y ch @ outbox_of ch (fst (y_shared y)) @ in_flight (c_inbound c) @ c_in c = c_sent c"

definition pipe_inv :: "u8 \<Rightarrow> asys \<Rightarrow> bool" where
  "pipe_inv ch y \<longleftrightarrow>
     ((\<forall>c \<in> set (y_conns y). c_channel c \<noteq> ch) \<longrightarrow>
        inbox_of ch (fst (y_shared y)) = y_written y ch \<and>
        y_got y ch @ outbox_of ch (fst (y_shared y)) = []) \<and>
     (\<forall>i. sole ch i (y_conns y) \<longrightarrow>
        pipe_out ch (y_conns y ! i) y \<and> pipe_in ch (y_conns y ! i) y)"

lemmas pipe_defs = pipe_inv_def pipe_out_def pipe_in_def

lemma sole_update:
  "j < length cs \<Longrightarrow> c_channel c' = c_channel (cs ! j) \<Longrightarrow> sole ch i (cs[j := c']) \<longleftrightarrow> sole ch i cs"
  by (auto simp: sole_def nth_list_update)

lemma sole_append:
  assumes "sole ch i (cs @ [c])"
  shows "i < length cs \<and> sole ch i cs \<and> (cs @ [c]) ! i = cs ! i \<or>
    i = length cs \<and> c_channel c = ch \<and> (\<forall>x \<in> set cs. c_channel x \<noteq> ch)"
proof (cases "i < length cs")
  case True
  have "sole ch i cs"
    unfolding sole_def
  proof (intro conjI allI impI)
    fix j assume "j < length cs"
    with assms show "(c_channel (cs ! j) = ch) = (j = i)"
      by (auto simp: sole_def nth_append dest!: spec [of _ j])
  qed (rule True)
  with True show ?thesis by (simp add: nth_append)
next
  case False
  with assms have i: "i = length cs" by (simp add: sole_def)
  have "c_channel (cs ! j) \<noteq> ch" if "j < length cs" for j
    using assms that i by (auto simp: sole_def nth_append dest!: spec [of _ j])
  moreover have "c_channel c = ch"
    using assms i by (auto simp: sole_def nth_append dest!: spec [of _ i])
  ultimately show ?thesis using i by (auto simp: in_set_conv_nth)
qed

lemma channel_update:
  assumes "j < length cs" "c_channel c' = c_channel (cs ! j)"
  shows "(\<forall>c \<in> set (cs[j := c']). c_channel c \<noteq> ch) \<longleftrightarrow> (\<forall>c \<in> set cs. c_channel c \<noteq> ch)"
  using assms by (auto simp: all_set_conv_all_nth nth_list_update)

text \<open>One connection and the queues of its own channel change.\<close>

lemma pipe_inv_conn:
  assumes "pipe_inv ch y" "j < length (y_conns y)" "c = y_conns y ! j" "c_channel c' = c_channel c"
    and "y_shared y = (s, f)"
    and "c_channel c \<noteq> ch \<Longrightarrow> inbox_of ch s' = inbox_of ch s \<and> outbox_of ch s' = outbox_of ch s"
    and "c_channel c = ch \<Longrightarrow> c_room c' = None \<Longrightarrow> c_room c = None \<and>
      c_out c' @ out_flight (c_outbound c') @ inbox_of ch s' = c_out c @ out_flight (c_outbound c) @ inbox_of ch s"
    and "c_channel c = ch \<Longrightarrow> \<exists>more. c_sent c' = c_sent c @ more \<and>
      outbox_of ch s' @ in_flight (c_inbound c') @ c_in c' = outbox_of ch s @ in_flight (c_inbound c) @ c_in c @ more"
  shows "pipe_inv ch (y\<lparr>y_conns := (y_conns y)[j := c'], y_shared := (s', f)\<rparr>)"
proof (cases "c_channel c = ch")
  case False
  have nth: "(y_conns y)[j := c'] ! i = y_conns y ! i" if "sole ch i (y_conns y)" for i
    using that assms(2,3) False by (metis nth_list_update_neq sole_def)
  show ?thesis
    using assms(1) assms(6) [OF False] unfolding pipe_inv_def pipe_out_def pipe_in_def
    by (simp add: nth sole_update channel_update assms(2-5))
next
  case True
  then have none: "\<not> (\<forall>x \<in> set (y_conns y). c_channel x \<noteq> ch)" using assms(2,3) by auto
  have ij: "i = j" if "sole ch i (y_conns y)" for i
    using that True assms(2,3) by (auto simp: sole_def)
  from assms(8) [OF True] obtain more where more: "c_sent c' = c_sent c @ more"
      "outbox_of ch s' @ in_flight (c_inbound c') @ c_in c' = outbox_of ch s @ in_flight (c_inbound c) @ c_in c @ more"
    by blast
  have "pipe_out ch c' (y\<lparr>y_conns := (y_conns y)[j := c'], y_shared := (s', f)\<rparr>) \<and>
      pipe_in ch c' (y\<lparr>y_conns := (y_conns y)[j := c'], y_shared := (s', f)\<rparr>)"
    if "pipe_out ch c y" "pipe_in ch c y"
  proof -
    have "c_out c' @ out_flight (c_outbound c') @ inbox_of ch s' = y_written y ch" if "c_room c' = None"
      using that assms(7) [OF True that] \<open>pipe_out ch c y\<close> by (simp add: pipe_out_def assms(5))
    moreover have "y_got y ch @ outbox_of ch s @ in_flight (c_inbound c) @ c_in c @ more = c_sent c @ more"
      using \<open>pipe_in ch c y\<close> by (simp add: pipe_in_def assms(5) flip: append_assoc)
    ultimately show ?thesis by (simp add: pipe_out_def pipe_in_def more)
  qed
  with none ij assms(1-4) show ?thesis
    by (auto simp: pipe_inv_def sole_update channel_update)
qed

lemma pipe_inv_step:
  assumes st: "attach_step a y y'" and ch: "valid_channel ch"
    and wf: "server_wf (fst (y_shared y))" and pipe: "pipe_inv ch y"
  shows "pipe_inv ch y'"
  using st
proof cases
  case (inbound i s f k c' s')
  have "server_wf s" using wf inbound by simp
  note laws = inbound_laws [OF inbound(5) this, of ch]
  show ?thesis
    unfolding inbound(2)
    by (rule pipe_inv_conn [OF pipe inbound(3) refl _ inbound(4)]) (use laws ch in auto)
next
  case (outbound i s f c' s')
  have "server_wf s" using wf outbound by simp
  note laws = outbound_laws [OF outbound(5) this, of ch]
  show ?thesis
    unfolding outbound(2)
    by (rule pipe_inv_conn [OF pipe outbound(3) refl _ outbound(4)]) (use laws in auto)
next
  case (guest_req r e clk)
  have "inbox_of ch (fst (after e (y_shared y))) = inbox_of ch (fst (y_shared y)) @ inbox_ins ch e"
    "outbox_outs ch e (y_shared y) @ outbox_of ch (fst (after e (y_shared y))) = outbox_of ch (fst (y_shared y))"
    using guest_req_queues [OF wf, of r ch clk] guest_req ch by auto
  with pipe show ?thesis by (auto simp: guest_req(2) pipe_defs) (metis append_assoc)+
next
  case (guest_store s f ch' b)
  with pipe wf show ?thesis by (auto simp: pipe_defs queue_simps)
next
  case (guest_notify ps ch' ps' s f)
  with pipe wf show ?thesis by (auto simp: pipe_defs queue_simps)
next
  case (connect ch')
  with pipe show ?thesis
    by (auto simp: pipe_defs attach_new_def dest!: sole_append)
next
  case (client_send i c bs)
  with pipe_inv_conn [OF pipe, of i c "c\<lparr>c_in := c_in c @ bs, c_sent := c_sent c @ bs\<rparr>"
      "fst (y_shared y)" "snd (y_shared y)" "fst (y_shared y)"] show ?thesis by simp
next
  case (client_end i c e)
  with pipe_inv_conn [OF pipe, of i c "c\<lparr>c_in_end := e\<rparr>"
      "fst (y_shared y)" "snd (y_shared y)" "fst (y_shared y)"] show ?thesis by simp
next
  case (client_break i c n)
  with pipe_inv_conn [OF pipe, of i c "c\<lparr>c_room := Some n\<rparr>"
      "fst (y_shared y)" "snd (y_shared y)" "fst (y_shared y)"] show ?thesis by simp
qed

lemma attach_reach_pipe: "attach_reach allowed f y \<Longrightarrow> valid_channel ch \<Longrightarrow> pipe_inv ch y"
proof (induction rule: attach_reach.induct)
  case start
  then show ?case by (simp add: pipe_inv_def asys_new_def sole_def)
next
  case (step y a y')
  then show ?case by (metis pipe_inv_step attach_reach_wf)
qed

text \<open>
  C4: an attached client and the guest are joined by a pipe.  In every reachable state,
  for a channel to which one connection was ever made: the bytes written to the client,
  those its outbound task holds and those still in the inbox are, in this order, exactly
  what the guest wrote to the channel, as long as writing to the client has not failed;
  and the bytes delivered to the guest, those in the outbox, those the inbound task
  holds and those not read yet are exactly what the client sent.
\<close>

theorem attach_is_a_pipe:
  assumes "attach_reach (\<lambda>_. True) f y" "valid_channel ch" "sole ch i (y_conns y)"
    and "c = y_conns y ! i" "s = fst (y_shared y)"
  shows "(c_room c = None \<longrightarrow> c_out c @ out_flight (c_outbound c) @ inbox_of ch s = y_written y ch) \<and>
    y_got y ch @ outbox_of ch s @ in_flight (c_inbound c) @ c_in c = c_sent c"
  using attach_reach_pipe [OF assms(1,2)] assms(3-5) by (simp add: pipe_defs)

theorem attach_is_a_pipe_witness:
  "\<exists>y. attach_performs (sleeping @ [GuestStore 1 65, GuestNotify]) (asys_new demo_fs) = Some y \<and> y_written y 1 = [65] \<and>
     c_out (y_conns y ! 0) @ out_flight (c_outbound (y_conns y ! 0)) @ inbox_of 1 (fst (y_shared y)) = [65]"
proof -
  let ?as = "sleeping @ [GuestStore 1 65, GuestNotify]"
  have "case attach_performs ?as (asys_new demo_fs) of None \<Rightarrow> False | Some y \<Rightarrow>
      y_written y 1 = [65] \<and> length (y_conns y) = 1 \<and> c_channel (y_conns y ! 0) = 1 \<and> c_room (y_conns y ! 0) = None"
    by code_simp
  then obtain y where y: "attach_performs ?as (asys_new demo_fs) = Some y" "y_written y 1 = [65]"
      "sole 1 0 (y_conns y)" "c_room (y_conns y ! 0) = None"
    by (auto simp: sole_def simp del: attach_performs.simps length_0_conv length_greater_0_conv split: option.splits)
  have "attach_reach (\<lambda>_. True) demo_fs y"
    by (rule performed_reach [OF y(1)]) (simp add: sleeping_def)
  from attach_is_a_pipe [OF this _ y(3) refl refl] y show ?thesis
    by (intro exI [of _ y]) (simp add: VSERIAL_CHANNELS_def del: attach_performs.simps)
qed

section \<open>Delivery\<close>

text \<open>The outbound task of connection \<open>i\<close> run for at most so many steps, until it sleeps or ends.\<close>

fun outbound_run :: "nat \<Rightarrow> nat \<Rightarrow> conn \<times> server \<Rightarrow> conn \<times> server" where
  "outbound_run 0 i cs = cs"
| "outbound_run (Suc n) i (c, s) =
    (case outbound_step i c s of None \<Rightarrow> (c, s) | Some cs' \<Rightarrow> outbound_run n i cs')"

lemma outbound_run_Suc: "outbound_step i c s = Some cs' \<Longrightarrow> outbound_run (Suc n) i (c, s) = outbound_run n i cs'"
  by simp

text \<open>The task of a working connection has delivered \<open>out\<close> and sleeps with nothing left to do.\<close>

fun delivered :: "nat \<Rightarrow> u8 \<Rightarrow> bytes \<Rightarrow> conn \<times> server \<Rightarrow> bool" where
  "delivered i ch out (c, s) \<longleftrightarrow> c_out c = out \<and> inbox_of ch s = [] \<and> c_outbound c = OutSleep \<and> outbound_step i c s = None"

text \<open>
  What a run starts from: the only task of an existing channel, not notified unless it
  sleeps, and a client that takes what is written.
\<close>

definition alone :: "nat \<Rightarrow> u8 \<Rightarrow> conn \<Rightarrow> server \<Rightarrow> bool" where
  "alone i ch c s \<longleftrightarrow> c_channel c = ch \<and> valid_channel ch \<and> server_wf s \<and> c_room c = None \<and>
     notify_ok (notify_of ch s) (if c_outbound c = OutSleep then {i} else {})"

lemma notify_ok_none: "notify_ok n {} \<longleftrightarrow> nt_waiters n = [] \<and> nt_woken n = []"
  by (auto simp: notify_ok_def)

text \<open>With an empty inbox, after at most four steps; a permit makes it look once more.\<close>

lemma sleeps_without_permit:
  assumes "alone i ch c s" "c_outbound c = OutWait" "inbox_of ch s = []" "\<not> nt_permit (notify_of ch s)"
  shows "delivered i ch (c_out c) (outbound_run (Suc n) i (c, s))"
proof -
  let ?c = "c\<lparr>c_outbound := OutSleep\<rparr>" and ?s = "snd (wait_vserial_inbox i ch s)"
  from assms have wf: "server_wf s" "valid_channel ch" "c_channel c = ch" and n: "nt_woken (notify_of ch s) = []"
    by (auto simp: alone_def notify_ok_none)
  then have st: "outbound_step i c s = Some (?c, ?s)"
    using assms(2,4) by (simp add: outbound_step_def case_prod_beta' queue_simps)
  have wf': "server_wf ?s" using wf(1) by (rule server_wf_wait)
  have none: "outbound_step i ?c ?s = None"
    using outbound_asleep [OF wf', of ?c i] wf n assms(4) by (simp add: queue_simps poll_notified_def)
  then have "outbound_run n i (?c, ?s) = (?c, ?s)" by (cases n) simp_all
  with st none wf(1) assms(3) show ?thesis by (simp add: queue_simps)
qed

lemma sleeps_from_drain:
  assumes "alone i ch c s" "c_outbound c = OutDrain" "inbox_of ch s = []" "\<not> nt_permit (notify_of ch s)"
  shows "delivered i ch (c_out c) (outbound_run (Suc (Suc n)) i (c, s))"
proof -
  let ?c = "c\<lparr>c_outbound := OutWait\<rparr>" and ?s = "snd (drain_vserial ch s)"
  from assms have wf: "server_wf s" "c_channel c = ch" by (auto simp: alone_def)
  have st: "outbound_step i c s = Some (?c, ?s)"
    using wf assms(2,3) by (simp add: outbound_step_def case_prod_beta' Let_def queue_simps)
  have "alone i ch ?c ?s" "inbox_of ch ?s = []" "\<not> nt_permit (notify_of ch ?s)"
    using assms wf by (simp_all add: alone_def queue_simps wf_intros)
  from sleeps_without_permit [OF this(1) _ this(2,3), of n] show ?thesis
    using outbound_run_Suc [OF st, of "Suc n"] by (simp del: outbound_run.simps)
qed

lemma sleeps_from_wait:
  assumes "alone i ch c s" "c_outbound c = OutWait" "inbox_of ch s = []"
  shows "delivered i ch (c_out c) (outbound_run (Suc (Suc (Suc n))) i (c, s))"
proof (cases "nt_permit (notify_of ch s)")
  case True
  let ?c = "c\<lparr>c_outbound := OutDrain\<rparr>" and ?s = "snd (wait_vserial_inbox i ch s)"
  from assms have wf: "server_wf s" "c_channel c = ch" "valid_channel ch" by (auto simp: alone_def)
  have st: "outbound_step i c s = Some (?c, ?s)"
    using wf assms(2) True by (simp add: outbound_step_def case_prod_beta' queue_simps)
  have "alone i ch ?c ?s" "inbox_of ch ?s = []" "\<not> nt_permit (notify_of ch ?s)"
    using assms wf True by (simp_all add: alone_def queue_simps wf_intros notify_ok_none poll_notified_def)
  from sleeps_from_drain [OF this(1) _ this(2,3), of n] show ?thesis
    using outbound_run_Suc [OF st, of "Suc (Suc n)"] by (simp del: outbound_run.simps)
next
  case False
  then show ?thesis using sleeps_without_permit [OF assms] by blast
qed

lemma drain_sleeps:
  assumes "alone i ch c s" "c_outbound c = OutDrain"
  shows "delivered i ch (c_out c @ inbox_of ch s) (outbound_run (6 + n) i (c, s))"
proof -
  from assms have wf: "server_wf s" "c_channel c = ch" by (auto simp: alone_def)
  let ?s = "snd (drain_vserial ch s)"
  have empty: "inbox_of ch ?s = []" using wf by (simp add: queue_simps)
  show ?thesis
  proof (cases "inbox_of ch s = []")
    case True
    let ?c = "c\<lparr>c_outbound := OutWait\<rparr>"
    have st: "outbound_step i c s = Some (?c, ?s)"
      using wf assms(2) True by (simp add: outbound_step_def case_prod_beta' Let_def queue_simps)
    have "alone i ch ?c ?s" using assms wf by (simp add: alone_def queue_simps wf_intros)
    from sleeps_from_wait [OF this _ empty, of "Suc (Suc n)"] True show ?thesis
      using outbound_run_Suc [OF st, of "Suc (Suc (Suc (Suc (Suc n))))"]
      by (simp add: numeral_eq_Suc del: outbound_run.simps)
  next
    case False
    let ?w = "c\<lparr>c_outbound := OutWrite (inbox_of ch s)\<rparr>" and ?o = "c_out c @ inbox_of ch s"
    let ?d = "c\<lparr>c_out := ?o, c_outbound := OutDrain\<rparr>" and ?t = "c\<lparr>c_out := ?o, c_outbound := OutWait\<rparr>"
    let ?s' = "snd (drain_vserial ch ?s)"
    have wf': "server_wf ?s" "server_wf ?s'" using wf by (simp_all add: wf_intros)
    have empty': "inbox_of ch ?s' = []" using wf' by (simp add: queue_simps)
    have st: "outbound_step i c s = Some (?w, ?s)" "outbound_step i ?w ?s = Some (?d, ?s)"
        "outbound_step i ?d ?s = Some (?t, ?s')"
      using wf assms False empty
      by (simp_all add: outbound_step_def case_prod_beta' Let_def queue_simps client_write_def alone_def)
    have "alone i ch ?t ?s'" using assms wf wf' by (simp add: alone_def queue_simps)
    from sleeps_from_wait [OF this _ empty', of n] show ?thesis
      using outbound_run_Suc [OF st(1), of "Suc (Suc (Suc (Suc (Suc n))))"]
        outbound_run_Suc [OF st(2), of "Suc (Suc (Suc (Suc n)))"] outbound_run_Suc [OF st(3), of "Suc (Suc (Suc n))"]
      by (simp add: numeral_eq_Suc del: outbound_run.simps)
  qed
qed

text \<open>
  C18: what the guest wrote reaches the attached client.  If one connection was ever made
  to the channel, its outbound task has not ended and its client accepts writes, then
  whatever has happened before, apart from \<open>SERWRITEM\<close> bursts to that channel, once the
  pending notifications are made, that task run alone for at most seven steps has delivered
  everything the guest has written so far, in order; the inbox is empty and the task sleeps.
\<close>

theorem attached_client_gets_everything:
  assumes "attach_reach (\<lambda>a. \<not> burst_to ch a) f y" "valid_channel ch" "sole ch i (y_conns y)"
    and "c = y_conns y ! i" "s = fst (y_shared y)"
    and "c_room c = None" "c_outbound c \<noteq> OutDone" "ch \<notin> set (y_pending y)"
    and "outbound_run 7 i (c, s) = (c', s')"
  shows "c_out c' = y_written y ch \<and> inbox_of ch s' = [] \<and> c_outbound c' = OutSleep \<and> outbound_step i c' s' = None"
proof -
  have wf: "server_wf s" using attach_reach_wf [OF assms(1)] assms(5) by simp
  have i: "i < length (y_conns y)" and chn: "c_channel c = ch" using assms(3,4) by (simp_all add: sole_def)
  have pipe: "c_out c @ out_flight (c_outbound c) @ inbox_of ch s = y_written y ch"
    using attach_reach_pipe [OF assms(1,2)] assms(3-6) by (simp add: pipe_defs)
  have "sleepers ch (y_conns y) = (if c_outbound c = OutSleep then {i} else {})"
    using assms(3,4) by (auto simp: sleepers_def sole_def)
  with attach_reach_queued [OF assms(1,2)] assms(2,5,6) wf chn have al: "alone i ch c s"
    by (simp add: alone_def queued_def)
  have "delivered i ch (y_written y ch) (outbound_run 7 i (c, s))"
  proof (cases "c_outbound c")
    case OutDrain
    with drain_sleeps [OF al, of 1] pipe show ?thesis by simp
  next
    case (OutWrite bs)
    let ?c = "c\<lparr>c_out := c_out c @ bs, c_outbound := OutDrain\<rparr>"
    have "outbound_step i c s = Some (?c, s)" using OutWrite assms(6) by (simp add: outbound_step_def client_write_def)
    moreover have "alone i ch ?c s" using al OutWrite by (simp add: alone_def)
    ultimately show ?thesis using drain_sleeps [of i ch ?c s 0] OutWrite pipe outbound_run_Suc [of i c s _ 6]
      by (simp del: outbound_run.simps)
  next
    case OutWait
    show ?thesis
    proof (cases "inbox_of ch s = []")
      case True
      with sleeps_from_wait [OF al OutWait, of 4] pipe OutWait show ?thesis by (simp del: outbound_run.simps)
    next
      case False
      have "nt_woken (notify_of ch s) = []" using al OutWait by (simp add: alone_def notify_ok_none)
      moreover have "x \<in> set (y_conns y) \<Longrightarrow> c_channel x = ch \<Longrightarrow> x = c" for x
        using assms(3,4) by (metis in_set_conv_nth sole_def)
      ultimately have p: "nt_permit (notify_of ch s)"
        using attach_reach_awake [OF assms(1)] False assms(5,8) OutWait unfolding awake_def by fastforce
      let ?c = "c\<lparr>c_outbound := OutDrain\<rparr>" and ?s = "snd (wait_vserial_inbox i ch s)"
      have "outbound_step i c s = Some (?c, ?s)"
        using OutWait p wf assms(2) chn by (simp add: outbound_step_def case_prod_beta' queue_simps)
      moreover have "alone i ch ?c ?s"
        using al OutWait p by (simp add: alone_def queue_simps wf_intros notify_ok_none poll_notified_def)
      ultimately show ?thesis using drain_sleeps [of i ch ?c ?s 0] OutWait pipe wf outbound_run_Suc [of i c s _ 6]
        by (simp add: queue_simps del: outbound_run.simps)
    qed
  next
    case OutSleep
    show ?thesis
    proof (cases "i \<in> set (nt_woken (notify_of ch s))")
      case True
      let ?c = "c\<lparr>c_outbound := OutDrain\<rparr>" and ?s = "snd (wake_vserial_inbox i ch s)"
      have "outbound_step i c s = Some (?c, ?s)"
        using OutSleep True wf assms(2) chn by (simp add: outbound_step_def case_prod_beta' queue_simps)
      moreover have "alone i ch ?c ?s"
        using al OutSleep True notify_ok_repoll [of "notify_of ch s" "{i}" i]
        by (simp add: alone_def queue_simps wf_intros)
      ultimately show ?thesis using drain_sleeps [of i ch ?c ?s 0] OutSleep pipe wf outbound_run_Suc [of i c s _ 6]
        by (simp add: queue_simps del: outbound_run.simps)
    next
      case False
      have n: "notify_ok (notify_of ch s) {i}" using al OutSleep by (simp add: alone_def)
      then have "set (nt_woken (notify_of ch s)) \<subseteq> {i}" by (auto simp: notify_ok_def)
      with False have "nt_woken (notify_of ch s) = []" by (cases "nt_woken (notify_of ch s)") auto
      moreover from this n have "nt_waiters (notify_of ch s) \<noteq> []" by (auto simp: notify_ok_def)
      moreover from this n have "\<not> nt_permit (notify_of ch s)" by (auto simp: notify_ok_def)
      moreover have "x \<in> set (y_conns y) \<Longrightarrow> c_channel x = ch \<Longrightarrow> x = c" for x
        using assms(3,4) by (metis in_set_conv_nth sole_def)
      ultimately have "inbox_of ch s = []"
        using attach_reach_awake [OF assms(1)] assms(5,8) OutSleep unfolding awake_def by fastforce
      moreover have none: "outbound_step i c s = None"
        using outbound_asleep [OF wf, of c i] chn assms(2) False OutSleep by simp
      moreover have "outbound_run 7 i (c, s) = (c, s)" using none by (simp add: numeral_eq_Suc)
      ultimately show ?thesis using OutSleep pipe by simp
    qed
  qed (use assms(7) in simp)
  with assms(9) show ?thesis by simp
qed

theorem attached_client_gets_everything_witness:
  "\<exists>y. attach_performs (sleeping @ [GuestStore 1 65, GuestNotify]) (asys_new demo_fs) = Some y \<and>
     c_out (fst (outbound_run 7 0 (y_conns y ! 0, fst (y_shared y)))) = [65]"
proof -
  let ?as = "sleeping @ [GuestStore 1 65, GuestNotify]"
  have "case attach_performs ?as (asys_new demo_fs) of None \<Rightarrow> False | Some y \<Rightarrow>
      y_written y 1 = [65] \<and> y_pending y = [] \<and> length (y_conns y) = 1 \<and> c_channel (y_conns y ! 0) = 1 \<and>
      c_room (y_conns y ! 0) = None \<and> c_outbound (y_conns y ! 0) \<noteq> OutDone"
    by code_simp
  then obtain y where y: "attach_performs ?as (asys_new demo_fs) = Some y" "y_written y 1 = [65]" "y_pending y = []"
      "sole 1 0 (y_conns y)" "c_room (y_conns y ! 0) = None" "c_outbound (y_conns y ! 0) \<noteq> OutDone"
    by (auto simp: sole_def simp del: attach_performs.simps length_0_conv length_greater_0_conv split: option.splits)
  have r: "attach_reach (\<lambda>a. \<not> burst_to 1 a) demo_fs y"
    by (rule performed_reach [OF y(1)]) (simp add: sleeping_def)
  obtain c' s' where e: "outbound_run 7 0 (y_conns y ! 0, fst (y_shared y)) = (c', s')" by fastforce
  from attached_client_gets_everything [OF r _ y(4) refl refl y(5,6) _ e] y(1-3) e show ?thesis
    by (intro exI [of _ y]) (simp add: VSERIAL_CHANNELS_def del: attach_performs.simps outbound_run.simps)
qed

end
