(* ===== verification/Programs.thy ===== *)
theory Programs
  imports Attach
begin

text \<open>
  The opcode handlers of \<open>Server::run\<close> as programs with visible suspension points.  The
  functions of theory \<open>Server\<close> run a handler in one go; here each \<open>await\<close> of the source is
  a node of a tree, so that other tasks can run in between: reading from and writing to
  the session's own transport, and the critical sections on the shared state, each under
  the lock of the field it uses.  A section says how it uses the lock of the outboxes:
  not at all, for its own duration, or beyond its end, as \<open>handle_serread\<close> does, which
  keeps the guard while it writes its reply.  Run alone, the programs are the functions.
\<close>

section \<open>Programs\<close>

datatype lock_use = NoLock | Brief | Keep

datatype prog =
    Done
  | ReadExact nat "bytes \<Rightarrow> prog"
  | WriteAll bytes prog
  | Section lock_use "shared \<Rightarrow> shared" "shared \<Rightarrow> prog"
  | Unlock prog

text \<open>A section computes its effect and its continuation from the state it finds.\<close>

definition view :: "world \<Rightarrow> shared" where
  "view w = (srv w, fs w)"

definition put_shared :: "shared \<Rightarrow> world \<Rightarrow> world" where
  "put_shared sf w = w\<lparr>srv := fst sf, fs := snd sf\<rparr>"

primrec run_prog :: "prog \<Rightarrow> unit session" where
  "run_prog Done w = (Inr (), w)"
| "run_prog (ReadExact n k) w =
    (case t_read_exact n (tr w) of
       (Inl e, t') \<Rightarrow> (Inl (Io e), w\<lparr>tr := t'\<rparr>)
     | (Inr bs, t') \<Rightarrow> run_prog (k bs) (w\<lparr>tr := t'\<rparr>))"
| "run_prog (WriteAll bs p) w =
    (case t_write_all bs (tr w) of
       (Inl e, t') \<Rightarrow> (Inl (Io e), w\<lparr>tr := t'\<rparr>)
     | (Inr _, t') \<Rightarrow> run_prog p (w\<lparr>tr := t'\<rparr>))"
| "run_prog (Section u f k) w = run_prog (k (view w)) (put_shared (f (view w)) w)"
| "run_prog (Unlock p) w = run_prog p w"

section \<open>The handlers\<close>

definition on_server :: "(server \<Rightarrow> server) \<Rightarrow> shared \<Rightarrow> shared" where
  "on_server f sf = (f (fst sf), snd sf)"

abbreviation update_prog :: "(server \<Rightarrow> server) \<Rightarrow> prog" where
  "update_prog f \<equiv> Section NoLock (on_server f) (\<lambda>_. Done)"

definition reply_sector :: "bool \<Rightarrow> bytes \<Rightarrow> prog" where
  "reply_sector extended sector =
    WriteAll sector
      (let host_sum = checksum16 sector in
       if extended then
         ReadExact 2 (\<lambda>guest_sum_bytes.
           let guest_sum = u16_from_be_bytes (guest_sum_bytes ! 0, guest_sum_bytes ! 1);
               status = (if guest_sum = host_sum then 0x00 else dw_error_code ErrCrc) in
           WriteAll [status] Done)
       else WriteAll (be2 host_sum) Done)"

definition read_prog :: "bool \<Rightarrow> prog" where
  "read_prog extended =
    ReadExact 4 (\<lambda>hdr.
      let slot = hdr ! 0; l = from_be3 (hdr ! 1, hdr ! 2, hdr ! 3) in
      Section NoLock id (\<lambda>sf.
        case drive_lookup slot (fst sf) of
          Some d \<Rightarrow>
            Section NoLock (\<lambda>sf. (fst sf, snd (dsk_read d l (snd sf)))) (\<lambda>sf.
              reply_sector extended
                (case fst (dsk_read d l (snd sf)) of Inr sector \<Rightarrow> sector | Inl e \<Rightarrow> zero_sector))
        | None \<Rightarrow> reply_sector extended zero_sector))"

definition write_prog :: prog where
  "write_prog =
    ReadExact 4 (\<lambda>hdr.
      let slot = hdr ! 0; l = from_be3 (hdr ! 1, hdr ! 2, hdr ! 3) in
      ReadExact SECTOR_SIZE (\<lambda>sector.
      ReadExact 2 (\<lambda>sum_bytes.
      let guest_sum = u16_from_be_bytes (sum_bytes ! 0, sum_bytes ! 1);
          host_sum = checksum16 sector in
      if guest_sum \<noteq> host_sum then WriteAll [dw_error_code ErrCrc] Done
      else
        Section NoLock id (\<lambda>sf.
          case drive_lookup slot (fst sf) of
            Some d \<Rightarrow>
              Section NoLock (\<lambda>sf. (fst sf, snd (dsk_write d l sector (snd sf)))) (\<lambda>sf.
                WriteAll [case fst (dsk_write d l sector (snd sf)) of Inr _ \<Rightarrow> 0 | Inl e \<Rightarrow> dw_error_code ErrWrite] Done)
          | None \<Rightarrow> WriteAll [dw_error_code ErrNotReady] Done))))"

definition push_prog :: "u8 \<Rightarrow> u8 \<Rightarrow> prog" where
  "push_prog channel byte =
    Section NoLock (on_server (push_store channel byte)) (\<lambda>_. update_prog (push_notify channel))"

definition serread_reply :: "shared \<Rightarrow> bytes" where
  "serread_reply sf =
    (case first_ready 0 (vserial_outbox (fst sf)) of
       None \<Rightarrow> [0x00, 0x00]
     | Some (idx, q) \<Rightarrow>
         (if length q < 3 then [0x01 + word_of_nat idx, hd q]
          else [0x11 + word_of_nat idx, word_of_nat (min (length q) 255)]))"

definition serread_pop :: "server \<Rightarrow> server" where
  "serread_pop s =
    (case first_ready 0 (vserial_outbox s) of
       None \<Rightarrow> s
     | Some (idx, q) \<Rightarrow>
         (if length q < 3 then s\<lparr>vserial_outbox := (vserial_outbox s)[idx := tl q]\<rparr> else s))"

definition serread_prog :: prog where
  "serread_prog = Section Keep (on_server serread_pop) (\<lambda>sf. WriteAll (serread_reply sf) (Unlock Done))"

definition serreadm_prog :: prog where
  "serreadm_prog =
    ReadExact 2 (\<lambda>p.
      let channel = p ! 0; cnt = unat (p ! 1) in
      if unat channel < VSERIAL_CHANNELS then
        Section Brief (on_server (\<lambda>s. snd (serreadm_take channel cnt s)))
          (\<lambda>sf. WriteAll (fst (serreadm_take channel cnt (fst sf))) Done)
      else WriteAll (replicate cnt 0) Done)"

definition serwritem_prog :: prog where
  "serwritem_prog =
    ReadExact 2 (\<lambda>hdr.
      let channel = hdr ! 0; cnt = unat (hdr ! 1) in
      ReadExact cnt (\<lambda>buf. update_prog (serwritem_store channel buf)))"

definition sersetstat_prog :: prog where
  "sersetstat_prog =
    ReadExact 2 (\<lambda>hdr.
      let channel = hdr ! 0; code = hdr ! 1 in
      if code = SS_OPEN then update_prog (set_channel_open channel True)
      else if code = SS_CLOSE then update_prog (set_channel_open channel False)
      else if code = SS_COMST then ReadExact COMST_PAYLOAD_LEN (\<lambda>payload. Done)
      else Done)"

definition dispatch_prog :: "clock \<Rightarrow> decoded \<Rightarrow> prog" where
  "dispatch_prog c d =
    (case d of
       Op Nop \<Rightarrow> Done
     | Op Reset1 \<Rightarrow> Done
     | Op Reset2 \<Rightarrow> Done
     | Op Reset3 \<Rightarrow> Done
     | Op Read \<Rightarrow> read_prog False
     | Op Reread \<Rightarrow> read_prog False
     | Op ReadEx \<Rightarrow> read_prog True
     | Op RereadEx \<Rightarrow> read_prog True
     | Op Write \<Rightarrow> write_prog
     | Op Rewrite \<Rightarrow> write_prog
     | Op DwInit \<Rightarrow> ReadExact 1 (\<lambda>driver. WriteAll [DWINIT_RESPONSE] Done)
     | Op Time \<Rightarrow> WriteAll (time_reply c) Done
     | Op Init \<Rightarrow> Done
     | Op Term \<Rightarrow> Done
     | Op GetStat \<Rightarrow> ReadExact 2 (\<lambda>p. Done)
     | Op SetStat \<Rightarrow> ReadExact 2 (\<lambda>p. Done)
     | Op Print \<Rightarrow> ReadExact 1 (\<lambda>b. update_prog (\<lambda>s. s\<lparr>print_buffer := print_buffer s @ [b ! 0]\<rparr>))
     | Op PrintFlush \<Rightarrow> update_prog (\<lambda>s. if print_buffer s = [] then s else s\<lparr>print_buffer := []\<rparr>)
     | Op SerRead \<Rightarrow> serread_prog
     | Op SerReadM \<Rightarrow> serreadm_prog
     | Op SerInit \<Rightarrow> ReadExact 1 (\<lambda>ch. update_prog (set_channel_open (ch ! 0) True))
     | Op SerTerm \<Rightarrow> ReadExact 1 (\<lambda>ch. update_prog (set_channel_open (ch ! 0) False))
     | Op SerWrite \<Rightarrow> ReadExact 2 (\<lambda>p. push_prog (p ! 0) (p ! 1))
     | Op SerWriteM \<Rightarrow> serwritem_prog
     | Op SerSetStat \<Rightarrow> sersetstat_prog
     | Op SerGetStat \<Rightarrow> ReadExact 2 (\<lambda>p. Done)
     | Op WirebugMode \<Rightarrow> Done
     | FastWrite channel \<Rightarrow> ReadExact 1 (\<lambda>b. push_prog channel (b ! 0))
     | Unknown b \<Rightarrow> Done)"

lemmas prog_defs = reply_sector_def read_prog_def write_prog_def push_prog_def serread_prog_def
  serreadm_prog_def serwritem_prog_def sersetstat_prog_def

section \<open>Run alone\<close>

lemma run_read: "run_prog (ReadExact n k) = bind_sx (read_exact n) (\<lambda>bs. run_prog (k bs))"
  by (rule ext) (simp add: bind_sx_def on_tr_def split: prod.split sum.split)

lemma run_write: "run_prog (WriteAll bs p) = bind_sx (write_all bs) (\<lambda>_. run_prog p)"
  by (rule ext) (simp add: bind_sx_def on_tr_def split: prod.split sum.split)

lemma run_done: "run_prog Done = return_sx ()"
  by (rule ext) (simp add: return_sx_def)

lemma run_unlock: "run_prog (Unlock p) = run_prog p"
  by (rule ext) simp

lemma bind_return: "bind_sx m (\<lambda>_. return_sx ()) = m"
  by (rule ext) (simp add: bind_sx_def return_sx_def split: prod.split sum.split)

lemma bind_return' [simp]: "bind_sx m return_sx = m"
  by (rule ext) (simp add: bind_sx_def return_sx_def split: prod.split sum.split)

lemma run_update: "run_prog (update_prog f) = update_srv f"
  by (rule ext) (simp add: update_srv_def modify_sx_def on_server_def view_def put_shared_def)

lemmas run_simps = run_read run_write run_done run_unlock bind_return run_update

lemma put_view [simp]: "put_shared (view w) w = w"
  by (simp add: put_shared_def view_def)

lemma run_reply_sector:
  "run_prog (reply_sector extended sector) =
    bind_sx (write_all sector) (\<lambda>_.
      let host_sum = checksum16 sector in
      if extended then
        bind_sx (read_exact 2) (\<lambda>guest_sum_bytes.
          let guest_sum = u16_from_be_bytes (guest_sum_bytes ! 0, guest_sum_bytes ! 1);
              status = (if guest_sum = host_sum then 0x00 else dw_error_code ErrCrc) in
          write_all [status])
      else write_all (be2 host_sum))"
  by (simp add: reply_sector_def run_simps Let_def)

lemma run_lookup:
  "run_prog (Section u id (\<lambda>sf. k (drive_lookup slot (fst sf)))) =
    bind_sx (gets_sx (\<lambda>w. drive_lookup slot (srv w))) (\<lambda>disk. run_prog (k disk))"
  by (rule ext) (simp add: bind_sx_def gets_sx_def, simp add: view_def)

lemma run_disk:
  "run_prog (Section u (\<lambda>sf. (fst sf, snd (m (snd sf)))) (\<lambda>sf. k (fst (m (snd sf))))) =
    bind_sx (on_disk m) (\<lambda>r. run_prog (k r))"
  by (rule ext) (simp add: bind_sx_def on_disk_def put_shared_def view_def split: prod.split)

lemma bind_case_option:
  "bind_sx (case x of None \<Rightarrow> m | Some y \<Rightarrow> f y) g = (case x of None \<Rightarrow> bind_sx m g | Some y \<Rightarrow> bind_sx (f y) g)"
  by (simp split: option.split)

lemma bind_return_left: "bind_sx (return_sx a) g = g a"
  by (rule ext) (simp add: bind_sx_def return_sx_def)

lemma run_case_option:
  "run_prog (case x of None \<Rightarrow> p | Some y \<Rightarrow> f y) = (case x of None \<Rightarrow> run_prog p | Some y \<Rightarrow> run_prog (f y))"
  by (simp split: option.split)

lemmas run_disk_read = run_disk [of _ "dsk_read d l" "\<lambda>r. reply_sector ext (case r of Inr sector \<Rightarrow> sector | Inl e \<Rightarrow> zero_sector)" for d l ext]

lemmas run_disk_write = run_disk [of _ "dsk_write d l sector"
  "\<lambda>r. WriteAll [case r of Inr _ \<Rightarrow> 0 | Inl e \<Rightarrow> dw_error_code ErrWrite] Done" for d l sector]

lemma run_read_prog: "run_prog (read_prog extended) = handle_read extended"
  unfolding read_prog_def handle_read_def Let_def run_read
    run_lookup [of _ "\<lambda>disk. case disk of
          Some d \<Rightarrow> Section NoLock (\<lambda>sf. (fst sf, snd (dsk_read d l (snd sf)))) (\<lambda>sf.
              reply_sector extended
                (case fst (dsk_read d l (snd sf)) of Inr sector \<Rightarrow> sector | Inl e \<Rightarrow> zero_sector))
        | None \<Rightarrow> reply_sector extended zero_sector" for l]
    run_case_option run_disk_read bind_case_option bind_sx_assoc bind_return_left run_reply_sector
  by (rule refl)

lemma run_write_prog: "run_prog write_prog = handle_write"
  unfolding write_prog_def handle_write_def Let_def run_read if_distrib [of run_prog]
    run_lookup [of _ "\<lambda>disk. case disk of
          Some d \<Rightarrow> Section NoLock (\<lambda>sf. (fst sf, snd (dsk_write d l sector (snd sf)))) (\<lambda>sf.
              WriteAll [case fst (dsk_write d l sector (snd sf)) of Inr _ \<Rightarrow> 0 | Inl e \<Rightarrow> dw_error_code ErrWrite] Done)
        | None \<Rightarrow> WriteAll [dw_error_code ErrNotReady] Done" for l sector]
    run_case_option run_disk_write bind_case_option bind_sx_assoc bind_return_left run_write run_done bind_return
  by (rule refl)

lemma run_push_prog: "run_prog (push_prog ch b) = update_srv (push_vserial ch b)"
  by (rule ext) (simp add: push_prog_def push_vserial_sections update_srv_def modify_sx_def on_server_def view_def put_shared_def)

lemma run_serread_prog: "run_prog serread_prog = handle_serread"
proof (rule ext)
  fix w
  show "run_prog serread_prog w = handle_serread w"
    by (cases "first_ready 0 (vserial_outbox (srv w))")
      (auto simp: serread_prog_def handle_serread_def serread_pop_def serread_reply_def on_server_def view_def
        put_shared_def bind_sx_def gets_sx_def update_srv_def modify_sx_def on_tr_def Let_def
        split: prod.split sum.split)
qed

text \<open>
  A poll takes the byte from its queue before it is written: if the write fails, the byte
  has neither been sent nor kept.
\<close>

theorem failed_poll_loses_byte:
  assumes "first_ready 0 (vserial_outbox (srv w)) = Some (idx, q)" "length q < 3" "tx_fault (tr w) = Some (0, e)"
  shows "\<exists>w'. handle_serread w = (Inl (Io e), w') \<and> tx (tr w') = tx (tr w) \<and>
    vserial_outbox (srv w') = (vserial_outbox (srv w))[idx := tl q]"
  using assms by (simp add: handle_serread_def bind_sx_def gets_sx_def update_srv_def modify_sx_def on_tr_def
      t_write_all_def Let_def)

lemma run_serreadm_prog: "run_prog serreadm_prog = handle_serreadm"
proof -
  have "run_prog (if unat channel < VSERIAL_CHANNELS then
        Section Brief (on_server (\<lambda>s. snd (serreadm_take channel cnt s)))
          (\<lambda>sf. WriteAll (fst (serreadm_take channel cnt (fst sf))) Done)
      else WriteAll (replicate cnt 0) Done) =
    bind_sx (gets_sx (\<lambda>w. fst (serreadm_take channel cnt (srv w)))) (\<lambda>buf.
      bind_sx (update_srv (\<lambda>s. snd (serreadm_take channel cnt s))) (\<lambda>_. write_all buf))" for channel cnt
    by (rule ext) (auto simp: on_server_def view_def put_shared_def serreadm_take_def
        bind_sx_def gets_sx_def update_srv_def modify_sx_def on_tr_def Let_def split: prod.split sum.split)
  then show ?thesis unfolding serreadm_prog_def handle_serreadm_def Let_def run_read by simp
qed

lemma run_dispatch_prog: "run_prog (dispatch_prog c d) = dispatch c d"
proof (cases d)
  case (Op opc)
  then show ?thesis
    by (cases opc) (simp_all add: dispatch_prog_def dispatch_def run_read_prog run_write_prog run_serread_prog
        run_serreadm_prog run_push_prog run_simps handle_dwinit_def handle_time_def handle_stat_def
        handle_print_def handle_print_flush_def serwritem_prog_def handle_serwritem_def
        sersetstat_prog_def handle_sersetstat_def if_distrib [of run_prog] Let_def cong: if_cong)
qed (simp_all add: dispatch_prog_def dispatch_def handle_fastwrite_def run_read run_done run_push_prog)

text \<open>One turn of the loop of \<open>run\<close>: an opcode and its program.\<close>

definition turn :: "clock \<Rightarrow> unit session" where
  "turn c w =
    (case t_read_exact 1 (tr w) of
       (Inl e, t') \<Rightarrow> (Inl (if kind e = UnexpectedEof then Eof else Io e), w\<lparr>tr := t'\<rparr>)
     | (Inr byte, t') \<Rightarrow> run_prog (dispatch_prog c (from_byte (byte ! 0))) (w\<lparr>tr := t'\<rparr>))"

fun turns :: "(nat \<Rightarrow> clock) \<Rightarrow> nat \<Rightarrow> nat \<Rightarrow> unit session" where
  "turns clk n 0 w = (Inr (), w)"
| "turns clk n (Suc k) w =
    (case turn (clk n) w of
       (Inl e, w') \<Rightarrow> (Inl e, w')
     | (Inr _, w') \<Rightarrow> turns clk (Suc n) k w')"

lemma run_turn:
  "run clk n w = (case turn (clk n) w of (Inl e, w') \<Rightarrow> (Inl e, w') | (Inr _, w') \<Rightarrow> run clk (Suc n) w')"
  by (simp add: run.simps [of clk n w] turn_def run_dispatch_prog split: prod.split sum.split)

lemma turn_shorter:
  assumes "turn c w = (Inr u, w')"
  shows "length (rx (tr w')) < length (rx (tr w))"
proof (cases "rx (tr w)")
  case Nil
  with assms show ?thesis by (simp add: turn_def t_read_exact_def)
next
  case (Cons b rest)
  then have "dispatch c (from_byte b) (w\<lparr>tr := (tr w)\<lparr>rx := rest\<rparr>\<rparr>) = (Inr u, w')"
    using assms by (simp add: turn_def t_read_exact_def run_dispatch_prog)
  from dispatch_rx_length [OF this] Cons show ?thesis by simp
qed



end
