(* ===== verification/Traces.thy ===== *)
theory Traces
  imports Main
begin

text \<open>
  Executions of a labelled step relation, and the two arguments about them that the
  theories on concurrent sessions use: a property kept by every step, and a simulation by
  a deterministic machine that performs the visible actions in the order they happened.
\<close>

inductive trace_run :: "('a \<Rightarrow> 's \<Rightarrow> 's \<Rightarrow> bool) \<Rightarrow> 's \<Rightarrow> 'a list \<Rightarrow> 's \<Rightarrow> bool" for step y0 where
  start: "trace_run step y0 [] y0"
| step: "trace_run step y0 as y \<Longrightarrow> step a y y' \<Longrightarrow> trace_run step y0 (as @ [a]) y'"

locale kept_by_steps =
  fixes step :: "'a \<Rightarrow> 's \<Rightarrow> 's \<Rightarrow> bool"
    and inv :: "'s \<Rightarrow> bool"
  assumes kept: "inv y \<Longrightarrow> step a y y' \<Longrightarrow> inv y'"
begin

lemma holds: "trace_run step y0 as y \<Longrightarrow> inv y0 \<Longrightarrow> inv y"
  by (induction rule: trace_run.induct) (auto intro: kept)

end

locale forward_simulation =
  fixes step :: "'a \<Rightarrow> 's \<Rightarrow> 's \<Rightarrow> bool"
    and machine :: "'a \<Rightarrow> 't \<Rightarrow> 't"
    and rel :: "'s \<Rightarrow> 't \<Rightarrow> bool"
    and visible :: "'a \<Rightarrow> bool"
  assumes simulated: "rel y z \<Longrightarrow> step a y y' \<Longrightarrow>
    \<exists>log. filter visible log = filter visible [a] \<and> rel y' (fold machine log z)"
begin

lemma simulated_run:
  assumes "trace_run step y as y'" "rel y z"
  shows "\<exists>log. filter visible log = filter visible as \<and> rel y' (fold machine log z)"
  using assms
proof (induction rule: trace_run.induct)
  case start
  then show ?case by (intro exI [of _ "[]"]) simp
next
  case (step as y1 a y2)
  then obtain log where log: "filter visible log = filter visible as" "rel y1 (fold machine log z)" by blast
  from simulated [OF log(2) step.hyps(2)] obtain l where "filter visible l = filter visible [a]"
    "rel y2 (fold machine l (fold machine log z))" by blast
  with log(1) show ?case by (intro exI [of _ "log @ l"]) simp
qed

end

end
