(* ===== verification/Sessions.thy ===== *)
theory Sessions
  imports Programs Traces
begin

text \<open>
  Concurrent sessions.  A TCP server runs one session per connection, all on the same
  \<open>Server\<close>, next to the host operations of attached clients.  Every session is at some
  node of a program; a step executes the next node of one of them.  A lock can be held
  across steps, and a write waits while its peer does not read.
\<close>

section \<open>Sessions\<close>

datatype pc = Idle | Running prog | Ended server_error

record sess =
  q_tr :: transport
  q_pc :: pc
  q_n :: nat

text \<open>What the next node of a session does to itself and to the shared state.\<close>

definition micro :: "clock \<Rightarrow> sess \<Rightarrow> shared \<Rightarrow> sess \<times> shared" where
  "micro c q sf =
    (case q_pc q of
       Ended e \<Rightarrow> (q, sf)
     | Idle \<Rightarrow>
         (case t_read_exact 1 (q_tr q) of
            (Inl e, t') \<Rightarrow> (q\<lparr>q_tr := t', q_pc := Ended (if kind e = UnexpectedEof then Eof else Io e)\<rparr>, sf)
          | (Inr byte, t') \<Rightarrow> (q\<lparr>q_tr := t', q_pc := Running (dispatch_prog c (from_byte (byte ! 0)))\<rparr>, sf))
     | Running p \<Rightarrow>
         (case p of
            Done \<Rightarrow> (q\<lparr>q_pc := Idle, q_n := Suc (q_n q)\<rparr>, sf)
          | ReadExact n k \<Rightarrow>
              (case t_read_exact n (q_tr q) of
                 (Inl e, t') \<Rightarrow> (q\<lparr>q_tr := t', q_pc := Ended (Io e)\<rparr>, sf)
               | (Inr bs, t') \<Rightarrow> (q\<lparr>q_tr := t', q_pc := Running (k bs)\<rparr>, sf))
          | WriteAll bs p' \<Rightarrow>
              (case t_write_all bs (q_tr q) of
                 (Inl e, t') \<Rightarrow> (q\<lparr>q_tr := t', q_pc := Ended (Io e)\<rparr>, sf)
               | (Inr _, t') \<Rightarrow> (q\<lparr>q_tr := t', q_pc := Running p'\<rparr>, sf))
          | Section u f k \<Rightarrow> (q\<lparr>q_pc := Running (k sf)\<rparr>, f sf)
          | Unlock p' \<Rightarrow> (q\<lparr>q_pc := Running p'\<rparr>, sf)))"

text \<open>
  When a session can take a step: a section that uses the lock of the outboxes needs it to
  be free, a write needs a peer that reads.
\<close>

fun ready :: "nat option \<Rightarrow> bool \<Rightarrow> pc \<Rightarrow> bool" where
  "ready lock stalled (Ended _) \<longleftrightarrow> False"
| "ready lock stalled (Running (Section u _ _)) \<longleftrightarrow> u = NoLock \<or> lock = None"
| "ready lock stalled (Running (WriteAll _ _)) \<longleftrightarrow> \<not> stalled"
| "ready lock stalled _ \<longleftrightarrow> True"

text \<open>The guard is dropped at its end of scope and when the handler returns early.\<close>

fun lock_after :: "nat \<Rightarrow> pc \<Rightarrow> pc \<Rightarrow> nat option \<Rightarrow> nat option" where
  "lock_after i (Running (Section Keep _ _)) pc' lock = Some i"
| "lock_after i (Running (Unlock _)) pc' lock = None"
| "lock_after i pc (Ended _) lock = (if lock = Some i then None else lock)"
| "lock_after i pc pc' lock = lock"

record csys =
  n_shared :: shared
  n_sess :: "sess list"
  n_lock :: "nat option"
  n_stalled :: "nat set"
  n_drained :: "(u8 \<times> bytes) list"

definition sess_step :: "(nat \<Rightarrow> nat \<Rightarrow> clock) \<Rightarrow> nat \<Rightarrow> csys \<Rightarrow> csys option" where
  "sess_step clk i y =
    (let q = n_sess y ! i in
     if i < length (n_sess y) \<and> ready (n_lock y) (i \<in> n_stalled y) (q_pc q) then
       (case micro (clk i (q_n q)) q (n_shared y) of
          (q', sf') \<Rightarrow> Some (y\<lparr>n_shared := sf', n_sess := (n_sess y)[i := q'],
             n_lock := lock_after i (q_pc q) (q_pc q') (n_lock y)\<rparr>))
     else None)"

datatype saction =
    Step nat
  | Send u8 bytes
  | Drain u8
  | Accept transport
  | PeerStops nat
  | PeerReads nat

definition new_sess :: "transport \<Rightarrow> sess" where
  "new_sess t = \<lparr>q_tr = t, q_pc = Idle, q_n = 0\<rparr>"

definition host_send :: "u8 \<Rightarrow> bytes \<Rightarrow> csys \<Rightarrow> csys" where
  "host_send ch bs y = y\<lparr>n_shared := on_server (send_to_vserial ch bs) (n_shared y)\<rparr>"

definition host_drain :: "u8 \<Rightarrow> csys \<Rightarrow> csys" where
  "host_drain ch y = y\<lparr>n_shared := on_server (\<lambda>s. snd (drain_vserial ch s)) (n_shared y),
     n_drained := n_drained y @ [(ch, fst (drain_vserial ch (fst (n_shared y))))]\<rparr>"

definition accept :: "transport \<Rightarrow> csys \<Rightarrow> csys" where
  "accept t y = y\<lparr>n_sess := n_sess y @ [new_sess t]\<rparr>"

text \<open>
  \<open>send_to_vserial\<close> returns before it asks for the lock if there is no such channel.
\<close>

inductive system_step :: "(nat \<Rightarrow> nat \<Rightarrow> clock) \<Rightarrow> saction \<Rightarrow> csys \<Rightarrow> csys \<Rightarrow> bool" for clk where
  step: "sess_step clk i y = Some y' \<Longrightarrow> system_step clk (Step i) y y'"
| send: "n_lock y = None \<or> VSERIAL_CHANNELS \<le> unat ch \<Longrightarrow> system_step clk (Send ch bs) y (host_send ch bs y)"
| drain: "system_step clk (Drain ch) y (host_drain ch y)"
| accepted: "system_step clk (Accept t) y (accept t y)"
| stops: "system_step clk (PeerStops i) y (y\<lparr>n_stalled := insert i (n_stalled y)\<rparr>)"
| reads: "system_step clk (PeerReads i) y (y\<lparr>n_stalled := n_stalled y - {i}\<rparr>)"


abbreviation system_run :: "(nat \<Rightarrow> nat \<Rightarrow> clock) \<Rightarrow> csys \<Rightarrow> saction list \<Rightarrow> csys \<Rightarrow> bool" where
  "system_run clk \<equiv> trace_run (system_step clk)"

text \<open>Every action has one outcome, or is not possible.\<close>

fun perform :: "(nat \<Rightarrow> nat \<Rightarrow> clock) \<Rightarrow> saction \<Rightarrow> csys \<Rightarrow> csys option" where
  "perform clk (Step i) y = sess_step clk i y"
| "perform clk (Send ch bs) y = (if n_lock y = None \<or> VSERIAL_CHANNELS \<le> unat ch then Some (host_send ch bs y) else None)"
| "perform clk (Drain ch) y = Some (host_drain ch y)"
| "perform clk (Accept t) y = Some (accept t y)"
| "perform clk (PeerStops i) y = Some (y\<lparr>n_stalled := insert i (n_stalled y)\<rparr>)"
| "perform clk (PeerReads i) y = Some (y\<lparr>n_stalled := n_stalled y - {i}\<rparr>)"

lemma system_step_iff: "system_step clk a y y' \<longleftrightarrow> perform clk a y = Some y'"
  by (cases a) (auto simp: system_step.simps split: if_splits)

fun perform_all :: "(nat \<Rightarrow> nat \<Rightarrow> clock) \<Rightarrow> saction list \<Rightarrow> csys \<Rightarrow> csys option" where
  "perform_all clk [] y = Some y"
| "perform_all clk (a # as) y = (case perform clk a y of Some y' \<Rightarrow> perform_all clk as y' | None \<Rightarrow> None)"

lemma perform_all_run: "perform_all clk as y = Some y' \<Longrightarrow> system_run clk y0 as0 y \<Longrightarrow> system_run clk y0 (as0 @ as) y'"
proof (induction as arbitrary: y as0)
  case (Cons a as)
  then obtain y1 where "perform clk a y = Some y1" "perform_all clk as y1 = Some y'"
    by (auto split: option.splits)
  with Cons.IH [of y1 "as0 @ [a]"] trace_run.step [OF Cons.prems(2)] show ?case by (simp add: system_step_iff)
qed simp

lemmas system_runI = perform_all_run [OF _ trace_run.start, simplified]

text \<open>The state of a server that has just been started.\<close>

definition csys_new :: "shared \<Rightarrow> csys" where
  "csys_new sf = \<lparr>n_shared = sf, n_sess = [], n_lock = None, n_stalled = {}, n_drained = []\<rparr>"

definition settled :: "csys \<Rightarrow> bool" where
  "settled y \<longleftrightarrow> list_all (\<lambda>q. case q_pc q of Running _ \<Rightarrow> False | _ \<Rightarrow> True) (n_sess y)"

section \<open>One request at a time\<close>

text \<open>
  The serial server handles a request from its first to its last byte before it looks at
  any other session.
\<close>

definition world_of :: "shared \<Rightarrow> transport \<Rightarrow> world" where
  "world_of sf t = \<lparr>srv = fst sf, fs = snd sf, tr = t\<rparr>"

definition finish :: "server_error + unit \<Rightarrow> transport \<Rightarrow> sess \<Rightarrow> sess" where
  "finish r t q = (case r of
     Inl e \<Rightarrow> q\<lparr>q_tr := t, q_pc := Ended e\<rparr>
   | Inr _ \<Rightarrow> q\<lparr>q_tr := t, q_pc := Idle, q_n := Suc (q_n q)\<rparr>)"

definition whole :: "clock \<Rightarrow> sess \<Rightarrow> shared \<Rightarrow> sess \<times> shared" where
  "whole c q sf =
    (if q_pc q = Idle then (case turn c (world_of sf (q_tr q)) of (r, w) \<Rightarrow> (finish r (tr w) q, view w))
     else (q, sf))"

fun serial :: "(nat \<Rightarrow> nat \<Rightarrow> clock) \<Rightarrow> saction \<Rightarrow> csys \<Rightarrow> csys" where
  "serial clk (Step i) y =
    (if i < length (n_sess y) then
       (case whole (clk i (q_n (n_sess y ! i))) (n_sess y ! i) (n_shared y) of
          (q', sf') \<Rightarrow> y\<lparr>n_shared := sf', n_sess := (n_sess y)[i := q']\<rparr>)
     else y)"
| "serial clk (Send ch bs) y = host_send ch bs y"
| "serial clk (Drain ch) y = host_drain ch y"
| "serial clk (Accept t) y = accept t y"
| "serial clk _ y = y"

text \<open>The server state without its notifications of the inboxes.\<close>

definition strip :: "shared \<Rightarrow> shared" where
  "strip sf = ((fst sf)\<lparr>vserial_inbox_notify := []\<rparr>, snd sf)"

section \<open>Running a program from a shared state\<close>

definition run_on :: "prog \<Rightarrow> shared \<Rightarrow> transport \<Rightarrow> (server_error + unit) \<times> shared \<times> transport" where
  "run_on p sf t = (case run_prog p (world_of sf t) of (r, w) \<Rightarrow> (r, view w, tr w))"

lemma world_of_simps [simp]:
  "tr (world_of sf t) = t" "view (world_of sf t) = sf" "(world_of sf t)\<lparr>tr := t'\<rparr> = world_of sf t'"
  "put_shared sf' (world_of sf t) = world_of sf' t"
  by (simp_all add: world_of_def view_def put_shared_def)

lemma run_on_simps [simp]:
  "run_on Done sf t = (Inr (), sf, t)"
  "run_on (ReadExact n k) sf t = (case t_read_exact n t of
     (Inl e, t') \<Rightarrow> (Inl (Io e), sf, t') | (Inr bs, t') \<Rightarrow> run_on (k bs) sf t')"
  "run_on (WriteAll bs p) sf t = (case t_write_all bs t of
     (Inl e, t') \<Rightarrow> (Inl (Io e), sf, t') | (Inr _, t') \<Rightarrow> run_on p sf t')"
  "run_on (Section u f g) sf t = run_on (g sf) (f sf) t"
  "run_on (Unlock p) sf t = run_on p sf t"
  by (simp_all add: run_on_def split: prod.split sum.split)

definition turn_on :: "clock \<Rightarrow> shared \<Rightarrow> transport \<Rightarrow> (server_error + unit) \<times> shared \<times> transport" where
  "turn_on c sf t = (case t_read_exact 1 t of
     (Inl e, t') \<Rightarrow> (Inl (if kind e = UnexpectedEof then Eof else Io e), sf, t')
   | (Inr byte, t') \<Rightarrow> run_on (dispatch_prog c (from_byte (byte ! 0))) sf t')"

lemma whole_turn_on:
  "q_pc q = Idle \<Longrightarrow> turn_on c sf (q_tr q) = (r, sf', t') \<Longrightarrow> whole c q sf = (finish r t' q, sf')"
  by (auto simp: whole_def turn_def turn_on_def run_on_def split: prod.splits sum.splits)

section \<open>Where a request takes effect\<close>

text \<open>
  A program is inert if it leaves the shared state alone, up to wake-ups, and does not
  depend on it; it is in shape if it is inert except for at most one section, before
  which it may only look at the drive table \<open>D\<close>.
\<close>

definition D_of :: "shared \<Rightarrow> (u8 \<times> dsk_file) list" where
  "D_of sf = drives (fst sf)"

primrec inert :: "prog \<Rightarrow> bool" where
  "inert Done \<longleftrightarrow> True"
| "inert (ReadExact n k) \<longleftrightarrow> (\<forall>bs. inert (k bs))"
| "inert (WriteAll bs p) \<longleftrightarrow> inert p"
| "inert (Section u f k) \<longleftrightarrow> (\<forall>sf. strip (f sf) = strip sf \<and> inert (k sf)) \<and> (\<forall>sf sf'. k sf = k sf')"
| "inert (Unlock p) \<longleftrightarrow> inert p"

definition commits :: "(shared \<Rightarrow> shared) \<Rightarrow> (shared \<Rightarrow> prog) \<Rightarrow> bool" where
  "commits f k \<longleftrightarrow> (\<forall>sf. D_of (f sf) = D_of sf) \<and>
     (\<forall>sf sf'. strip sf = strip sf' \<longrightarrow> strip (f sf) = strip (f sf') \<and> k sf = k sf')"

lemma commitsD:
  assumes "commits f k" "strip sf = strip sf'"
  shows "D_of (f sf) = D_of sf" "strip (f sf) = strip (f sf')" "k sf' = k sf"
proof -
  from assms(1) have d: "\<forall>sf. D_of (f sf) = D_of sf"
    and c: "\<forall>sf sf'. strip sf = strip sf' \<longrightarrow> strip (f sf) = strip (f sf') \<and> k sf = k sf'"
    unfolding commits_def by (rule conjunct1, rule conjunct2)
  from d show "D_of (f sf) = D_of sf" by (rule spec)
  from c [THEN spec, THEN spec, THEN mp, OF assms(2)]
  show "strip (f sf) = strip (f sf')" "k sf' = k sf" by simp_all
qed

primrec shape :: "(u8 \<times> dsk_file) list \<Rightarrow> prog \<Rightarrow> bool" where
  "shape D Done \<longleftrightarrow> True"
| "shape D (ReadExact n k) \<longleftrightarrow> (\<forall>bs. shape D (k bs))"
| "shape D (WriteAll bs p) \<longleftrightarrow> shape D p"
| "shape D (Section u f k) \<longleftrightarrow>
     (\<forall>sf. D_of sf = D \<longrightarrow> f sf = sf \<and> shape D (k sf)) \<and> (\<forall>sf sf'. D_of sf = D \<longrightarrow> D_of sf' = D \<longrightarrow> k sf = k sf') \<or>
     commits f k \<and> (\<forall>sf. inert (k sf))"
| "shape D (Unlock p) \<longleftrightarrow> shape D p"

lemma shape_sectionE:
  assumes "shape D (Section u f k)" "D_of sf = D"
  obtains (looks) "f sf = sf" "shape D (k sf)" "\<And>sf2. D_of sf2 = D \<Longrightarrow> f sf2 = sf2 \<and> k sf2 = k sf"
    | (commits) "commits f k" "inert (k sf)"
  using assms(1) unfolding shape.simps(4)
proof (elim disjE conjE)
  assume l: "\<forall>sf. D_of sf = D \<longrightarrow> f sf = sf \<and> shape D (k sf)"
    and k: "\<forall>sf sf'. D_of sf = D \<longrightarrow> D_of sf' = D \<longrightarrow> k sf = k sf'"
  show thesis
  proof (rule looks)
    show "f sf = sf" "shape D (k sf)" using l [THEN spec, THEN mp, OF assms(2)] by simp_all
    show "f sf2 = sf2 \<and> k sf2 = k sf" if "D_of sf2 = D" for sf2
      using l [THEN spec, THEN mp, OF that] k [THEN spec, THEN spec, THEN mp, THEN mp, OF that assms(2)] by simp
  qed
next
  assume "commits f k" "\<forall>sf. inert (k sf)"
  then show thesis by (intro commits) (simp_all del: split_paired_All)
qed

lemma strip_fields:
  assumes "strip sf = strip sf'"
  shows "D_of sf = D_of sf'" "vserial_outbox (fst sf) = vserial_outbox (fst sf')" "snd sf = snd sf'"
    "vserial_inbox (fst sf) = vserial_inbox (fst sf')" "vserial_open (fst sf) = vserial_open (fst sf')"
    "print_buffer (fst sf) = print_buffer (fst sf')" "drives (fst sf) = drives (fst sf')"
  using assms by (auto simp: strip_def D_of_def dest: arg_cong [of _ _ vserial_outbox] arg_cong [of _ _ vserial_inbox]
      arg_cong [of _ _ vserial_open] arg_cong [of _ _ print_buffer] arg_cong [of _ _ drives])

lemma strip_D: "strip sf = strip sf' \<Longrightarrow> D_of sf = D \<Longrightarrow> D_of sf' = D"
  by (drule strip_fields(1)) simp

lemma strip_iff:
  "strip sf = strip sf' \<longleftrightarrow> drives (fst sf) = drives (fst sf') \<and> print_buffer (fst sf) = print_buffer (fst sf') \<and>
    vserial_inbox (fst sf) = vserial_inbox (fst sf') \<and> vserial_outbox (fst sf) = vserial_outbox (fst sf') \<and>
    vserial_open (fst sf) = vserial_open (fst sf') \<and> snd sf = snd sf'"
proof
  assume "strip sf = strip sf'"
  from strip_fields [OF this] show "drives (fst sf) = drives (fst sf') \<and> print_buffer (fst sf) = print_buffer (fst sf') \<and>
    vserial_inbox (fst sf) = vserial_inbox (fst sf') \<and> vserial_outbox (fst sf) = vserial_outbox (fst sf') \<and>
    vserial_open (fst sf) = vserial_open (fst sf') \<and> snd sf = snd sf'" by simp
qed (simp add: strip_def)

lemma inert_reply_sector: "inert (reply_sector ext sector)"
  by (simp add: reply_sector_def Let_def)

lemma shape_inert: "inert p \<Longrightarrow> shape D p"
  by (induction p) (auto simp: commits_def D_of_def strip_iff)

lemma shape_lookup:
  assumes "\<And>d. shape D (k d)"
  shows "shape D (Section u id (\<lambda>sf. k (drive_lookup slot (fst sf))))"
  using assms by (simp add: drive_lookup_def D_of_def)

lemma shape_disk:
  assumes "\<And>r. inert (k r)"
  shows "shape D (Section u (\<lambda>sf. (fst sf, snd (m (snd sf)))) (\<lambda>sf. k (fst (m (snd sf)))))"
  using assms by (simp add: commits_def strip_iff D_of_def)

definition read_rest :: "bool \<Rightarrow> lsn \<Rightarrow> dsk_file option \<Rightarrow> prog" where
  "read_rest ext l disk = (case disk of
     Some d \<Rightarrow> Section NoLock (\<lambda>sf. (fst sf, snd (dsk_read d l (snd sf)))) (\<lambda>sf.
       reply_sector ext (case fst (dsk_read d l (snd sf)) of Inr sector \<Rightarrow> sector | Inl e \<Rightarrow> zero_sector))
   | None \<Rightarrow> reply_sector ext zero_sector)"

lemma shape_read_rest: "shape D (read_rest ext l disk)"
  unfolding read_rest_def
  by (cases disk) (simp_all only: option.case shape_inert [OF inert_reply_sector]
      shape_disk [of "\<lambda>r. reply_sector ext (case r of Inr sector \<Rightarrow> sector | Inl e \<Rightarrow> zero_sector)", OF inert_reply_sector])

lemma shape_read: "shape D (read_prog ext)"
  unfolding read_prog_def read_rest_def [symmetric] Let_def shape.simps(2)
  by (intro allI shape_lookup shape_read_rest)

definition write_rest :: "lsn \<Rightarrow> bytes \<Rightarrow> dsk_file option \<Rightarrow> prog" where
  "write_rest l sector disk = (case disk of
     Some d \<Rightarrow> Section NoLock (\<lambda>sf. (fst sf, snd (dsk_write d l sector (snd sf)))) (\<lambda>sf.
       WriteAll [case fst (dsk_write d l sector (snd sf)) of Inr _ \<Rightarrow> 0 | Inl e \<Rightarrow> dw_error_code ErrWrite] Done)
   | None \<Rightarrow> WriteAll [dw_error_code ErrNotReady] Done)"

lemmas shape_disk_write = shape_disk [where m = "dsk_write d l sector"
  and k = "\<lambda>r. WriteAll [case r of Inr _ \<Rightarrow> 0 | Inl e \<Rightarrow> dw_error_code ErrWrite] Done" for d l sector]

lemma inert_status: "inert (WriteAll bs Done)"
  by simp

lemma shape_write_rest: "shape D (write_rest l sector disk)"
  unfolding write_rest_def
  by (cases disk) (simp_all only: option.case shape_inert [OF inert_status] shape_disk_write [OF inert_status])

lemma shape_if: "shape D p \<Longrightarrow> shape D q \<Longrightarrow> shape D (if b then p else q)"
  by simp

lemma shape_write: "shape D write_prog"
  unfolding write_prog_def write_rest_def [symmetric] Let_def shape.simps(2)
  by (intro allI shape_if shape_lookup shape_write_rest) simp

text \<open>An update of a field that is not the notifications, computed from such fields.\<close>

lemma shape_update:
  assumes "\<And>s. drives (f s) = drives s"
    and "\<And>sf sf'. strip sf = strip sf' \<Longrightarrow> strip (on_server f sf) = strip (on_server f sf') \<and> k sf = k sf'"
    and "\<And>sf. inert (k sf)"
  shows "shape D (Section u (on_server f) k)"
proof -
  have "D_of (on_server f sf) = D_of sf" for sf using assms(1) by (simp add: D_of_def on_server_def)
  with assms(2) have "commits (on_server f) k" unfolding commits_def by blast
  with assms(3) show ?thesis by (simp del: inert.simps)
qed

lemma shape_push: "shape D (push_prog ch b)"
  unfolding push_prog_def
  by (rule shape_update)
    (auto simp: push_store_def push_notify_def Let_def strip_iff on_server_def)

lemma shape_serread: "shape D serread_prog"
  unfolding serread_prog_def
  by (rule shape_update)
    (auto simp: serread_pop_def serread_reply_def strip_iff on_server_def split: option.split)

lemma shape_serreadm: "shape D serreadm_prog"
proof -
  have "shape D (Section Brief (on_server (\<lambda>s. snd (serreadm_take ch n s)))
      (\<lambda>sf. WriteAll (fst (serreadm_take ch n (fst sf))) Done))" for ch n
    by (rule shape_update)
      (auto simp: serreadm_take_def Let_def strip_iff on_server_def split: prod.split)
  then show ?thesis by (simp add: serreadm_prog_def Let_def del: shape.simps(4))
qed

lemma shape_updates:
  "shape D (update_prog (set_channel_open ch b))" "shape D (update_prog (serwritem_store ch buf))"
  "shape D (update_prog (\<lambda>s. s\<lparr>print_buffer := print_buffer s @ bs\<rparr>))"
  "shape D (update_prog (\<lambda>s. if print_buffer s = [] then s else s\<lparr>print_buffer := []\<rparr>))"
  by (rule shape_update; auto simp: set_channel_open_def serwritem_store_def Let_def strip_iff on_server_def)+

lemma shape_dispatch: "shape D (dispatch_prog c d)"
proof (cases d)
  case (Op opc)
  then show ?thesis
    by (cases opc) (simp_all add: dispatch_prog_def shape_read shape_write shape_serread shape_serreadm shape_push
        shape_updates serwritem_prog_def sersetstat_prog_def Let_def del: shape.simps(4))
qed (simp_all add: dispatch_prog_def shape_push)

lemma inert_run:
  "inert p \<Longrightarrow> \<exists>r t'. \<forall>sf. \<exists>sf'. strip sf' = strip sf \<and> run_on p sf t = (r, sf', t')"
proof (induction p arbitrary: t)
  case (ReadExact n k)
  then show ?case
    by (cases "t_read_exact n t"; cases "fst (t_read_exact n t)") auto
next
  case (WriteAll bs p)
  then show ?case
    by (cases "t_write_all bs t"; cases "fst (t_write_all bs t)") auto
next
  case (Section u f k)
  obtain p where p: "\<And>sf. k sf = p" using Section.prems by (metis inert.simps(4))
  with Section.prems have "inert p" by (metis inert.simps(4))
  moreover have "p \<in> range k" using p by (metis rangeI)
  ultimately obtain r t' where "\<forall>sf. \<exists>sf'. strip sf' = strip sf \<and> run_on p sf t = (r, sf', t')"
    using Section.IH by blast
  with p Section.prems have "\<forall>sf. \<exists>sf'. strip sf' = strip sf \<and> run_on (Section u f k) sf t = (r, sf', t')"
    by (metis inert.simps(4) run_on_simps(4))
  then show ?case by blast
qed auto

section \<open>Simulation by the serial server\<close>

text \<open>
  How a session \<open>a\<close> relates to the same session \<open>b\<close> of the serial server: they are equal
  between requests; inside a request, either the serial server has not started it yet and
  the rest of the program amounts to the whole request, or it has finished it and the
  rest of the program only completes the same conversation.
\<close>

definition before :: "(u8 \<times> dsk_file) list \<Rightarrow> clock \<Rightarrow> prog \<Rightarrow> sess \<Rightarrow> sess \<Rightarrow> bool" where
  "before D c p a b \<longleftrightarrow> q_pc b = Idle \<and> q_n b = q_n a \<and> shape D p \<and>
     (\<forall>sf. D_of sf = D \<longrightarrow> run_on p sf (q_tr a) = turn_on c sf (q_tr b))"

definition completes :: "prog \<Rightarrow> sess \<Rightarrow> sess \<Rightarrow> bool" where
  "completes p a b \<longleftrightarrow> inert p \<and> (\<forall>sf r sf' t'. run_on p sf (q_tr a) = (r, sf', t') \<longrightarrow> b = finish r t' a)"

definition follows :: "(u8 \<times> dsk_file) list \<Rightarrow> (nat \<Rightarrow> clock) \<Rightarrow> sess \<Rightarrow> sess \<Rightarrow> bool" where
  "follows D clk a b \<longleftrightarrow>
     (case q_pc a of Running p \<Rightarrow> before D (clk (q_n a)) p a b \<or> completes p a b | _ \<Rightarrow> b = a)"

lemma finish_tr [simp]: "finish r t (a\<lparr>q_tr := t0, q_pc := p\<rparr>) = finish r t a"
  "finish r t (a\<lparr>q_pc := p\<rparr>) = finish r t a" "finish r t (a\<lparr>q_tr := t0\<rparr>) = finish r t a"
  by (simp_all add: finish_def split: sum.split)

lemma finish_n: "q_n b = q_n a \<Longrightarrow> finish r t b = finish r t a"
  by (simp add: finish_def split: sum.split)

text \<open>A inert program completes its conversation the same way from every state.\<close>

lemma completesI:
  assumes "inert p" "run_on p sf (q_tr a) = (r, sf', t')"
  shows "completes p a (finish r t' a)" "strip sf' = strip sf"
proof -
  obtain r0 t0 where "\<forall>sf. \<exists>sf'. strip sf' = strip sf \<and> run_on p sf (q_tr a) = (r0, sf', t0)"
    using inert_run [OF assms(1)] by blast
  with assms show "completes p a (finish r t' a)" "strip sf' = strip sf"
    unfolding completes_def by (metis prod.inject)+
qed

text \<open>The serial server performs the whole request of which the concurrent one has a rest.\<close>

lemma before_whole:
  assumes "before D c p a b" "D_of sf = D" "run_on p sf (q_tr a) = (r, sf', t')"
  shows "whole c b sf = (finish r t' a, sf')"
  using assms whole_turn_on [of b c sf r sf' t'] finish_n [of b a]
  by (simp add: before_def del: split_paired_All)

text \<open>
  One step of a session: the serial server either waits, or performs the request in one go.
\<close>

definition matched :: "(u8 \<times> dsk_file) list \<Rightarrow> (nat \<Rightarrow> clock) \<Rightarrow> sess \<Rightarrow> shared \<Rightarrow> sess \<Rightarrow> shared \<Rightarrow> bool" where
  "matched D clk a sf b sfz \<longleftrightarrow> follows D clk a b \<and> strip sf = strip sfz"

definition answered :: "(u8 \<times> dsk_file) list \<Rightarrow> (nat \<Rightarrow> clock) \<Rightarrow> sess \<Rightarrow> shared \<Rightarrow> sess \<Rightarrow> shared \<Rightarrow> bool" where
  "answered D clk a sf b sfz \<longleftrightarrow> D_of sf = D \<and> (matched D clk a sf b sfz \<or>
     (case whole (clk (q_n b)) b sfz of (b', sfz') \<Rightarrow> matched D clk a sf b' sfz'))"

lemma finish_Ended: "finish (Inl e) t a = a\<lparr>q_tr := t, q_pc := Ended e\<rparr>"
  and finish_Idle: "finish (Inr u) t a = a\<lparr>q_tr := t, q_pc := Idle, q_n := Suc (q_n a)\<rparr>"
  by (simp_all add: finish_def)

lemma micro_idle:
  assumes "q_pc a = Idle" "strip sf = strip sfz" "D_of sf = D" "micro (clk (q_n a)) a sf = (a', sf')"
  shows "answered D clk a' sf' a sfz"
proof (cases "t_read_exact 1 (q_tr a)")
  case (Pair res t')
  show ?thesis
  proof (cases res)
    case (Inl e)
    with Pair assms(1) have "turn_on (clk (q_n a)) sfz (q_tr a) =
        (Inl (if kind e = UnexpectedEof then Eof else Io e), sfz, t')"
      by (simp add: turn_on_def)
    from whole_turn_on [OF assms(1) this] assms Pair Inl show ?thesis
      by (auto simp: micro_def answered_def matched_def follows_def finish_Ended)
  next
    case (Inr byte)
    with assms Pair have "before D (clk (q_n a)) (dispatch_prog (clk (q_n a)) (from_byte (byte ! 0))) a' a"
      by (auto simp: micro_def before_def turn_on_def shape_dispatch)
    with assms Pair Inr show ?thesis by (auto simp: micro_def answered_def matched_def follows_def)
  qed
qed

text \<open>A step that ends the request, and one that leaves a program with the same outcome.\<close>

lemma before_ends:
  assumes "before D (clk (q_n a)) p a b" "strip sf = strip sfz" "D_of sf = D"
    and "run_on p sfz (q_tr a) = (r, sfz, t')" "a' = finish r t' a"
  shows "answered D clk a' sf b sfz"
proof -
  have "q_n b = q_n a" using assms(1) by (simp add: before_def)
  moreover have "D_of sfz = D" using assms(2,3) by (rule strip_D)
  ultimately show ?thesis using before_whole [OF assms(1) _ assms(4)] assms(2,3,5)
    by (cases r) (auto simp: answered_def matched_def follows_def finish_def)
qed

lemma before_goes_on:
  assumes "before D (clk (q_n a)) p a b" "strip sf = strip sfz" "D_of sf = D"
    and "a' = a\<lparr>q_tr := t', q_pc := Running p'\<rparr>" "shape D p'"
    and "\<And>sf. D_of sf = D \<Longrightarrow> run_on p sf (q_tr a) = run_on p' sf t'"
  shows "answered D clk a' sf b sfz"
proof -
  have "before D (clk (q_n a)) p' a' b" using assms by (simp add: before_def del: split_paired_All)
  with assms show ?thesis by (simp add: answered_def matched_def follows_def)
qed

lemma before_commits:
  assumes "before D (clk (q_n a)) (Section u f k) a b" "strip sf = strip sfz" "D_of sf = D"
    and "commits f k" "inert (k sf)" "a' = a\<lparr>q_pc := Running (k sf)\<rparr>"
  shows "answered D clk a' (f sf) b sfz"
proof -
  have n: "q_n b = q_n a" "D_of sfz = D" using assms(1) strip_D [OF assms(2,3)] by (simp_all add: before_def)
  have f: "D_of (f sf) = D" "strip (f sf) = strip (f sfz)" "k sfz = k sf"
    using commitsD [OF assms(4,2)] assms(3) by simp_all
  obtain r sf' t' where r: "run_on (k sf) (f sfz) (q_tr a') = (r, sf', t')" by (metis prod_cases3)
  from completesI [OF assms(5) r] have c: "completes (k sf) a' (finish r t' a)" "strip sf' = strip (f sfz)"
    by (simp_all add: assms(6))
  from r f(3) assms(6) have "run_on (Section u f k) sfz (q_tr a) = (r, sf', t')" by simp
  from before_whole [OF assms(1) n(2) this] c f(1,2) n(1) assms(6) show ?thesis
    by (simp add: answered_def matched_def follows_def)
qed

lemma micro_before:
  assumes "before D (clk (q_n a)) p a b" "q_pc a = Running p" "strip sf = strip sfz" "D_of sf = D"
    and "micro (clk (q_n a)) a sf = (a', sf')"
  shows "answered D clk a' sf' b sfz"
proof (cases p)
  case Done
  show ?thesis
    using before_ends [where clk = clk and a = a and r = "Inr ()" and t' = "q_tr a" and a' = a', OF assms(1,3,4)] assms(2,5) Done
    by (auto simp: micro_def finish_Idle)
next
  case (ReadExact n k)
  obtain res t' where t: "t_read_exact n (q_tr a) = (res, t')" by (cases "t_read_exact n (q_tr a)")
  show ?thesis
  proof (cases res)
    case (Inl e)
    with t ReadExact assms(2,5) before_ends [where clk = clk and a = a and r = "Inl (Io e)" and t' = t' and a' = a', OF assms(1,3,4)] show ?thesis
      by (auto simp: micro_def finish_Ended)
  next
    case (Inr bs)
    with t ReadExact assms(1,2,5) before_goes_on [where clk = clk and a = a and a' = a' and t' = t' and p' = "k bs", OF assms(1,3,4)] show ?thesis
      by (auto simp: micro_def before_def)
  qed
next
  case (WriteAll bs p')
  obtain res t' where t: "t_write_all bs (q_tr a) = (res, t')" by (cases "t_write_all bs (q_tr a)")
  show ?thesis
  proof (cases res)
    case (Inl e)
    with t WriteAll assms(2,5) before_ends [where clk = clk and a = a and r = "Inl (Io e)" and t' = t' and a' = a', OF assms(1,3,4)] show ?thesis
      by (auto simp: micro_def finish_Ended)
  next
    case (Inr u)
    with t WriteAll assms(1,2,5) before_goes_on [where clk = clk and a = a and a' = a' and t' = t' and p' = p', OF assms(1,3,4)] show ?thesis
      by (auto simp: micro_def before_def)
  qed
next
  case (Section u f k)
  have a': "a' = a\<lparr>q_pc := Running (k sf)\<rparr>" "sf' = f sf" using assms(2,5) Section by (auto simp: micro_def)
  have sh: "shape D (Section u f k)" using assms(1) Section by (simp only: before_def)
  show ?thesis using sh assms(4)
  proof (cases rule: shape_sectionE)
    case looks
    with a' before_goes_on [where clk = clk and a = a and a' = a' and t' = "q_tr a" and p' = "k sf", OF assms(1,3,4)] Section show ?thesis by simp
  next
    case commits
    with before_commits [where clk = clk and a = a, OF assms(1) [unfolded Section] assms(3,4)] a' show ?thesis by simp
  qed
next
  case (Unlock p')
  with assms(1,2,5) before_goes_on [where clk = clk and a = a and a' = a' and t' = "q_tr a" and p' = p', OF assms(1,3,4)] show ?thesis
    by (auto simp: micro_def before_def)
qed

text \<open>After the serial server has answered, the rest only completes the conversation.\<close>

lemma completes_ends:
  assumes "completes p a b" "strip sf = strip sfz" "D_of sf = D"
    and "run_on p sf (q_tr a) = (r, sf, t')" "a' = finish r t' a"
  shows "answered D clk a' sf b sfz"
proof -
  have "b = a'" using assms(1,4,5) unfolding completes_def by blast
  with assms(2,3,5) show ?thesis by (cases r) (auto simp: answered_def matched_def follows_def finish_def)
qed

lemma completes_goes_on:
  assumes "completes p a b" "strip sf' = strip sfz" "D_of sf' = D"
    and "a' = a\<lparr>q_tr := t', q_pc := Running p'\<rparr>" "inert p'"
    and "run_on p sf (q_tr a) = run_on p' sf' t'"
  shows "answered D clk a' sf' b sfz"
proof -
  obtain r sf2 t2 where r: "run_on p' sf' (q_tr a') = (r, sf2, t2)" by (metis prod_cases3)
  with assms(1,4,6) have "b = finish r t2 a'" unfolding completes_def
    by (simp del: split_paired_All)
  with completesI(1) [OF assms(5) r] have "completes p' a' b" by simp
  with assms(2-4) show ?thesis by (simp add: answered_def matched_def follows_def)
qed

lemma micro_completes:
  assumes "completes p a b" "q_pc a = Running p" "strip sf = strip sfz" "D_of sf = D"
    and "micro (clk (q_n a)) a sf = (a', sf')"
  shows "answered D clk a' sf' b sfz"
proof (cases p)
  case Done
  show ?thesis
    using completes_ends [where r = "Inr ()" and t' = "q_tr a" and a' = a', OF assms(1,3,4)] assms(2,5) Done
    by (auto simp: micro_def finish_Idle)
next
  case (ReadExact n k)
  obtain res t' where t: "t_read_exact n (q_tr a) = (res, t')" by (cases "t_read_exact n (q_tr a)")
  show ?thesis
  proof (cases res)
    case (Inl e)
    with t ReadExact assms(2,5) completes_ends [where r = "Inl (Io e)" and t' = t' and a' = a', OF assms(1,3,4)]
    show ?thesis by (auto simp: micro_def finish_Ended)
  next
    case (Inr bs)
    with t ReadExact assms(1,2,5) completes_goes_on [where a' = a' and t' = t' and p' = "k bs", OF assms(1,3,4)]
    show ?thesis by (auto simp: micro_def completes_def)
  qed
next
  case (WriteAll bs p')
  obtain res t' where t: "t_write_all bs (q_tr a) = (res, t')" by (cases "t_write_all bs (q_tr a)")
  show ?thesis
  proof (cases res)
    case (Inl e)
    with t WriteAll assms(2,5) completes_ends [where r = "Inl (Io e)" and t' = t' and a' = a', OF assms(1,3,4)]
    show ?thesis by (auto simp: micro_def finish_Ended)
  next
    case (Inr u)
    with t WriteAll assms(1,2,5) completes_goes_on [where a' = a' and t' = t' and p' = p', OF assms(1,3,4)]
    show ?thesis by (auto simp: micro_def completes_def)
  qed
next
  case (Section u f k)
  then have "strip (f sf) = strip sf" "inert (k sf)" using assms(1) by (cases sf; simp add: completes_def)+
  then have q: "strip (f sf) = strip sfz" "D_of (f sf) = D" "inert (k sf)"
    using assms(3,4) strip_D [of sf "f sf"] by simp_all
  from completes_goes_on [where a' = a' and t' = "q_tr a" and p' = "k sf" and sf = sf, OF assms(1) q(1,2) _ q(3)]
    Section assms(2,5) show ?thesis by (auto simp: micro_def)
next
  case (Unlock p')
  with assms(1,2,5) completes_goes_on [where a' = a' and t' = "q_tr a" and p' = p', OF assms(1,3,4)] show ?thesis
    by (auto simp: micro_def completes_def)
qed

lemma micro_follows:
  assumes "follows D clk a b" "strip sf = strip sfz" "D_of sf = D" "micro (clk (q_n a)) a sf = (a', sf')"
  shows "answered D clk a' sf' b sfz"
proof (cases "q_pc a")
  case Idle
  with assms micro_idle show ?thesis by (simp add: follows_def)
next
  case (Running p)
  with assms(1) have "before D (clk (q_n a)) p a b \<or> completes p a b" by (simp add: follows_def)
  then show ?thesis
    using micro_before [where clk = clk and a = a, OF _ Running assms(2-4)]
      micro_completes [where clk = clk and a = a, OF _ Running assms(2-4)] by blast
next
  case (Ended e)
  with assms show ?thesis by (auto simp: follows_def micro_def answered_def matched_def)
qed

section \<open>Serialisability\<close>

definition simulates :: "(u8 \<times> dsk_file) list \<Rightarrow> (nat \<Rightarrow> nat \<Rightarrow> clock) \<Rightarrow> csys \<Rightarrow> csys \<Rightarrow> bool" where
  "simulates D clk y z \<longleftrightarrow> D_of (n_shared y) = D \<and> strip (n_shared y) = strip (n_shared z) \<and>
     n_drained y = n_drained z \<and> length (n_sess y) = length (n_sess z) \<and>
     (\<forall>i < length (n_sess y). follows D (clk i) (n_sess y ! i) (n_sess z ! i))"

text \<open>The operations of the host, which the serial server performs when they happen.\<close>

fun by_host :: "saction \<Rightarrow> bool" where
  "by_host (Step _) \<longleftrightarrow> False"
| "by_host (PeerStops _) \<longleftrightarrow> False"
| "by_host (PeerReads _) \<longleftrightarrow> False"
| "by_host _ \<longleftrightarrow> True"

lemma simulates_step:
  assumes "simulates D clk y z" "sess_step clk i y = Some y'"
  shows "simulates D clk y' z \<or> simulates D clk y' (serial clk (Step i) z)"
proof -
  let ?a = "n_sess y ! i" and ?b = "n_sess z ! i"
  obtain a' sf' where m: "micro (clk i (q_n ?a)) ?a (n_shared y) = (a', sf')" by (cases "micro (clk i (q_n ?a)) ?a (n_shared y)")
  with assms(2) have i: "i < length (n_sess y)" and y': "n_shared y' = sf'" "n_sess y' = (n_sess y)[i := a']"
      "n_drained y' = n_drained y"
    by (auto simp: sess_step_def Let_def split: if_splits)
  from assms(1) i have f: "follows D (clk i) ?a ?b" "strip (n_shared y) = strip (n_shared z)" "D_of (n_shared y) = D"
    by (simp_all add: simulates_def)
  from micro_follows [where clk = "clk i" and a = ?a, OF f m] have "answered D (clk i) a' sf' ?b (n_shared z)" .
  with assms(1) y' i show ?thesis
    by (auto simp: answered_def matched_def simulates_def nth_list_update split: prod.splits)
qed

lemma host_send_sim:
  assumes "simulates D clk y z"
  shows "simulates D clk (host_send ch bs y) (host_send ch bs z)"
  using assms by (auto simp: simulates_def host_send_def on_server_def strip_iff D_of_def send_to_vserial_def Let_def)

lemma host_drain_sim:
  assumes "simulates D clk y z"
  shows "simulates D clk (host_drain ch y) (host_drain ch z)"
  using assms by (auto simp: simulates_def host_drain_def on_server_def strip_iff D_of_def drain_vserial_def Let_def)

lemma accept_sim:
  assumes "simulates D clk y z"
  shows "simulates D clk (accept t y) (accept t z)"
  using assms by (auto simp: simulates_def accept_def nth_append new_sess_def follows_def less_Suc_eq)

lemma simulates_system_step:
  assumes "simulates D clk y z" "system_step clk a y y'"
  shows "\<exists>log. filter by_host log = filter by_host [a] \<and> simulates D clk y' (fold (serial clk) log z)"
  using assms(2)
proof (cases rule: system_step.cases)
  case (step i)
  with simulates_step [OF assms(1)] consider "simulates D clk y' z" | "simulates D clk y' (serial clk (Step i) z)" by blast
  then show ?thesis
  proof cases
    case 1
    then show ?thesis using step by (intro exI [of _ "[]"]) simp
  next
    case 2
    then show ?thesis using step by (intro exI [of _ "[Step i]"]) simp
  qed
next
  case (stops i)
  then show ?thesis using assms(1) by (intro exI [of _ "[]"]) (simp add: simulates_def)
next
  case (reads i)
  then show ?thesis using assms(1) by (intro exI [of _ "[]"]) (simp add: simulates_def)
qed (use assms(1) in \<open>auto intro!: exI [of _ "[a]"] host_send_sim host_drain_sim accept_sim\<close>)

interpretation serialised: forward_simulation "system_step clk" "serial clk" "simulates D clk" by_host for clk D
  by unfold_locales (rule simulates_system_step)

lemma simulates_new: "simulates (D_of sf) clk (csys_new sf) (csys_new sf)"
  by (simp add: simulates_def csys_new_def)

lemma settled_same:
  assumes "simulates D clk y z" "settled y"
  shows "n_sess z = n_sess y"
proof (rule nth_equalityI)
  show "length (n_sess z) = length (n_sess y)" using assms(1) by (simp add: simulates_def)
  fix i
  assume "i < length (n_sess z)"
  with assms have "follows D (clk i) (n_sess y ! i) (n_sess z ! i)" "\<nexists>p. q_pc (n_sess y ! i) = Running p"
    by (auto simp: simulates_def settled_def list_all_length split: pc.splits)
  then show "n_sess z ! i = n_sess y ! i" by (cases "q_pc (n_sess y ! i)") (auto simp: follows_def)
qed

text \<open>
  C2: concurrent sessions are serialisable.  Whatever steps the sessions and the host
  take, in whatever order, whenever no session is in the middle of a request there is an
  order of whole requests, in which the host's operations appear as they happened, that
  leads a server handling one request at a time to the same transports, outcomes and
  request counts of all sessions, the same bytes drained by the host and the same shared
  state, drives and files included; only the notifications of the inboxes may differ.
\<close>

theorem sessions_serialisable:
  assumes "system_run clk (csys_new sf) as y" "settled y"
  shows "\<exists>log. filter by_host log = filter by_host as \<and>
    n_sess (fold (serial clk) log (csys_new sf)) = n_sess y \<and>
    n_drained (fold (serial clk) log (csys_new sf)) = n_drained y \<and>
    strip (n_shared (fold (serial clk) log (csys_new sf))) = strip (n_shared y)"
proof -
  obtain log where "filter by_host log = filter by_host as"
      "simulates (D_of sf) clk y (fold (serial clk) log (csys_new sf))"
    using serialised.simulated_run [OF assms(1) simulates_new] by blast
  moreover from settled_same [OF this(2) assms(2)]
  have "n_sess (fold (serial clk) log (csys_new sf)) = n_sess y" .
  ultimately show ?thesis by (intro exI [of _ log]) (simp add: simulates_def)
qed

definition demo_start :: csys where
  "demo_start = csys_new (server_new, demo_fs)"

text \<open>Two guests whose requests overlap: a handshake and a byte for channel 1.\<close>

definition demo_overlap :: "saction list" where
  "demo_overlap = [Accept (closing [0x5A, 0x42]), Accept (closing [0x81, 65]), Step 0, Step 1, Step 0, Step 1,
     Step 1, Step 0, Drain 1, Step 1, Step 0, Step 1]"

theorem sessions_serialisable_witness:
  "\<exists>y. system_run (\<lambda>_ _. demo_clock) demo_start demo_overlap y \<and> settled y \<and>
     n_drained y = [(1, [65])] \<and> map (\<lambda>q. tx (q_tr q)) (n_sess y) = [[DWINIT_RESPONSE], []] \<and>
     (\<exists>log. filter by_host log = filter by_host demo_overlap \<and>
        n_drained (fold (serial (\<lambda>_ _. demo_clock)) log demo_start) = [(1, [65])])"
proof -
  have "case perform_all (\<lambda>_ _. demo_clock) demo_overlap demo_start of None \<Rightarrow> False
    | Some y \<Rightarrow> settled y \<and> n_drained y = [(1, [65])] \<and> map (\<lambda>q. tx (q_tr q)) (n_sess y) = [[DWINIT_RESPONSE], []]"
    by code_simp
  then obtain y where y: "perform_all (\<lambda>_ _. demo_clock) demo_overlap demo_start = Some y" "settled y"
    "n_drained y = [(1, [65])]" "map (\<lambda>q. tx (q_tr q)) (n_sess y) = [[DWINIT_RESPONSE], []]"
    by (auto split: option.splits)
  from system_runI [OF y(1)] have r: "system_run (\<lambda>_ _. demo_clock) demo_start demo_overlap y" .
  from sessions_serialisable [OF r [unfolded demo_start_def] y(2), folded demo_start_def]
  obtain log where "filter by_host log = filter by_host demo_overlap"
    "n_drained (fold (serial (\<lambda>_ _. demo_clock)) log demo_start) = n_drained y" by blast
  with r y show ?thesis by metis
qed

end
