(* ===== verification/Session_Lock.thy ===== *)
theory Session_Lock
  imports Sessions
begin

text \<open>
  The lock of the outboxes among concurrent sessions: who can hold it, for how long, and
  what happens to the other sessions and to the host meanwhile.
\<close>

section \<open>The lock of the outboxes\<close>

text \<open>
  A type system for programs: \<open>lock_typed p h\<close> says that \<open>p\<close> holds the lock for exactly \<open>h\<close>
  more steps (not at all if \<open>h\<close> is 0), that it never asks for a lock it holds, never
  waits for input while it holds one, never gives back one it does not hold and ends
  without, that every section keeps the server well-formed, that a section without
  the lock leaves the outboxes alone, and that the only section whose lock outlives it is
  the poll of SERREAD: what is written under the lock is the reply of a poll, and then the
  lock is given back and the request is over.
\<close>

primrec lock_typed :: "prog \<Rightarrow> nat \<Rightarrow> bool" where
  "lock_typed Done h \<longleftrightarrow> h = 0"
| "lock_typed (ReadExact n k) h \<longleftrightarrow> h = 0 \<and> (\<forall>bs. lock_typed (k bs) 0)"
| "lock_typed (WriteAll bs p) h \<longleftrightarrow>
     (if h = 0 then lock_typed p 0 else h = 2 \<and> lock_typed p 1 \<and> p = Unlock Done \<and> (\<exists>sf. bs = serread_reply sf))"
| "lock_typed (Section u f k) h \<longleftrightarrow> h = 0 \<and> (\<forall>sf. server_wf (fst sf) \<longrightarrow> server_wf (fst (f sf))) \<and>
     (u = NoLock \<longrightarrow> (\<forall>sf. vserial_outbox (fst (f sf)) = vserial_outbox (fst sf))) \<and>
     (u = Keep \<longrightarrow> (\<forall>sf. f sf = on_server serread_pop sf \<and> k sf = WriteAll (serread_reply sf) (Unlock Done))) \<and>
     (\<forall>sf. lock_typed (k sf) (if u = Keep then 2 else 0))"
| "lock_typed (Unlock p) h \<longleftrightarrow> h = 1 \<and> p = Done \<and> lock_typed p 0"

lemma server_wf_notify: "server_wf s \<Longrightarrow> server_wf (push_notify ch s)"
  and server_wf_store: "server_wf s \<Longrightarrow> server_wf (push_store ch b s)"
  by (simp_all add: server_wf_def push_notify_def push_store_def Let_def)

lemma server_wf_serread_pop: "server_wf s \<Longrightarrow> server_wf (serread_pop s)"
  by (simp add: server_wf_def serread_pop_def split: option.split prod.split)

lemma server_wf_serreadm: "server_wf s \<Longrightarrow> server_wf (snd (serreadm_take ch n s))"
  by (simp add: server_wf_def serreadm_take_def Let_def split: prod.split)

lemma server_wf_serwritem: "server_wf s \<Longrightarrow> server_wf (serwritem_store ch buf s)"
  by (simp add: server_wf_def serwritem_store_def Let_def)

lemma server_wf_print: "server_wf (s\<lparr>print_buffer := bs\<rparr>) \<longleftrightarrow> server_wf s"
  by (simp add: server_wf_def)

lemma outbox_frames:
  "vserial_outbox (push_store ch b s) = vserial_outbox s" "vserial_outbox (push_notify ch s) = vserial_outbox s"
  "vserial_outbox (set_channel_open ch v s) = vserial_outbox s"
  "vserial_outbox (serwritem_store ch buf s) = vserial_outbox s"
  by (simp_all add: push_store_def push_notify_def set_channel_open_def serwritem_store_def Let_def)

text \<open>Who holds the lock is about to write the reply of a poll, or to give the lock back.\<close>

definition polls :: "prog \<Rightarrow> bool" where
  "polls p \<longleftrightarrow> (\<exists>sf. p = WriteAll (serread_reply sf) (Unlock Done)) \<or> p = Unlock Done"

lemma locked_polls: "lock_typed p h \<Longrightarrow> 0 < h \<Longrightarrow> polls p"
  by (cases p) (auto simp: polls_def)

lemma typed_reply: "lock_typed (reply_sector ext sector) 0"
  by (simp add: reply_sector_def Let_def)

lemma typed_dispatch: "lock_typed (dispatch_prog c d) 0"
proof (cases d)
  case (Op opc)
  then show ?thesis
    by (cases opc) (simp_all add: dispatch_prog_def read_prog_def write_prog_def push_prog_def serread_prog_def
        serreadm_prog_def serwritem_prog_def sersetstat_prog_def typed_reply on_server_def server_wf_notify server_wf_store
        server_wf_serread_pop server_wf_serreadm server_wf_serwritem server_wf_print server_wf_set_open outbox_frames Let_def
        split: option.split, blast)
qed (simp_all add: dispatch_prog_def push_prog_def on_server_def server_wf_notify server_wf_store outbox_frames)

definition sess_typed :: "nat option \<Rightarrow> nat \<Rightarrow> sess \<Rightarrow> bool" where
  "sess_typed lock i q \<longleftrightarrow>
    (case q_pc q of
       Running p \<Rightarrow> (\<exists>h \<le> 2. lock_typed p h \<and> (0 < h \<longleftrightarrow> lock = Some i))
     | _ \<Rightarrow> lock \<noteq> Some i)"

definition system_typed :: "csys \<Rightarrow> bool" where
  "system_typed y \<longleftrightarrow> server_wf (fst (n_shared y)) \<and> (\<forall>i < length (n_sess y). sess_typed (n_lock y) i (n_sess y ! i)) \<and>
     (\<forall>i. n_lock y = Some i \<longrightarrow> i < length (n_sess y))"

text \<open>A step of session \<open>i\<close> keeps its own type, and those of the others.\<close>

lemma micro_typed:
  assumes "sess_typed lock i q" "server_wf (fst sf)" "micro c q sf = (q', sf')" "ready lock st (q_pc q)"
  shows "sess_typed (lock_after i (q_pc q) (q_pc q') lock) i q' \<and> server_wf (fst sf')"
proof (cases "q_pc q")
  case Idle
  with assms show ?thesis
    by (auto simp: micro_def sess_typed_def typed_dispatch split: prod.splits sum.splits)
next
  case (Running p)
  then obtain h where h: "lock_typed p h" "0 < h \<longleftrightarrow> lock = Some i" "h \<le> 2" using assms(1) by (auto simp: sess_typed_def)
  show ?thesis
  proof (cases p)
    case (WriteAll bs p')
    with h have "\<exists>h' \<le> 2. lock_typed p' h' \<and> (0 < h' \<longleftrightarrow> lock = Some i)"
      by (intro exI [of _ "h - 1"]) (auto split: if_splits)
    with Running WriteAll assms(2,3) show ?thesis
      by (auto simp: micro_def sess_typed_def split: prod.splits sum.splits)
  next
    case (Section u f k)
    with h assms(2) have w: "server_wf (fst (f sf))" "lock_typed (k sf) (if u = Keep then 2 else 0)" "h = 0"
      by (cases sf; simp)+
    from w(2) have "\<exists>h' \<le> 2. lock_typed (k sf) h' \<and> (0 < h' \<longleftrightarrow> u = Keep)"
      by (intro exI [of _ "if u = Keep then 2 else 0"]) simp
    with w(1,3) show ?thesis using Running Section h assms(3,4)
      by (cases u) (auto simp: micro_def sess_typed_def)
  qed (use Running h assms(2,3) in \<open>auto simp: micro_def sess_typed_def split: prod.splits sum.splits\<close>)
next
  case (Ended e)
  with assms show ?thesis by (auto simp: micro_def sess_typed_def)
qed

lemma lock_after_others:
  assumes "sess_typed lock i q" "ready lock st (q_pc q)" "j \<noteq> i"
  shows "lock_after i (q_pc q) pc' lock = Some j \<longleftrightarrow> lock = Some j"
  using assms by (cases "(i, q_pc q, pc', lock)" rule: lock_after.cases) (auto simp: sess_typed_def)

lemma sess_typed_cong: "(lock = Some i \<longleftrightarrow> lock' = Some i) \<Longrightarrow> sess_typed lock i q = sess_typed lock' i q"
  by (simp add: sess_typed_def split: pc.split)

lemma sess_step_typed:
  assumes "system_typed y" "sess_step clk i y = Some y'"
  shows "system_typed y'"
proof -
  let ?q = "n_sess y ! i"
  obtain q' sf' where m: "micro (clk i (q_n ?q)) ?q (n_shared y) = (q', sf')"
    by (cases "micro (clk i (q_n ?q)) ?q (n_shared y)")
  let ?l = "lock_after i (q_pc ?q) (q_pc q') (n_lock y)"
  from assms(2) m have i: "i < length (n_sess y)" "ready (n_lock y) (i \<in> n_stalled y) (q_pc ?q)"
    and y': "n_shared y' = sf'" "n_sess y' = (n_sess y)[i := q']" "n_lock y' = ?l"
    by (auto simp: sess_step_def Let_def split: if_splits)
  from assms(1) i(1) have t: "sess_typed (n_lock y) i ?q" "server_wf (fst (n_shared y))"
    by (simp_all add: system_typed_def)
  note own = micro_typed [OF t m i(2)] and others = lock_after_others [OF t(1) i(2)]
  have "sess_typed ?l j ((n_sess y)[i := q'] ! j)" if "j < length (n_sess y)" for j
  proof (cases "j = i")
    case False
    with assms(1) that sess_typed_cong [of ?l j "n_lock y"] others show ?thesis by (simp add: system_typed_def)
  qed (use own i(1) in simp)
  moreover have "j < length (n_sess y)" if "?l = Some j" for j
    using that others [of j] i(1) assms(1) by (cases "j = i") (auto simp: system_typed_def)
  ultimately show ?thesis using own y' by (simp add: system_typed_def)
qed

lemma system_step_typed:
  assumes "system_typed y" "system_step clk a y y'"
  shows "system_typed y'"
  using assms(2)
proof (cases rule: system_step.cases)
  case (step i)
  then show ?thesis using sess_step_typed [OF assms(1)] by simp
next
  case (accepted t)
  with assms(1) have "n_lock y \<noteq> Some (length (n_sess y))" by (auto simp: system_typed_def)
  with accepted assms(1) show ?thesis
    by (auto simp: system_typed_def accept_def nth_append new_sess_def sess_typed_def less_Suc_eq)
qed (use assms(1) in \<open>auto simp: system_typed_def host_send_def host_drain_def on_server_def server_wf_send server_wf_drain\<close>)

interpretation typed: kept_by_steps "system_step clk" system_typed for clk
  by unfold_locales (rule system_step_typed)

lemma system_typed_new: "server_wf (fst sf) \<Longrightarrow> system_typed (csys_new sf)"
  by (simp add: system_typed_def csys_new_def)

lemma holder_typed:
  assumes "system_typed y" "n_lock y = Some i"
  obtains p h where "i < length (n_sess y)" "q_pc (n_sess y ! i) = Running p" "lock_typed p h" "0 < h" "h \<le> 2"
proof -
  from assms have i: "i < length (n_sess y)" "sess_typed (Some i) i (n_sess y ! i)" by (auto simp: system_typed_def)
  then show thesis by (cases "q_pc (n_sess y ! i)") (auto simp: sess_typed_def intro: that)
qed

text \<open>
  C11: concurrent sessions are well typed.  However they are interleaved, the drive table
  and the channel arrays stay well-formed, and the lock of the outboxes is held by at
  most one session, which is inside SERREAD: it is about to write the two-byte reply of a
  poll, after which it gives the lock back and its request is over, or about to give it
  back.  Every other session never gives back a lock it does not hold, never asks for one
  it holds, and touches the outboxes in locked sections only.
\<close>

theorem sessions_well_typed:
  assumes "system_run clk (csys_new sf) as y" "server_wf (fst sf)"
  shows "system_typed y \<and>
    (\<forall>i. n_lock y = Some i \<longrightarrow> i < length (n_sess y) \<and>
      ((\<exists>sf. q_pc (n_sess y ! i) = Running (WriteAll (serread_reply sf) (Unlock Done))) \<or>
       q_pc (n_sess y ! i) = Running (Unlock Done)))"
proof -
  have t: "system_typed y" using typed.holds [OF assms(1) system_typed_new [OF assms(2)]] .
  moreover have "i < length (n_sess y) \<and> (\<exists>p. q_pc (n_sess y ! i) = Running p \<and> polls p)" if "n_lock y = Some i" for i
    using holder_typed [OF t that] locked_polls by metis
  ultimately show ?thesis unfolding polls_def by (metis (lifting))
qed

theorem sessions_well_typed_witness:
  "\<exists>y. perform_all (\<lambda>_ _. demo_clock) (demo_overlap @ [Accept (closing [0x43]), Step 2, Step 2]) demo_start = Some y \<and>
     n_lock y = Some 2 \<and> system_typed y \<and> (\<exists>p. q_pc (n_sess y ! 2) = Running p \<and> polls p)"
proof -
  let ?as = "demo_overlap @ [Accept (closing [0x43]), Step 2, Step 2]"
  have "case perform_all (\<lambda>_ _. demo_clock) ?as demo_start of None \<Rightarrow> False | Some y \<Rightarrow> n_lock y = Some 2"
    by code_simp
  then obtain y where y: "perform_all (\<lambda>_ _. demo_clock) ?as demo_start = Some y" "n_lock y = Some 2"
    by (auto split: option.splits)
  with sessions_well_typed [OF system_runI [OF y(1) [unfolded demo_start_def]]] show ?thesis by (auto simp: polls_def)
qed

section \<open>Progress\<close>

definition waits_for_peer :: "csys \<Rightarrow> nat \<Rightarrow> bool" where
  "waits_for_peer y i \<longleftrightarrow> i \<in> n_stalled y \<and> (\<exists>bs p. q_pc (n_sess y ! i) = Running (WriteAll bs p))"

lemma sess_step_ready:
  "i < length (n_sess y) \<Longrightarrow> sess_step clk i y \<noteq> None \<longleftrightarrow> ready (n_lock y) (i \<in> n_stalled y) (q_pc (n_sess y ! i))"
  by (simp add: sess_step_def Let_def split: prod.split)

lemma ready_cases:
  assumes "\<forall>e. q_pc (n_sess y ! i) \<noteq> Ended e"
  obtains (ready) "ready (n_lock y) (i \<in> n_stalled y) (q_pc (n_sess y ! i))"
    | (waits) "waits_for_peer y i"
    | (lock) u f k where "q_pc (n_sess y ! i) = Running (Section u f k)" "n_lock y \<noteq> None"
proof (cases "q_pc (n_sess y ! i)")
  case (Running p)
  then show thesis using that by (cases p) (auto simp: waits_for_peer_def)
qed (use assms that in auto)

text \<open>The holder of the lock waits for nothing but its own peer.\<close>

lemma holder_moves:
  assumes "system_typed y" "n_lock y = Some i" "\<not> waits_for_peer y i"
  shows "sess_step clk i y \<noteq> None"
proof -
  obtain p h where p: "i < length (n_sess y)" "q_pc (n_sess y ! i) = Running p" "lock_typed p h" "0 < h" "h \<le> 2"
    using holder_typed [OF assms(1,2)] .
  then have "\<forall>e. q_pc (n_sess y ! i) \<noteq> Ended e" by simp
  then show ?thesis unfolding sess_step_ready [OF p(1)]
    by (cases rule: ready_cases) (use p(2-4) assms(3) in auto)
qed

text \<open>
  C12: concurrent sessions never deadlock.  In every reachable state each session that has
  not ended can move, unless it waits for its own peer to read a reply, or for the lock
  of the outboxes held by another session; and that one in turn can move unless it waits
  for its own peer.  With peers that read, some session can therefore always move.
\<close>

theorem sessions_never_deadlock:
  assumes "system_run clk (csys_new sf) as y" "server_wf (fst sf)"
    and "i < length (n_sess y)" "\<forall>e. q_pc (n_sess y ! i) \<noteq> Ended e"
  shows "sess_step clk i y \<noteq> None \<or> waits_for_peer y i \<or>
    (\<exists>j. j \<noteq> i \<and> n_lock y = Some j \<and> (waits_for_peer y j \<or> sess_step clk j y \<noteq> None))"
proof -
  have t: "system_typed y" using typed.holds [OF assms(1) system_typed_new [OF assms(2)]] .
  from assms(4) show ?thesis
  proof (cases rule: ready_cases)
    case ready
    then show ?thesis using sess_step_ready [OF assms(3)] by blast
  next
    case (lock u f k)
    then obtain j where j: "n_lock y = Some j" by blast
    have "j \<noteq> i"
    proof
      assume ji: "j = i"
      obtain p h where "q_pc (n_sess y ! j) = Running p" "lock_typed p h" "0 < h" using holder_typed [OF t j] .
      with ji lock(1) show False by auto
    qed
    with j holder_moves [OF t j] show ?thesis by blast
  qed simp
qed

lemma unlock_step:
  assumes "i < length (n_sess y)" "q_pc (n_sess y ! i) = Running (Unlock p)"
  shows "\<exists>y'. sess_step clk i y = Some y' \<and> n_lock y' = None"
  using assms by (simp add: sess_step_def micro_def)

lemma write_step:
  assumes "i < length (n_sess y)" "q_pc (n_sess y ! i) = Running (WriteAll bs p)" "i \<notin> n_stalled y" "n_lock y = Some i"
  shows "\<exists>y'. sess_step clk i y = Some y' \<and>
    (n_lock y' = None \<or> i < length (n_sess y') \<and> q_pc (n_sess y' ! i) = Running p)"
proof (cases "t_write_all bs (q_tr (n_sess y ! i))")
  case (Pair r t')
  with assms show ?thesis by (cases r) (simp_all add: sess_step_def micro_def)
qed

text \<open>
  The lock of the outboxes is released.  A session that holds it and whose peer reads
  has given it back after at most two steps of its own.
\<close>

theorem outbox_lock_released:
  assumes "system_run clk (csys_new sf) as y" "server_wf (fst sf)"
    and "n_lock y = Some i" "i \<notin> n_stalled y"
  shows "\<exists>y'. (perform_all clk [Step i] y = Some y' \<or> perform_all clk [Step i, Step i] y = Some y') \<and> n_lock y' = None"
proof -
  have t: "system_typed y" using typed.holds [OF assms(1) system_typed_new [OF assms(2)]] .
  obtain p h where p: "i < length (n_sess y)" "q_pc (n_sess y ! i) = Running p" "lock_typed p h" "0 < h" "h \<le> 2"
    using holder_typed [OF t assms(3)] .
  show ?thesis
  proof (cases p)
    case (Unlock p')
    with unlock_step [OF p(1)] p(2) obtain y' where "sess_step clk i y = Some y'" "n_lock y' = None" by blast
    then show ?thesis by (intro exI [of _ y']) simp
  next
    case (WriteAll bs p')
    with p(3-5) have "\<exists>p''. p' = Unlock p''" by auto
    then obtain p'' where p'': "p' = Unlock p''" by blast
    obtain y1 where y1: "sess_step clk i y = Some y1" "n_lock y1 = None \<or>
        i < length (n_sess y1) \<and> q_pc (n_sess y1 ! i) = Running p'"
      using write_step [OF p(1) p(2) [unfolded WriteAll] assms(4,3)] by blast
    from y1(2) show ?thesis
    proof (elim disjE conjE)
      assume "n_lock y1 = None"
      with y1(1) show ?thesis by (intro exI [of _ y1]) simp
    next
      assume "i < length (n_sess y1)" "q_pc (n_sess y1 ! i) = Running p'"
      with p'' unlock_step obtain y' where "sess_step clk i y1 = Some y'" "n_lock y' = None" by blast
      with y1(1) show ?thesis by (intro exI [of _ y']) simp
    qed
  qed (use p(3,4) in auto)
qed

text \<open>
  A guest on the way to its reply of SERREAD: channel 1 holds a byte, the guest has asked,
  and the second guest asks too.
\<close>

definition demo_serread :: "saction list" where
  "demo_serread = [Send 1 [65], Accept (closing [0x43]), Accept (closing [0x43]), Step 0, Step 0, Step 1]"

lemma demo_serread_eval:
  "\<exists>y. perform_all (\<lambda>_ _. demo_clock) demo_serread demo_start = Some y \<and> n_lock y = Some 0 \<and> n_stalled y = {} \<and>
     length (n_sess y) = 2 \<and> sess_step (\<lambda>_ _. demo_clock) 1 y = None \<and> (\<forall>e. q_pc (n_sess y ! 1) \<noteq> Ended e)"
proof -
  have "case perform_all (\<lambda>_ _. demo_clock) demo_serread demo_start of None \<Rightarrow> False
    | Some y \<Rightarrow> n_lock y = Some 0 \<and> Set.is_empty (n_stalled y) \<and> length (n_sess y) = 2 \<and>
        Option.is_none (sess_step (\<lambda>_ _. demo_clock) 1 y) \<and> (case q_pc (n_sess y ! 1) of Ended e \<Rightarrow> False | _ \<Rightarrow> True)"
    by code_simp
  then show ?thesis by (force simp: Set.is_empty_iff Option.is_none_def split: option.splits pc.splits)
qed

theorem sessions_never_deadlock_witness:
  "\<exists>y. system_run (\<lambda>_ _. demo_clock) demo_start demo_serread y \<and> sess_step (\<lambda>_ _. demo_clock) 1 y = None \<and>
     \<not> waits_for_peer y 1 \<and> sess_step (\<lambda>_ _. demo_clock) 0 y \<noteq> None"
proof -
  obtain y where y: "perform_all (\<lambda>_ _. demo_clock) demo_serread demo_start = Some y" "n_lock y = Some 0" "n_stalled y = {}"
     "length (n_sess y) = 2" "sess_step (\<lambda>_ _. demo_clock) 1 y = None" "\<forall>e. q_pc (n_sess y ! 1) \<noteq> Ended e"
    using demo_serread_eval by blast
  from system_runI [OF y(1)] have r: "system_run (\<lambda>_ _. demo_clock) demo_start demo_serread y" .
  have "\<not> waits_for_peer y j" for j using y(3) by (simp add: waits_for_peer_def)
  with sessions_never_deadlock [OF r [unfolded demo_start_def] _ _ y(6)] y r show ?thesis by auto
qed

theorem outbox_lock_released_witness:
  "\<exists>y y'. system_run (\<lambda>_ _. demo_clock) demo_start demo_serread y \<and> n_lock y = Some 0 \<and>
     (perform_all (\<lambda>_ _. demo_clock) [Step 0] y = Some y' \<or> perform_all (\<lambda>_ _. demo_clock) [Step 0, Step 0] y = Some y') \<and>
     n_lock y' = None"
proof -
  obtain y where y: "perform_all (\<lambda>_ _. demo_clock) demo_serread demo_start = Some y" "n_lock y = Some 0" "n_stalled y = {}"
    using demo_serread_eval by blast
  from system_runI [OF y(1)] have r: "system_run (\<lambda>_ _. demo_clock) demo_start demo_serread y" .
  with outbox_lock_released [OF r [unfolded demo_start_def] _ y(2)] y(2,3) show ?thesis
    by (auto simp del: perform_all.simps)
qed

section \<open>A guest that does not read\<close>

lemma micro_outbox:
  assumes "sess_typed (Some i) j q" "j \<noteq> i" "ready (Some i) st (q_pc q)" "micro c q sf = (q', sf')"
  shows "vserial_outbox (fst sf') = vserial_outbox (fst sf)"
proof (cases "q_pc q")
  case (Running p)
  with assms(1) obtain h where "lock_typed p h" by (auto simp: sess_typed_def)
  then show ?thesis using Running assms(3,4)
    by (cases p; cases sf) (auto simp: micro_def split: prod.splits sum.splits)
qed (use assms(4) in \<open>auto simp: micro_def split: prod.splits sum.splits\<close>)

lemma blocked_step:
  assumes "system_typed y" "n_lock y = Some i" "waits_for_peer y i" "system_step clk a y y'" "a \<noteq> PeerReads i"
  shows "n_lock y' = Some i \<and> waits_for_peer y' i \<and>
    vserial_outbox (fst (n_shared y')) = vserial_outbox (fst (n_shared y)) \<and>
    (\<forall>ch bs. a = Send ch bs \<longrightarrow> VSERIAL_CHANNELS \<le> unat ch)"
  using assms(4)
proof (cases rule: system_step.cases)
  case (step j)
  let ?q = "n_sess y ! j"
  obtain q' sf' where m: "micro (clk j (q_n ?q)) ?q (n_shared y) = (q', sf')"
    by (cases "micro (clk j (q_n ?q)) ?q (n_shared y)")
  from step(2) m assms(2) have j: "j < length (n_sess y)" "ready (Some i) (j \<in> n_stalled y) (q_pc ?q)"
    and y': "n_shared y' = sf'" "n_sess y' = (n_sess y)[j := q']" "n_lock y' = lock_after j (q_pc ?q) (q_pc q') (Some i)"
      "n_stalled y' = n_stalled y"
    by (auto simp: sess_step_def Let_def split: if_splits)
  have ij: "i \<noteq> j" using assms(3) j(2) by (auto simp: waits_for_peer_def)
  have t: "sess_typed (Some i) j ?q" using assms(1,2) j(1) by (simp add: system_typed_def)
  from lock_after_others [OF t j(2) ij] micro_outbox [OF t ij [symmetric] j(2) m] y' ij assms(3) step(1)
  show ?thesis by (simp add: waits_for_peer_def)
next
  case (accepted t)
  from assms(1,2) have "i < length (n_sess y)" by (simp add: system_typed_def)
  with accepted assms(2,3) show ?thesis by (simp add: waits_for_peer_def accept_def nth_append)
next
  case (send ch bs)
  then show ?thesis using assms(2,3)
    by (simp add: host_send_def on_server_def waits_for_peer_def send_to_vserial_def Let_def)
next
  case (drain ch)
  then show ?thesis using assms(2,3)
    by (simp add: host_drain_def on_server_def waits_for_peer_def drain_vserial_def Let_def)
qed (use assms(2,3,5) in \<open>auto simp: waits_for_peer_def\<close>)

text \<open>
  C33: one guest that does not read blocks the channels of all.  The session of a guest
  that asked with SERREAD and does not read the reply keeps the lock of the outboxes; as
  long as that guest does not read, whatever everybody else does, the lock stays with it,
  no byte enters or leaves the outbox of any channel, and no data sent by the host to any
  existing channel gets through.
\<close>

theorem stalled_guest_blocks_channels:
  assumes "system_run clk (csys_new sf) as y" "server_wf (fst sf)" "n_lock y = Some i" "waits_for_peer y i"
    and "system_run clk y bs y'" "PeerReads i \<notin> set bs"
  shows "n_lock y' = Some i \<and> vserial_outbox (fst (n_shared y')) = vserial_outbox (fst (n_shared y)) \<and>
    (\<forall>ch d. Send ch d \<in> set bs \<longrightarrow> VSERIAL_CHANNELS \<le> unat ch)"
proof -
  have t: "system_typed y" using typed.holds [OF assms(1) system_typed_new [OF assms(2)]] .
  from assms(5,6) have "n_lock y' = Some i \<and> waits_for_peer y' i \<and>
      vserial_outbox (fst (n_shared y')) = vserial_outbox (fst (n_shared y)) \<and>
      (\<forall>ch d. Send ch d \<in> set bs \<longrightarrow> VSERIAL_CHANNELS \<le> unat ch)"
  proof induction
    case start
    then show ?case using assms(3,4) by simp
  next
    case (step bs y1 a y2)
    have "system_typed y1" using typed.holds [OF step.hyps(1) t] .
    with blocked_step [OF this _ _ step.hyps(2), of i] step.IH step.prems show ?case by auto
  qed
  then show ?thesis by blast
qed

theorem stalled_guest_blocks_channels_witness:
  "\<exists>y y'. system_run (\<lambda>_ _. demo_clock) demo_start (demo_serread @ [PeerStops 0]) y \<and>
     system_run (\<lambda>_ _. demo_clock) y [Send 99 [1], Drain 3, Accept (closing [0x5A]), Step 2] y' \<and>
     n_lock y' = Some 0 \<and> vserial_outbox (fst (n_shared y')) = vserial_outbox (fst (n_shared y))"
proof -
  let ?c = "\<lambda>_ _. demo_clock" and ?bs = "[Send 99 [1], Drain 3, Accept (closing [0x5A]), Step 2]"
  have "case perform_all ?c (demo_serread @ [PeerStops 0]) demo_start of None \<Rightarrow> False
    | Some y \<Rightarrow> n_lock y = Some 0 \<and> 0 \<in> n_stalled y \<and>
        (case q_pc (n_sess y ! 0) of Running (WriteAll bs p) \<Rightarrow> True | _ \<Rightarrow> False) \<and>
        \<not> Option.is_none (perform_all ?c ?bs y)"
    by code_simp
  then obtain y y' where y: "perform_all ?c (demo_serread @ [PeerStops 0]) demo_start = Some y" "n_lock y = Some 0"
    "waits_for_peer y 0" and y': "perform_all ?c ?bs y = Some y'"
    by (auto simp: waits_for_peer_def Option.is_none_def simp del: perform_all.simps split: option.splits pc.splits prog.splits)
  note r = system_runI [OF y(1)] system_runI [OF y']
  from stalled_guest_blocks_channels [OF r(1) [unfolded demo_start_def] _ y(2,3) r(2)] r show ?thesis by auto
qed

end
