(* ===== verification/Terminal.thy ===== *)
theory Terminal
  imports Byte_Stream
begin

text \<open>
  The terminal side of \<open>dw attach\<close>: the escape-key state machine between the keyboard
  and the socket and the line-ending translation between the socket and the screen.
  Both carry one bit of state across reads whose boundaries are arbitrary; the locale
  \<open>stream_filter\<close> states once that such a filter does not see the boundaries.
\<close>

section \<open>Filters over chunks\<close>

text \<open>Feeding a list of chunks one after the other, collecting the output.\<close>

fun feed_chunks :: "('st \<Rightarrow> 'a list \<Rightarrow> 'b list \<times> 'st) \<Rightarrow> 'st \<Rightarrow> 'a list list \<Rightarrow> 'b list \<times> 'st" where
  "feed_chunks f st [] = ([], st)"
| "feed_chunks f st (c # cs) = (let (out, st') = f st c; (out', st'') = feed_chunks f st' cs in (out @ out', st''))"

locale stream_filter =
  fixes f :: "'st \<Rightarrow> 'a list \<Rightarrow> 'b list \<times> 'st"
  assumes f_Nil: "f st [] = ([], st)"
    and f_append: "f st (xs @ ys) = (let (out, st') = f st xs; (out', st'') = f st' ys in (out @ out', st''))"
begin

lemma chunks_do_not_matter: "feed_chunks f st cs = f st (concat cs)"
  by (induction cs arbitrary: st) (auto simp: f_Nil f_append case_prod_beta' Let_def)

end

section \<open>Escape keys\<close>

datatype escape_action = Continue | Exit

definition CTRL_A :: u8 where
  "CTRL_A = 0x01"

definition process_input_byte :: "u8 \<Rightarrow> bool \<Rightarrow> bytes \<Rightarrow> escape_action \<times> bool \<times> bytes" where
  "process_input_byte byte escape_armed out =
    (if escape_armed then
       (if byte = CTRL_A then (Continue, False, out @ [CTRL_A])
        else if byte = 0x71 \<or> byte = 0x51 then (Exit, False, out)
        else (Continue, False, out @ [CTRL_A, byte]))
     else if byte = CTRL_A then (Continue, True, out)
     else (Continue, False, out @ [byte]))"

text \<open>The inner loop over one read, which stops at \<open>Exit\<close>.\<close>

fun process_chunk :: "bytes \<Rightarrow> bool \<Rightarrow> bytes \<Rightarrow> bool \<times> bool \<times> bytes" where
  "process_chunk [] escape_armed out = (False, escape_armed, out)"
| "process_chunk (b # bs) escape_armed out =
    (case process_input_byte b escape_armed out of
       (Exit, armed', out') \<Rightarrow> (True, armed', out')
     | (Continue, armed', out') \<Rightarrow> process_chunk bs armed' out')"

text \<open>
  One turn of the task for the bytes of one read: whether the loop ends, and then whether
  by the escape key rather than by a failing write to the socket.
\<close>

definition stdin_turn :: "bytes \<Rightarrow> bool \<Rightarrow> transport \<Rightarrow> bool option \<times> bool \<times> transport" where
  "stdin_turn buf escape_armed t =
    (case process_chunk buf escape_armed [] of
       (exit, armed', out) \<Rightarrow>
         (case (if out \<noteq> [] then t_write_all out t else (Inr (), t)) of
            (Inl e, t') \<Rightarrow> (Some False, armed', t')
          | (Inr _, t') \<Rightarrow> (if exit then Some True else None, armed', t')))"

text \<open>The task run alone: the reads from standard input until it ends.\<close>

fun stdin_to_sock :: "bytes list \<Rightarrow> bool \<Rightarrow> transport \<Rightarrow> bool \<times> transport" where
  "stdin_to_sock [] escape_armed t = (False, t)"
| "stdin_to_sock (buf # reads) escape_armed t =
    (case stdin_turn buf escape_armed t of
       (Some exit, armed', t') \<Rightarrow> (exit, t')
     | (None, armed', t') \<Rightarrow> stdin_to_sock reads armed' t')"

section \<open>Line endings\<close>

fun normalize_byte :: "u8 \<Rightarrow> bool \<Rightarrow> bytes \<times> bool" where
  "normalize_byte b had_cr =
    (if b = 0x0D then ((if had_cr then [0x0D, 0x0A] else []), True)
     else if b = 0x0A then ([0x0D, 0x0A], False)
     else ((if had_cr then [0x0D, 0x0A] else []) @ [b], False))"

fun normalize_line_endings :: "bool \<Rightarrow> bytes \<Rightarrow> bytes \<times> bool" where
  "normalize_line_endings had_cr [] = ([], had_cr)"
| "normalize_line_endings had_cr (b # bs) =
    (let (out, had_cr') = normalize_byte b had_cr; (out', had_cr'') = normalize_line_endings had_cr' bs
     in (out @ out', had_cr''))"

text \<open>
  The task that copies what the guest sent to standard output: one turn, which ends it if
  the write fails, and the task run alone.
\<close>

definition sock_turn :: "bool \<Rightarrow> bytes \<Rightarrow> bool \<Rightarrow> transport \<Rightarrow> bool \<times> bool \<times> transport" where
  "sock_turn translate buf had_cr t =
    (case (if translate then normalize_line_endings had_cr buf else (buf, had_cr)) of
       (payload, had_cr') \<Rightarrow>
         (case t_write_all payload t of
            (Inl e, t') \<Rightarrow> (True, had_cr', t')
          | (Inr _, t') \<Rightarrow> (False, had_cr', t')))"

fun sock_to_stdout :: "bool \<Rightarrow> bytes list \<Rightarrow> bool \<Rightarrow> transport \<Rightarrow> transport" where
  "sock_to_stdout translate [] had_cr t = t"
| "sock_to_stdout translate (buf # reads) had_cr t =
    (case sock_turn translate buf had_cr t of
       (True, had_cr', t') \<Rightarrow> t'
     | (False, had_cr', t') \<Rightarrow> sock_to_stdout translate reads had_cr' t')"

section \<open>The escape machine as a filter\<close>

text \<open>Its state is the armed flag, or \<open>None\<close> once the user has left.\<close>

definition escape_filter :: "bool option \<Rightarrow> bytes \<Rightarrow> bytes \<times> bool option" where
  "escape_filter st bs =
    (case st of
       None \<Rightarrow> ([], None)
     | Some armed \<Rightarrow>
         (case process_chunk bs armed [] of (exit, armed', out) \<Rightarrow> (out, if exit then None else Some armed')))"

lemma process_chunk_out:
  "process_chunk bs armed out = (let (e, a, o') = process_chunk bs armed [] in (e, a, out @ o'))"
proof (induction bs arbitrary: armed out)
  case (Cons b bs)
  show ?case
    using Cons [of False "out @ [CTRL_A]"] Cons [of False "[CTRL_A]"] Cons [of False "out @ [b]"]
      Cons [of False "[b]"] Cons [of False "out @ [CTRL_A, b]"] Cons [of False "[CTRL_A, b]"]
      Cons [of True out]
    by (auto simp: process_input_byte_def case_prod_beta' Let_def)
qed simp

lemma process_chunk_append:
  "process_chunk (xs @ ys) armed out =
    (case process_chunk xs armed out of
       (True, a, o') \<Rightarrow> (True, a, o') | (False, a, o') \<Rightarrow> process_chunk ys a o')"
  by (induction xs arbitrary: armed out) (auto simp: process_input_byte_def)

interpretation esc: stream_filter escape_filter
proof
  show "escape_filter st [] = ([], st)" for st
    by (simp add: escape_filter_def split: option.split)
  show "escape_filter st (xs @ ys) =
      (let (out, st') = escape_filter st xs; (out', st'') = escape_filter st' ys in (out @ out', st''))" for st xs ys
  proof (cases st)
    case (Some armed)
    obtain e a o' where x: "process_chunk xs armed [] = (e, a, o')" by (metis prod_cases3)
    obtain e2 a2 o2 where y: "process_chunk ys a [] = (e2, a2, o2)" by (metis prod_cases3)
    from process_chunk_out [of ys a o'] x y Some show ?thesis
      by (cases e) (auto simp: escape_filter_def process_chunk_append Let_def)
  qed (simp add: escape_filter_def)
qed

interpretation crlf: stream_filter normalize_line_endings
proof
  show "normalize_line_endings st (xs @ ys) = (let (out, st') = normalize_line_endings st xs;
      (out', st'') = normalize_line_endings st' ys in (out @ out', st''))" for st xs ys
    by (induction xs arbitrary: st) (auto simp: case_prod_beta' Let_def simp del: normalize_byte.simps)
qed simp

section \<open>From the keyboard to the guest\<close>

lemma escape_filter_Some: "process_chunk buf armed [] = (e, a, out) \<Longrightarrow>
    escape_filter (Some armed) buf = (out, if e then None else Some a)"
  by (simp add: escape_filter_def)

lemma feed_escaped: "feed_chunks escape_filter None cs = ([], None)"
  by (induction cs) (auto simp: escape_filter_def)

lemma stdin_turn_filter:
  assumes "tx_fault t = None" "escape_filter (Some armed) buf = (out, st)"
  shows "\<exists>a. stdin_turn buf armed t = (if st = None then Some True else None, a, t\<lparr>tx := tx t @ out\<rparr>) \<and>
    (st \<noteq> None \<longrightarrow> st = Some a)"
proof -
  obtain e a out' where p: "process_chunk buf armed [] = (e, a, out')" by (metis prod_cases3)
  have w: "(if out' \<noteq> [] then t_write_all out' t else (Inr (), t)) = (Inr (), t\<lparr>tx := tx t @ out'\<rparr>)"
    using assms(1) by (simp add: t_write_all_def)
  show ?thesis
    using assms(2) unfolding stdin_turn_def p prod.case w by (auto simp: escape_filter_Some [OF p])
qed

lemma stdin_to_sock_filter:
  assumes "tx_fault t = None"
  shows "stdin_to_sock cs armed t =
    (case feed_chunks escape_filter (Some armed) cs of (out, st) \<Rightarrow> (st = None, t\<lparr>tx := tx t @ out\<rparr>))"
  using assms
proof (induction cs arbitrary: armed t)
  case (Cons buf reads)
  obtain out st where f: "escape_filter (Some armed) buf = (out, st)" by fastforce
  obtain a where a: "stdin_turn buf armed t = (if st = None then Some True else None, a, t\<lparr>tx := tx t @ out\<rparr>)"
      "st \<noteq> None \<longrightarrow> st = Some a"
    using stdin_turn_filter [OF Cons.prems f] by blast
  show ?case
  proof (cases st)
    case None
    with a f show ?thesis by (simp add: feed_escaped)
  next
    case (Some a')
    with a f Cons.IH [of "t\<lparr>tx := tx t @ out\<rparr>" a] Cons.prems show ?thesis
      by (simp add: case_prod_beta' Let_def)
  qed
qed simp

text \<open>What to type to send \<open>bs\<close>: every Ctrl-A twice.\<close>

definition typed :: "bytes \<Rightarrow> bytes" where
  "typed bs = concat (map (\<lambda>b. if b = CTRL_A then [CTRL_A, CTRL_A] else [b]) bs)"

lemma escape_typed: "escape_filter (Some False) (typed bs @ xs) =
    (let (out, st) = escape_filter (Some False) xs in (bs @ out, st))"
proof (induction bs)
  case (Cons b bs)
  have one: "escape_filter (Some False) (if b = CTRL_A then [CTRL_A, CTRL_A] else [b]) = ([b], Some False)"
    by (simp add: escape_filter_def process_input_byte_def)
  have "typed (b # bs) @ xs = (if b = CTRL_A then [CTRL_A, CTRL_A] else [b]) @ (typed bs @ xs)"
    by (simp add: typed_def)
  with Cons one show ?case by (simp only: esc.f_append) (simp add: case_prod_beta' Let_def)
qed (simp add: typed_def)

lemma stdin_typed:
  assumes "tx_fault t = None" "concat reads = typed bs"
  shows "stdin_to_sock reads False t = (False, t\<lparr>tx := tx t @ bs\<rparr>)"
proof -
  have "escape_filter (Some False) [] = ([], Some False)" by (rule esc.f_Nil)
  then have "escape_filter (Some False) (typed bs) = (bs, Some False)"
    using escape_typed [of bs "[]"] by simp
  then show ?thesis by (simp add: stdin_to_sock_filter [OF assms(1)] esc.chunks_do_not_matter assms(2))
qed

text \<open>
  The documented meaning of a whole stream of keystrokes, read with one key of look-ahead
  and no state: which bytes it sends and whether the user leaves.  A Ctrl-A that is still
  the last key has not been given a meaning yet.
\<close>

fun resolved :: "bytes \<Rightarrow> bytes \<times> bool" where
  "resolved [] = ([], False)"
| "resolved [b] = (if b = CTRL_A then [] else [b], False)"
| "resolved (b # c # bs) =
    (if b \<noteq> CTRL_A then apfst ((@) [b]) (resolved (c # bs))
     else if c = 0x71 \<or> c = 0x51 then ([], True)
     else apfst ((@) (if c = CTRL_A then [CTRL_A] else [CTRL_A, c])) (resolved bs))"

lemma escape_one:
  "b \<noteq> CTRL_A \<Longrightarrow> escape_filter (Some False) [b] = ([b], Some False)"
  "escape_filter (Some False) [CTRL_A] = ([], Some True)"
  "c = 0x71 \<or> c = 0x51 \<Longrightarrow> escape_filter (Some True) [c] = ([], None)"
  "\<not> (c = 0x71 \<or> c = 0x51) \<Longrightarrow>
     escape_filter (Some True) [c] = (if c = CTRL_A then [CTRL_A] else [CTRL_A, c], Some False)"
  by (auto simp: escape_filter_def process_input_byte_def CTRL_A_def)

lemma escape_Cons:
  "escape_filter st (b # bs) = (let (out, st') = escape_filter st [b]; (out', st'') = escape_filter st' bs in (out @ out', st''))"
  using esc.f_append [of st "[b]" bs] by simp

lemma escape_left: "escape_filter None bs = ([], None)"
  by (simp add: escape_filter_def)

lemma escape_resolved:
  "fst (escape_filter (Some False) bs) = fst (resolved bs) \<and>
   (snd (escape_filter (Some False) bs) = None \<longleftrightarrow> snd (resolved bs))"
proof (induction bs rule: resolved.induct)
  case (2 b)
  then show ?case by (cases "b = CTRL_A") (auto simp: escape_one)
next
  case (3 b c bs)
  consider "b \<noteq> CTRL_A" | "b = CTRL_A" "c = 0x71 \<or> c = 0x51" | "b = CTRL_A" "\<not> (c = 0x71 \<or> c = 0x51)" by blast
  then show ?case
  proof cases
    case 1
    with 3(1) escape_Cons [of "Some False" b "c # bs"] show ?thesis
      by (auto simp: escape_one case_prod_beta' Let_def)
  next
    case 2
    with escape_Cons [of "Some False" b "c # bs"] escape_Cons [of "Some True" c bs] show ?thesis
      by (auto simp: escape_one escape_left case_prod_beta' Let_def)
  next
    case 3
    with \<open>\<lbrakk>\<not> b \<noteq> CTRL_A; \<not> (c = 0x71 \<or> c = 0x51)\<rbrakk> \<Longrightarrow> _\<close>
      escape_Cons [of "Some False" b "c # bs"] escape_Cons [of "Some True" c bs] show ?thesis
      by (auto simp: escape_one case_prod_beta' Let_def)
  qed
qed (simp add: esc.f_Nil)

text \<open>
  C27: what standard input sends to the guest.  However any keystrokes are split into reads,
  the task sends exactly their documented meaning and ends by the escape key exactly when
  they ask for it: an ordinary key is itself, Ctrl-A Ctrl-A is a Ctrl-A, Ctrl-A and another
  key are both sent, and Ctrl-A with \<open>q\<close> or \<open>Q\<close> leaves, whatever is typed afterwards.  In
  particular a byte string typed with every Ctrl-A doubled is sent exactly, so all 256
  values can reach the guest, and the escape key after it leaves with exactly it sent.
\<close>

theorem keyboard_reaches_guest:
  assumes "tx_fault t = None"
  shows "stdin_to_sock reads False t =
      (snd (resolved (concat reads)), t\<lparr>tx := tx t @ fst (resolved (concat reads))\<rparr>) \<and>
    (concat reads = typed bs \<longrightarrow> stdin_to_sock reads False t = (False, t\<lparr>tx := tx t @ bs\<rparr>)) \<and>
    (concat reads = typed bs @ [CTRL_A, q] @ rest \<and> (q = 0x71 \<or> q = 0x51) \<longrightarrow>
       stdin_to_sock reads False t = (True, t\<lparr>tx := tx t @ bs\<rparr>))"
proof -
  have "stdin_to_sock reads False t = (True, t\<lparr>tx := tx t @ bs\<rparr>)"
    if "concat reads = typed bs @ [CTRL_A, q] @ rest" "q = 0x71 \<or> q = 0x51"
  proof -
    have "escape_filter (Some False) ([CTRL_A, q] @ rest) = ([], None)"
      using that(2) by (auto simp: escape_filter_def process_input_byte_def CTRL_A_def)
    then have "escape_filter (Some False) (typed bs @ [CTRL_A, q] @ rest) = (bs, None)"
      using escape_typed [of bs "[CTRL_A, q] @ rest"] by simp
    then show ?thesis by (simp add: stdin_to_sock_filter [OF assms] esc.chunks_do_not_matter that(1))
  qed
  with stdin_typed [OF assms] escape_resolved [of "concat reads"] show ?thesis
    by (auto simp: stdin_to_sock_filter [OF assms] esc.chunks_do_not_matter case_prod_beta')
qed

definition quiet :: transport where
  "quiet = \<lparr>rx = [], rx_end = early_eof, tx = [], tx_fault = None\<rparr>"

theorem keyboard_reaches_guest_witness:
  "stdin_to_sock [[0x41, 0x01], [0x01, 0x42]] False quiet = (False, quiet\<lparr>tx := [0x41, 0x01, 0x42]\<rparr>) \<and>
   stdin_to_sock [[0x41, 0x01], [0x62, 0x01], [0x71, 0x43]] False quiet = (True, quiet\<lparr>tx := [0x41, 0x01, 0x62]\<rparr>)"
  using keyboard_reaches_guest [of quiet "[[0x41, 0x01], [0x01, 0x42]]" "[0x41, 0x01, 0x42]"]
    keyboard_reaches_guest [of quiet "[[0x41, 0x01], [0x62, 0x01], [0x71, 0x43]]"]
  by (simp add: quiet_def CTRL_A_def)

section \<open>From the guest to the screen\<close>

text \<open>The translation as a whole: CR LF, CR and LF each end one line.\<close>

fun crlf_text :: "bytes \<Rightarrow> bytes" where
  "crlf_text [] = []"
| "crlf_text (b # bs) =
    (if b = 0x0D then
       (case bs of
          [] \<Rightarrow> [0x0D, 0x0A]
        | c # cs \<Rightarrow> if c = 0x0A then 0x0D # 0x0A # crlf_text cs else 0x0D # 0x0A # crlf_text bs)
     else if b = 0x0A then 0x0D # 0x0A # crlf_text bs
     else b # crlf_text bs)"

declare crlf_text.simps(2) [simp del]

definition held_cr :: "bool \<Rightarrow> bytes" where
  "held_cr had_cr = (if had_cr then [0x0D] else [])"

lemma normalize_crlf:
  "fst (normalize_line_endings h bs) @ crlf_text (held_cr (snd (normalize_line_endings h bs))) = crlf_text (held_cr h @ bs)"
proof (induction bs arbitrary: h)
  case (Cons b bs)
  show ?case
  proof (cases "b = 0x0D")
    case True
    with Cons [of True] show ?thesis
      by (cases h) (auto simp: held_cr_def case_prod_beta' Let_def crlf_text.simps(2))
  next
    case False
    with Cons [of False] show ?thesis
      by (cases h) (auto simp: held_cr_def case_prod_beta' Let_def crlf_text.simps(2))
  qed
qed (simp add: held_cr_def)

lemma sock_to_stdout_filter:
  assumes "tx_fault t = None"
  shows "sock_to_stdout True reads h t =
    t\<lparr>tx := tx t @ fst (feed_chunks normalize_line_endings h reads)\<rparr>"
  using assms
  by (induction reads arbitrary: h t) (auto simp: sock_turn_def t_write_all_def case_prod_beta' Let_def)

text \<open>In a well-formed text every CR is followed by LF and every LF preceded by CR.\<close>

fun crlf_ok :: "bytes \<Rightarrow> bool" where
  "crlf_ok [] = True"
| "crlf_ok (b # bs) =
    (if b = 0x0D then (case bs of c # cs \<Rightarrow> c = 0x0A \<and> crlf_ok cs | [] \<Rightarrow> False)
     else b \<noteq> 0x0A \<and> crlf_ok bs)"

lemma crlf_text_ok: "crlf_ok (crlf_text bs)"
proof (induction bs rule: crlf_text.induct)
  case (2 b bs)
  then show ?case unfolding crlf_text.simps(2) [of b bs] by (auto split: list.split)
qed simp

lemma crlf_text_keeps: "filter (\<lambda>b. b \<noteq> 0x0D \<and> b \<noteq> 0x0A) (crlf_text bs) = filter (\<lambda>b. b \<noteq> 0x0D \<and> b \<noteq> 0x0A) bs"
proof (induction bs rule: crlf_text.induct)
  case (2 b bs)
  then show ?case unfolding crlf_text.simps(2) [of b bs] by (auto split: list.split)
qed simp

lemma crlf_text_id: "crlf_ok bs \<Longrightarrow> crlf_text bs = bs"
proof (induction bs rule: crlf_ok.induct)
  case (2 b bs)
  then show ?case unfolding crlf_text.simps(2) [of b bs] by (auto split: list.splits if_splits)
qed simp

text \<open>The line end that is held back.\<close>

definition pending_line_end :: "bytes \<Rightarrow> bytes" where
  "pending_line_end content = (if content \<noteq> [] \<and> last content = 0x0D then [0x0D, 0x0A] else [])"

lemma normalize_pending: "fst (normalize_line_endings False bs) @ pending_line_end bs = crlf_text bs"
proof -
  have last: "snd (normalize_line_endings h bs) = (if bs = [] then h else last bs = 0x0D)" for h bs
    by (induction bs arbitrary: h) (auto simp: case_prod_beta' Let_def)
  show ?thesis
    using normalize_crlf [of False bs]
    by (auto simp: last held_cr_def pending_line_end_def crlf_text.simps(2) split: if_splits)
qed

lemma stdout_crlf:
  assumes "tx_fault t = None"
  shows "tx (sock_to_stdout True reads False t) @ pending_line_end (concat reads) = tx t @ crlf_text (concat reads)"
  using assms normalize_pending by (simp add: sock_to_stdout_filter crlf.chunks_do_not_matter)

text \<open>
  C26: line endings on the screen.  However the guest's output is split into reads, what has
  been written to the terminal is the whole text with every CR, LF and CR LF turned into
  CR LF, except that a line end for a CR that is the last byte so far is still held back.
  The translated text has no bare CR or LF, is otherwise unchanged, and text that already
  has CR LF line ends passes through as it is.
\<close>

theorem screen_line_endings:
  assumes "tx_fault t = None" "content = concat reads"
  shows "tx (sock_to_stdout True reads False t) @
      (if content \<noteq> [] \<and> last content = 0x0D then [0x0D, 0x0A] else []) = tx t @ crlf_text content \<and>
    crlf_ok (crlf_text content) \<and> (crlf_ok content \<longrightarrow> crlf_text content = content) \<and>
    filter (\<lambda>b. b \<noteq> 0x0D \<and> b \<noteq> 0x0A) (crlf_text content) = filter (\<lambda>b. b \<noteq> 0x0D \<and> b \<noteq> 0x0A) content"
  using stdout_crlf [OF assms(1), of reads] assms(2)
  by (simp add: pending_line_end_def crlf_text_ok crlf_text_id crlf_text_keeps)

theorem screen_line_endings_witness:
  "tx (sock_to_stdout True [[0x41, 0x0D], [0x0A, 0x0D, 0x42]] False quiet) = [0x41, 0x0D, 0x0A, 0x0D, 0x0A, 0x42]"
  using screen_line_endings [of quiet "[0x41, 0x0D, 0x0A, 0x0D, 0x42]" "[[0x41, 0x0D], [0x0A, 0x0D, 0x42]]"]
  by (simp add: quiet_def crlf_text.simps(2))

end
