(* ===== verification/Rust_Text.thy ===== *)
theory Rust_Text
  imports DW_Prelude
begin

text \<open>
  What the sources use of Rust's text library: UTF-8, \<open>char::is_whitespace\<close>, \<open>trim\<close>,
  \<open>trim_end\<close>, \<open>splitn\<close>, \<open>to_ascii_uppercase\<close>, \<open>starts_with\<close>, the decimal \<open>Display\<close> of
  integers, \<open>str::parse::<u8>\<close> and the \<open>Debug\<close> form of a string.  A \<open>str\<close> is a list
  of Unicode scalar values.  Which characters outside ASCII \<open>Debug\<close> prints unescaped is
  decided by Unicode tables and is the parameter \<open>up\<close> of \<open>str_debug\<close>.
\<close>

section \<open>UTF-8\<close>

definition scalar :: "uchar \<Rightarrow> bool" where
  "scalar c \<longleftrightarrow> c < 0xD800 \<or> 0xE000 \<le> c \<and> c < 0x110000"

definition utf8_char :: "uchar \<Rightarrow> nat list" where
  "utf8_char c =
    (if c < 0x80 then [c]
     else if c < 0x800 then [0xC0 + c div 64, 0x80 + c mod 64]
     else if c < 0x10000 then [0xE0 + c div 4096, 0x80 + c div 64 mod 64, 0x80 + c mod 64]
     else [0xF0 + c div 262144, 0x80 + c div 4096 mod 64, 0x80 + c div 64 mod 64, 0x80 + c mod 64])"

definition as_bytes :: "str \<Rightarrow> bytes" where
  "as_bytes s = map word_of_nat (concat (map utf8_char s))"

definition cont :: "nat \<Rightarrow> bool" where
  "cont b \<longleftrightarrow> 0x80 \<le> b \<and> b < 0xC0"

text \<open>\<open>std::str::from_utf8\<close>: no overlong forms, no surrogates, nothing above 0x10FFFF.\<close>

fun utf8_decode :: "nat list \<Rightarrow> str option" where
  "utf8_decode [] = Some []"
| "utf8_decode (b # bs) =
    (if b < 0x80 then map_option (Cons b) (utf8_decode bs)
     else if 0xC2 \<le> b \<and> b < 0xE0 then
       (case bs of
          c1 # bs' \<Rightarrow>
            (if cont c1 then map_option (Cons ((b - 0xC0) * 64 + (c1 - 0x80))) (utf8_decode bs') else None)
        | _ \<Rightarrow> None)
     else if 0xE0 \<le> b \<and> b < 0xF0 then
       (case bs of
          c1 # c2 # bs' \<Rightarrow>
            (if cont c1 \<and> cont c2 \<and> (b = 0xE0 \<longrightarrow> 0xA0 \<le> c1) \<and> (b = 0xED \<longrightarrow> c1 < 0xA0)
             then map_option (Cons ((b - 0xE0) * 4096 + (c1 - 0x80) * 64 + (c2 - 0x80))) (utf8_decode bs')
             else None)
        | _ \<Rightarrow> None)
     else if 0xF0 \<le> b \<and> b < 0xF5 then
       (case bs of
          c1 # c2 # c3 # bs' \<Rightarrow>
            (if cont c1 \<and> cont c2 \<and> cont c3 \<and> (b = 0xF0 \<longrightarrow> 0x90 \<le> c1) \<and> (b = 0xF4 \<longrightarrow> c1 < 0x90)
             then map_option (Cons ((b - 0xF0) * 262144 + (c1 - 0x80) * 4096 + (c2 - 0x80) * 64 + (c3 - 0x80)))
               (utf8_decode bs')
             else None)
        | _ \<Rightarrow> None)
     else None)"

definition from_utf8 :: "bytes \<Rightarrow> str option" where
  "from_utf8 bs = utf8_decode (map unat bs)"

lemma base64_digits:
  fixes c :: nat
  shows "c div 64 * 64 + c mod 64 = c"
    "c div 4096 * 4096 + c div 64 mod 64 * 64 + c mod 64 = c"
    "c div 262144 * 262144 + c div 4096 mod 64 * 4096 + c div 64 mod 64 * 64 + c mod 64 = c"
proof -
  show 1: "c div 64 * 64 + c mod 64 = c" by simp
  have 2: "c div 64 = c div 4096 * 64 + c div 64 mod 64" by (simp add: div_mult2_eq [of c 64 64, simplified])
  have 3: "c div 4096 = c div 262144 * 64 + c div 4096 mod 64"
    by (simp add: div_mult2_eq [of c 4096 64, simplified])
  show "c div 4096 * 4096 + c div 64 mod 64 * 64 + c mod 64 = c" using 1 2 by linarith
  then show "c div 262144 * 262144 + c div 4096 mod 64 * 4096 + c div 64 mod 64 * 64 + c mod 64 = c"
    using 3 by linarith
qed

lemma utf8_char_decode:
  assumes "scalar c"
  shows "utf8_decode (utf8_char c @ bs) = map_option (Cons c) (utf8_decode bs)"
proof -
  have m: "x mod 64 < 64" for x :: nat by simp
  consider "c < 0x80" | "0x80 \<le> c" "c < 0x800" | "0x800 \<le> c" "c < 0x10000" | "0x10000 \<le> c" by linarith
  then show ?thesis
  proof cases
    case 1
    then show ?thesis by (simp add: utf8_char_def)
  next
    case 2
    then have "utf8_char c = [0xC0 + c div 64, 0x80 + c mod 64]" by (simp add: utf8_char_def)
    moreover have "2 \<le> c div 64" "c div 64 < 32" using 2 by linarith+
    ultimately show ?thesis using m [of c] base64_digits(1) [of c] by (simp add: cont_def)
  next
    case 3
    let ?a = "c div 4096" and ?b = "c div 64 mod 64"
    have "?a < 16" using 3 by linarith
    moreover have "32 \<le> ?b" if "?a = 0" using that 3(1) base64_digits(2) [of c] m [of c] by linarith
    moreover have "?b < 32" if "?a = 13" using that assms base64_digits(2) [of c] m [of c] unfolding scalar_def by linarith
    ultimately show ?thesis using 3 m [of c] m [of "c div 64"] base64_digits(2) [of c]
      by (simp add: utf8_char_def cont_def)
  next
    case 4
    let ?a = "c div 262144" and ?b = "c div 4096 mod 64"
    have "?a < 5" using assms unfolding scalar_def by linarith
    moreover have "?a = 0 \<longrightarrow> 16 \<le> ?b"
      using 4 base64_digits(3) [of c] m [of c] m [of "c div 64"] by linarith
    moreover have "?b < 16" if "?a = 4"
      using that assms base64_digits(3) [of c] unfolding scalar_def by linarith
    ultimately show ?thesis using 4 m [of c] m [of "c div 64"] m [of "c div 4096"] base64_digits(3) [of c]
      by (auto simp: utf8_char_def cont_def)
  qed
qed

lemma utf8_char_bytes:
  assumes "scalar c" "b \<in> set (utf8_char c)"
  shows "b < 256 \<and> (c < 0x80 \<and> b = c \<or> 0x80 \<le> c \<and> 0x80 \<le> b)"
proof -
  have m: "x mod 64 < 64" for x :: nat by simp
  have "c < 0x800 \<Longrightarrow> c div 64 < 32" "c < 0x10000 \<Longrightarrow> c div 4096 < 16" "c div 262144 < 5"
    using assms(1) unfolding scalar_def by linarith+
  with assms m [of c] m [of "c div 64"] m [of "c div 4096"] show ?thesis
    by (auto simp: utf8_char_def split: if_splits)
qed

lemma unat_as_bytes:
  assumes "\<forall>c \<in> set s. scalar c"
  shows "map unat (as_bytes s) = concat (map utf8_char s)"
proof -
  have "unat (word_of_nat b :: u8) = b" if "b \<in> set (concat (map utf8_char s))" for b
    using that assms utf8_char_bytes by (auto simp: unsigned_of_nat take_bit_eq_mod)
  then show ?thesis by (auto simp: as_bytes_def intro: map_idI)
qed

lemma from_utf8_as_bytes_append:
  assumes "\<forall>c \<in> set s. scalar c"
  shows "from_utf8 (as_bytes s @ bs) = map_option ((@) s) (from_utf8 bs)"
proof -
  have "utf8_decode (concat (map utf8_char s) @ xs) = map_option ((@) s) (utf8_decode xs)" for xs
    using assms
    by (induction s) (cases "utf8_decode xs"; simp add: utf8_char_decode)+
  then show ?thesis using assms by (simp add: from_utf8_def unat_as_bytes)
qed

lemma from_utf8_as_bytes: "\<forall>c \<in> set s. scalar c \<Longrightarrow> from_utf8 (as_bytes s) = Some s"
  using from_utf8_as_bytes_append [of s "[]"] by (simp add: from_utf8_def)

lemma as_bytes_append: "as_bytes (s @ t) = as_bytes s @ as_bytes t"
  by (simp add: as_bytes_def)

text \<open>An ASCII character occurs in the encoding only as itself.\<close>

lemma ascii_in_as_bytes:
  assumes "\<forall>c \<in> set s. scalar c" "n < 0x80"
  shows "word_of_nat n \<in> set (as_bytes s) \<longleftrightarrow> n \<in> set s"
proof -
  have n: "unat (word_of_nat n :: u8) = n" using assms(2) by (simp add: unsigned_of_nat take_bit_eq_mod)
  have "word_of_nat n \<in> set (as_bytes s) \<longleftrightarrow> n \<in> unat ` set (as_bytes s)"
    using n by (metis (no_types, lifting) image_iff word_unat_eq_iff)
  also have "\<dots> \<longleftrightarrow> n \<in> set (concat (map utf8_char s))"
    using unat_as_bytes [OF assms(1)] by (metis set_map)
  also have "\<dots> \<longleftrightarrow> n \<in> set s"
    using assms utf8_char_bytes [of _ n] by (auto simp: utf8_char_def)
  finally show ?thesis .
qed

section \<open>Characters and words\<close>

definition char_is_whitespace :: "uchar \<Rightarrow> bool" where
  "char_is_whitespace c \<longleftrightarrow> 9 \<le> c \<and> c \<le> 13 \<or> c = 32 \<or> c = 0x85 \<or> c = 0xA0 \<or> c = 0x1680 \<or>
     0x2000 \<le> c \<and> c \<le> 0x200A \<or> c = 0x2028 \<or> c = 0x2029 \<or> c = 0x202F \<or> c = 0x205F \<or> c = 0x3000"

definition trim_start :: "str \<Rightarrow> str" where
  "trim_start = dropWhile char_is_whitespace"

definition trim_end :: "str \<Rightarrow> str" where
  "trim_end s = rev (dropWhile char_is_whitespace (rev s))"

definition trim :: "str \<Rightarrow> str" where
  "trim s = trim_end (trim_start s)"

text \<open>\<open>splitn(n, char::is_whitespace)\<close>: at most \<open>n\<close> pieces, the last one unsplit.\<close>

fun splitn_ws :: "nat \<Rightarrow> str \<Rightarrow> str list" where
  "splitn_ws 0 s = []"
| "splitn_ws (Suc 0) s = [s]"
| "splitn_ws (Suc (Suc n)) s =
    (case dropWhile (Not \<circ> char_is_whitespace) s of
       [] \<Rightarrow> [s]
     | _ # rest \<Rightarrow> takeWhile (Not \<circ> char_is_whitespace) s # splitn_ws (Suc n) rest)"

definition to_ascii_uppercase :: "str \<Rightarrow> str" where
  "to_ascii_uppercase = map (\<lambda>c. if 97 \<le> c \<and> c \<le> 122 then c - 32 else c)"

definition starts_with :: "str \<Rightarrow> str \<Rightarrow> bool" where
  "starts_with s p \<longleftrightarrow> take (length p) s = p"

section \<open>Numbers\<close>

fun show_nat :: "nat \<Rightarrow> str" where
  "show_nat n = (if n < 10 then [48 + n] else show_nat (n div 10) @ [48 + n mod 10])"

declare show_nat.simps [simp del]

definition is_digit :: "uchar \<Rightarrow> bool" where
  "is_digit c \<longleftrightarrow> 48 \<le> c \<and> c \<le> 57"

text \<open>
  \<open>parse::<u8>\<close>: an optional plus sign and at least one digit; the accumulation stops
  with an error as soon as the value leaves the range.
\<close>

fun parse_digits :: "nat \<Rightarrow> str \<Rightarrow> nat option" where
  "parse_digits acc [] = Some acc"
| "parse_digits acc (c # cs) =
    (if is_digit c \<and> acc * 10 + (c - 48) < 256 then parse_digits (acc * 10 + (c - 48)) cs else None)"

definition parse_u8 :: "str \<Rightarrow> u8 option" where
  "parse_u8 s =
    (let digits = (case s of c # cs \<Rightarrow> if c = 43 \<and> cs \<noteq> [] then cs else s | [] \<Rightarrow> []) in
     if digits = [] then None else map_option word_of_nat (parse_digits 0 digits))"

definition digits_value :: "nat \<Rightarrow> str \<Rightarrow> nat" where
  "digits_value = foldl (\<lambda>acc c. acc * 10 + (c - 48))"

lemma digits_value_simps [simp]:
  "digits_value acc [] = acc" "digits_value acc (c # cs) = digits_value (acc * 10 + (c - 48)) cs"
  by (simp_all add: digits_value_def)

lemma digits_value_mono: "acc \<le> digits_value acc cs"
proof (induction cs arbitrary: acc)
  case (Cons c cs)
  have "acc \<le> acc * 10 + (c - 48)" by simp
  also have "\<dots> \<le> digits_value (acc * 10 + (c - 48)) cs" by (rule Cons)
  finally show ?case by simp
qed simp

lemma parse_digits_iff:
  "acc < 256 \<Longrightarrow> parse_digits acc cs = Some n \<longleftrightarrow>
    (\<forall>c \<in> set cs. is_digit c) \<and> digits_value acc cs = n \<and> n < 256"
proof (induction cs arbitrary: acc)
  case (Cons c cs)
  let ?a = "acc * 10 + (c - 48)"
  show ?case
  proof (cases "is_digit c \<and> ?a < 256")
    case True
    with Cons.IH [of ?a] show ?thesis by auto
  next
    case False
    with digits_value_mono [of ?a cs] show ?thesis by auto
  qed
qed auto

lemma digits_value_append: "digits_value acc (xs @ [c]) = digits_value acc xs * 10 + (c - 48)"
  by (simp add: digits_value_def)

lemma show_nat_digits: "show_nat n \<noteq> [] \<and> (\<forall>c \<in> set (show_nat n). is_digit c) \<and> digits_value 0 (show_nat n) = n"
proof (induction n rule: show_nat.induct)
  case (1 n)
  show ?case
  proof (cases "n < 10")
    case True
    then show ?thesis by (simp add: show_nat.simps [of n] is_digit_def)
  next
    case False
    with 1 show ?thesis by (auto simp: show_nat.simps [of n] is_digit_def digits_value_append)
  qed
qed

text \<open>
  Numbers in commands.  \<open>parse::<u8>\<close> accepts exactly a non-empty sequence of decimal
  digits, optionally after one plus sign, whose value is below 256, and returns that
  value; so it reads back what \<open>Display\<close> prints for a slot number, and nothing that
  denotes a larger number is truncated into the range.
\<close>

lemma parse_u8_exact:
  "(parse_u8 s = Some x \<longleftrightarrow>
     (\<exists>ds. (s = ds \<or> s = 43 # ds) \<and> ds \<noteq> [] \<and> list_all is_digit ds \<and> digits_value 0 ds = unat x)) \<and>
   parse_u8 (show_nat (unat x)) = Some x"
proof -
  have plus: "\<not> is_digit 43" by (simp add: is_digit_def)
  have u: "n < 256 \<and> word_of_nat n = x \<longleftrightarrow> n = unat x" for n
    using u8_less [of x] by (auto simp: unsigned_of_nat take_bit_eq_mod)
  have iff: "parse_u8 s = Some x \<longleftrightarrow>
     (\<exists>ds. (s = ds \<or> s = 43 # ds) \<and> ds \<noteq> [] \<and> (\<forall>c \<in> set ds. is_digit c) \<and> digits_value 0 ds = unat x)" for s
  proof (cases "\<exists>cs. s = 43 # cs \<and> cs \<noteq> []")
    case True
    then obtain cs where "s = 43 # cs" "cs \<noteq> []" by blast
    with plus u show ?thesis by (auto simp: parse_u8_def parse_digits_iff)
  next
    case False
    then have eq: "parse_u8 s = (if s = [] then None else map_option word_of_nat (parse_digits 0 s))"
      by (cases s) (auto simp: parse_u8_def)
    have "s = 43 # ds \<Longrightarrow> ds = []" for ds using False by auto
    then show ?thesis unfolding eq using plus u by (auto simp: parse_digits_iff)
  qed
  then show ?thesis using show_nat_digits [of "unat x"] unfolding list_all_iff by blast
qed

section \<open>Debug form of a string\<close>

fun hex_digits :: "nat \<Rightarrow> str" where
  "hex_digits n = (let d = n mod 16; c = (if d < 10 then 48 + d else 87 + d) in
     if n < 16 then [c] else hex_digits (n div 16) @ [c])"

declare hex_digits.simps [simp del]

definition char_escape_debug :: "(uchar \<Rightarrow> bool) \<Rightarrow> uchar \<Rightarrow> str" where
  "char_escape_debug up c =
    (if c = 0 then lit [CHR 0x5C, CHR ''0'']
     else if c = 9 then lit [CHR 0x5C, CHR ''t'']
     else if c = 10 then lit [CHR 0x5C, CHR ''n'']
     else if c = 13 then lit [CHR 0x5C, CHR ''r'']
     else if c = 34 then [92, 34]
     else if c = 92 then [92, 92]
     else if 32 \<le> c \<and> c < 127 \<or> 127 < c \<and> up c then [c]
     else lit [CHR 0x5C, CHR ''u'', CHR 0x7B] @ hex_digits c @ [125])"

definition str_debug :: "(uchar \<Rightarrow> bool) \<Rightarrow> str \<Rightarrow> str" where
  "str_debug up s = [34] @ concat (map (char_escape_debug up) s) @ [34]"

lemma char_escape_debug_no_newline: "10 \<notin> set (char_escape_debug up c)"
proof -
  have "10 \<notin> set (hex_digits n)" for n
  proof (induction n rule: hex_digits.induct)
    case (1 n)
    then show ?case by (auto simp: hex_digits.simps [of n] Let_def split: if_splits)
  qed
  then show ?thesis by (auto simp: char_escape_debug_def)
qed

lemma str_debug_no_newline: "10 \<notin> set (str_debug up s)"
  by (auto simp: str_debug_def char_escape_debug_no_newline)

lemma show_nat_no_newline: "10 \<notin> set (show_nat n)"
  using show_nat_digits [of n] by (auto simp: is_digit_def)

end
