(* ===== verification/Control.thy ===== *)
theory Control
  imports Vserial Rust_Text
begin

text \<open>
  The control socket of \<open>drivewire-server\<close>: the command interpreter
  \<open>handle_control_command\<close> and the session loop \<open>handle_control\<close> over the lines of a
  connection.  Text is handled as the source handles it, down to UTF-8.  Sessions run
  concurrently with everything else; a command touches the drive table and the queues
  only through the operations of \<open>Server_State\<close>, each atomic.
\<close>

section \<open>Replies\<close>

definition lsn_debug :: "lsn \<Rightarrow> str" where
  "lsn_debug l = lit ''Lsn('' @ show_nat (unat (lsn_val l)) @ lit '')''"

fun vdisk_error_display :: "vdisk_error \<Rightarrow> str" where
  "vdisk_error_display (OutOfRange l) = lit ''sector '' @ lsn_debug l @ lit '' out of range''"
| "vdisk_error_display ReadOnly = lit ''read-only disk''"
| "vdisk_error_display (VIo e) = lit ''i/o: '' @ message e"

definition slot_error :: "(uchar \<Rightarrow> bool) \<Rightarrow> str \<Rightarrow> str" where
  "slot_error up slot = lit ''ERROR slot must be a u8 (got '' @ str_debug up slot @ lit '')'' @ [10]"

definition mounted_reply :: "u8 \<Rightarrow> u32 \<Rightarrow> str \<Rightarrow> str" where
  "mounted_reply n sectors name =
     lit ''OK mounted slot '' @ show_nat (unat n) @ lit '' sectors='' @ show_nat (unat sectors)
       @ lit '' path='' @ name @ [10]"

definition unmounted_reply :: "u8 \<Rightarrow> str" where
  "unmounted_reply n = lit ''OK unmounted slot '' @ show_nat (unat n) @ [10]"

definition control_mount :: "(uchar \<Rightarrow> bool) \<Rightarrow> str list \<Rightarrow> shared \<Rightarrow> str \<times> shared" where
  "control_mount up args sf =
    (case args of
       slot # path # _ \<Rightarrow>
         (case parse_u8 slot of
            Some n \<Rightarrow>
              (case mount_dsk n path False sf of
                 (Inr (sectors, name), sf') \<Rightarrow> (mounted_reply n sectors name, sf')
               | (Inl e, sf') \<Rightarrow> (lit ''ERROR mount failed: '' @ vdisk_error_display e @ [10], sf'))
          | None \<Rightarrow> (slot_error up slot, sf))
     | _ \<Rightarrow> (lit ''ERROR usage: MOUNT <slot> <path>'' @ [10], sf))"

definition control_unmount :: "(uchar \<Rightarrow> bool) \<Rightarrow> str list \<Rightarrow> shared \<Rightarrow> str \<times> shared" where
  "control_unmount up args = (\<lambda>(s, f).
    (case args of
       slot # _ \<Rightarrow>
         (case parse_u8 slot of
            Some n \<Rightarrow> (unmounted_reply n, unmount n s, f)
          | None \<Rightarrow> (slot_error up slot, s, f))
     | [] \<Rightarrow> (lit ''ERROR usage: UNMOUNT <slot>'' @ [10], s, f)))"

fun drive_line :: "u8 \<times> str \<times> u32 \<Rightarrow> str" where
  "drive_line (slot, name, sectors) =
     lit ''drive '' @ show_nat (unat slot) @ [32] @ show_nat (unat sectors) @ [32] @ name @ [10]"

fun vserial_line :: "u8 \<times> bool \<times> nat \<times> nat \<Rightarrow> str" where
  "vserial_line (ch, open, inbox, outbox) =
    (if open \<or> inbox > 0 \<or> outbox > 0
     then lit ''vserial '' @ show_nat (unat ch) @ [32] @ (if open then lit ''open'' else lit ''closed'')
       @ lit '' inbox='' @ show_nat inbox @ lit '' outbox='' @ show_nat outbox @ [10]
     else [])"

definition control_status :: "server \<Rightarrow> str" where
  "control_status s =
    concat (map drive_line (drive_summary s)) @ concat (map vserial_line (vserial_summary s)) @ lit ''OK'' @ [10]"

definition handle_control_command :: "(uchar \<Rightarrow> bool) \<Rightarrow> str \<Rightarrow> shared \<Rightarrow> str \<times> shared" where
  "handle_control_command up line sf =
    (let it = splitn_ws 3 line;
         verb = to_ascii_uppercase (case it of w # _ \<Rightarrow> w | [] \<Rightarrow> []);
         args = tl it in
     if verb = lit ''MOUNT'' then control_mount up args sf
     else if verb = lit ''UNMOUNT'' then control_unmount up args sf
     else if verb = lit ''STATUS'' then (control_status (fst sf), sf)
     else if verb = lit ''QUIT'' then (lit ''BYE'' @ [10], sf)
     else (lit ''ERROR unknown verb: '' @ verb @ [10], sf))"

section \<open>Lines\<close>

definition invalid_utf8 :: io_error where
  "invalid_utf8 = \<lparr>kind = InvalidData, message = lit ''stream did not contain valid UTF-8''\<rparr>"

definition line_text :: "bytes \<Rightarrow> io_error + str" where
  "line_text bs = (case from_utf8 bs of Some s \<Rightarrow> Inr s | None \<Rightarrow> Inl invalid_utf8)"

definition strip_cr :: "str \<Rightarrow> str" where
  "strip_cr s = (if s \<noteq> [] \<and> last s = 13 then butlast s else s)"

text \<open>
  \<open>Lines::next_line\<close>: the bytes up to the next line feed, without it and without a
  carriage return before it; the rest of the stream if it ends first; \<open>None\<close> at its end.
\<close>

definition next_line :: "(transport, io_error, str option) sx" where
  "next_line t =
    (if 10 \<in> set (rx t) then
       (let t' = t\<lparr>rx := tl (dropWhile (\<lambda>b. b \<noteq> 10) (rx t))\<rparr> in
        case line_text (takeWhile (\<lambda>b. b \<noteq> 10) (rx t)) of
          Inl e \<Rightarrow> (Inl e, t')
        | Inr s \<Rightarrow> (Inr (Some (strip_cr s)), t'))
     else if kind (rx_end t) \<noteq> UnexpectedEof then (Inl (rx_end t), t\<lparr>rx := []\<rparr>)
     else if rx t = [] then (Inr None, t)
     else (case line_text (rx t) of
             Inl e \<Rightarrow> (Inl e, t\<lparr>rx := []\<rparr>)
           | Inr s \<Rightarrow> (Inr (Some s), t\<lparr>rx := []\<rparr>)))"

lemma next_line_shorter:
  assumes "next_line t = (Inr (Some s), t')"
  shows "length (rx t') < length (rx t)"
proof (cases "10 \<in> set (rx t)")
  case True
  then obtain pre post where split: "rx t = pre @ 10 # post" "10 \<notin> set pre"
    by (meson split_list_first)
  then have "dropWhile (\<lambda>b. b \<noteq> 10) (rx t) = 10 # post"
    by (subst split(1), subst dropWhile_append2) auto
  with assms True split show ?thesis by (auto simp: next_line_def Let_def split: sum.splits)
qed (use assms in \<open>auto simp: next_line_def split: if_splits sum.splits\<close>)

section \<open>Sessions\<close>

lemma write_all_rx: "t_write_all bs t = (r, t') \<Longrightarrow> rx t' = rx t"
  by (auto simp: t_write_all_def split: option.splits if_splits)

function handle_control :: "(uchar \<Rightarrow> bool) \<Rightarrow> (shared \<times> transport, io_error, unit) sx" where
  "handle_control up (sf, t) =
    (case next_line t of
       (Inl e, t') \<Rightarrow> (Inl e, sf, t')
     | (Inr None, t') \<Rightarrow> (Inr (), sf, t')
     | (Inr (Some line), t') \<Rightarrow>
         (let trimmed = trim line in
          if trimmed = [] then handle_control up (sf, t')
          else
            (case handle_control_command up trimmed sf of
               (response, sf') \<Rightarrow>
                 (case t_write_all (as_bytes response) t' of
                    (Inl e, t'') \<Rightarrow> (Inl e, sf', t'')
                  | (Inr _, t'') \<Rightarrow>
                      (if starts_with response (lit ''BYE'') then (Inr (), sf', t'')
                       else handle_control up (sf', t''))))))"
  by pat_completeness auto
termination
  by (relation "measure (\<lambda>(up, sf, t). length (rx t))")
    (auto dest!: next_line_shorter [OF sym] write_all_rx [OF sym])

declare handle_control.simps [simp del]

section \<open>What commands change\<close>

lemma mount_dsk_cases:
  "(\<exists>e. mount_dsk n path ro (s, f) = (Inl e, s, f) \<and> dsk_open path ro f = (Inl e, f)) \<or>
   (\<exists>d. mount_dsk n path ro (s, f) = (Inr (dsk_sector_count d, dsk_path d), mount n d s, f) \<and>
      dsk_open path ro f = (Inr d, f))"
  by (auto simp: mount_dsk_def dsk_open_def Let_def split: sum.split option.split)

lemma starts_with_simps [simp]:
  "starts_with s []" "starts_with (c # s) (c' # p) \<longleftrightarrow> c = c' \<and> starts_with s p"
  "\<not> starts_with [] (c # p)"
  by (auto simp: starts_with_def)

text \<open>
  What a line asks for, read off its text: the verb in any case, then, each after one
  white character, the slot and the path, which is the whole rest of the line; whatever
  follows the slot of an unmount after white space is ignored.
\<close>

definition asks_mount :: "str \<Rightarrow> u8 \<Rightarrow> str \<Rightarrow> bool" where
  "asks_mount line n path \<longleftrightarrow>
    (\<exists>v b slot c. line = v @ b # slot @ c # path \<and> to_ascii_uppercase v = lit ''MOUNT'' \<and> parse_u8 slot = Some n \<and>
      char_is_whitespace b \<and> char_is_whitespace c \<and> (\<forall>x \<in> set v \<union> set slot. \<not> char_is_whitespace x))"

definition asks_unmount :: "str \<Rightarrow> u8 \<Rightarrow> bool" where
  "asks_unmount line n \<longleftrightarrow>
    (\<exists>v b slot tail. line = v @ b # slot @ tail \<and> to_ascii_uppercase v = lit ''UNMOUNT'' \<and> parse_u8 slot = Some n \<and>
      char_is_whitespace b \<and> (tail = [] \<or> char_is_whitespace (hd tail)) \<and>
      (\<forall>x \<in> set v \<union> set slot. \<not> char_is_whitespace x))"

lemma digits_not_ws: "is_digit c \<Longrightarrow> \<not> char_is_whitespace c"
  by (auto simp: is_digit_def char_is_whitespace_def)

lemma splitn_ws_word:
  assumes "\<forall>c \<in> set w. \<not> char_is_whitespace c" "char_is_whitespace b"
  shows "splitn_ws (Suc (Suc n)) (w @ b # rest) = w # splitn_ws (Suc n) rest"
proof -
  have "dropWhile (Not \<circ> char_is_whitespace) (w @ b # rest) = b # rest"
    using assms by (induction w) auto
  moreover have "takeWhile (Not \<circ> char_is_whitespace) (w @ b # rest) = w"
    using assms by (induction w) auto
  ultimately show ?thesis by simp
qed

lemma splitn_ws_single:
  assumes "\<forall>c \<in> set w. \<not> char_is_whitespace c"
  shows "splitn_ws (Suc (Suc n)) w = [w]"
proof -
  have "dropWhile (Not \<circ> char_is_whitespace) w = []" using assms by simp
  then show ?thesis by (simp del: dropWhile_eq_Nil_conv)
qed

lemma splitn_ws_cases:
  assumes "splitn_ws (Suc (Suc n)) s = w # rs"
  obtains "s = w" "rs = []" "\<forall>c \<in> set w. \<not> char_is_whitespace c"
  | b rest where "s = w @ b # rest" "char_is_whitespace b" "\<forall>c \<in> set w. \<not> char_is_whitespace c"
      "rs = splitn_ws (Suc n) rest"
proof (cases "dropWhile (Not \<circ> char_is_whitespace) s")
  case Nil
  then have "\<forall>c \<in> set s. \<not> char_is_whitespace c" by simp
  with that(1) assms splitn_ws_single [OF this] show thesis by simp
next
  case (Cons b rest)
  with assms have w: "w = takeWhile (Not \<circ> char_is_whitespace) s" "rs = splitn_ws (Suc n) rest" by auto
  moreover from Cons w have "s = w @ b # rest" by (metis takeWhile_dropWhile_id)
  moreover from Cons have "char_is_whitespace b" using hd_dropWhile [of "Not \<circ> char_is_whitespace" s] by simp
  moreover have "\<forall>c \<in> set w. \<not> char_is_whitespace c" using w(1) by (auto dest: set_takeWhileD)
  ultimately show thesis using that(2) by blast
qed

lemma splitn_ws_1: "splitn_ws (Suc 0) s = [s]"
  by simp

lemma split_mount_iff:
  "(\<exists>rs. splitn_ws 3 line = v # slot # path # rs) \<longleftrightarrow>
    (\<exists>b c. line = v @ b # slot @ c # path \<and> char_is_whitespace b \<and> char_is_whitespace c \<and>
      (\<forall>x \<in> set v \<union> set slot. \<not> char_is_whitespace x))"
  (is "?l = ?r")
proof
  assume ?l
  then obtain rs where "splitn_ws (Suc (Suc (Suc 0))) line = v # slot # path # rs"
    by (auto simp: numeral_3_eq_3)
  then show ?r
  proof (cases rule: splitn_ws_cases)
    case (2 b rest)
    from 2(4) [symmetric] show ?thesis
    proof (cases rule: splitn_ws_cases)
      case (2 c rest')
      with \<open>line = v @ b # rest\<close> \<open>char_is_whitespace b\<close> \<open>\<forall>c \<in> set v. \<not> char_is_whitespace c\<close>
      show ?thesis by (intro exI [of _ b] exI [of _ c]) auto
    qed simp
  qed simp
next
  assume ?r
  then show ?l
    by (auto simp: numeral_3_eq_3 splitn_ws_word simp del: splitn_ws.simps(3))
qed

lemma split_unmount_iff:
  "(\<exists>rs. splitn_ws 3 line = v # slot # rs) \<longleftrightarrow>
    (\<exists>b tail. line = v @ b # slot @ tail \<and> char_is_whitespace b \<and> (tail = [] \<or> char_is_whitespace (hd tail)) \<and>
      (\<forall>x \<in> set v \<union> set slot. \<not> char_is_whitespace x))"
  (is "?l = ?r")
proof
  assume ?l
  then obtain rs where "splitn_ws (Suc (Suc (Suc 0))) line = v # slot # rs"
    by (auto simp: numeral_3_eq_3)
  then show ?r
  proof (cases rule: splitn_ws_cases)
    case (2 b rest)
    from 2(4) [symmetric] show ?thesis
    proof (cases rule: splitn_ws_cases)
      case 1
      with 2 show ?thesis by (intro exI [of _ b] exI [of _ "[]"]) auto
    next
      case (2 c rest')
      with \<open>line = v @ b # rest\<close> \<open>char_is_whitespace b\<close> \<open>\<forall>c \<in> set v. \<not> char_is_whitespace c\<close>
      show ?thesis by (intro exI [of _ b] exI [of _ "c # rest'"]) auto
    qed
  qed simp
next
  assume ?r
  then obtain b tail where l: "line = v @ b # slot @ tail" "char_is_whitespace b" "tail = [] \<or> char_is_whitespace (hd tail)"
    "\<forall>x \<in> set v. \<not> char_is_whitespace x" "\<forall>x \<in> set slot. \<not> char_is_whitespace x" by auto
  from l(3) show ?l
  proof (cases tail)
    case Nil
    with l show ?thesis
      by (auto simp: numeral_3_eq_3 splitn_ws_word splitn_ws_single simp del: splitn_ws.simps(3))
  next
    case (Cons c rest)
    with l show ?thesis
      by (auto simp: numeral_3_eq_3 splitn_ws_word simp del: splitn_ws.simps(3))
  qed
qed

text \<open>A command installs the disk it asks for, removes the slot it asks for, or leaves the server alone.\<close>

inductive control_effect :: "str \<Rightarrow> server \<Rightarrow> filesys \<Rightarrow> str \<Rightarrow> server \<Rightarrow> bool" for line s f where
  mounted: "asks_mount line n path \<Longrightarrow> dsk_open path False f = (Inr d, f) \<Longrightarrow>
    control_effect line s f (mounted_reply n (dsk_sector_count d) path) (mount n d s)"
| failed: "asks_mount line n path \<Longrightarrow> dsk_open path False f = (Inl e, f) \<Longrightarrow>
    control_effect line s f (lit ''ERROR mount failed: '' @ vdisk_error_display e @ [10]) s"
| unmounted: "asks_unmount line n \<Longrightarrow> control_effect line s f (unmounted_reply n) (unmount n s)"
| other: "\<nexists>n path. asks_mount line n path \<Longrightarrow> \<nexists>n. asks_unmount line n \<Longrightarrow>
    \<not> starts_with resp (lit ''OK '') \<Longrightarrow> resp \<noteq> [] \<Longrightarrow> last resp = 10 \<Longrightarrow> control_effect line s f resp s"

lemma reply_facts [simp]:
  "mounted_reply n k name \<noteq> []" "last (mounted_reply n k name) = 10"
  "c \<noteq> 79 \<Longrightarrow> \<not> starts_with (mounted_reply n k name) (c # p)"
  "unmounted_reply n \<noteq> []" "last (unmounted_reply n) = 10"
  "c \<noteq> 79 \<Longrightarrow> \<not> starts_with (unmounted_reply n) (c # p)"
  by (simp_all add: mounted_reply_def unmounted_reply_def)

lemma dsk_open_path: "dsk_open path ro f = (Inr d, f') \<Longrightarrow> dsk_path d = path"
  by (auto simp: dsk_open_def Let_def split: sum.splits option.splits)

lemma status_not_ok: "\<not> starts_with (control_status s) (lit ''OK '')"
proof -
  have "\<not> starts_with (concat (map drive_line xs) @ concat (map vserial_line ys) @ lit ''OK'' @ [10]) (lit ''OK '')" for xs ys
  proof (cases xs)
    case Nil
    have "\<not> starts_with (concat (map vserial_line ys) @ lit ''OK'' @ [10]) (lit ''OK '')"
    proof (induction ys)
      case (Cons y ys)
      then show ?case by (cases y) auto
    qed simp
    then show ?thesis using Nil by simp
  next
    case (Cons x xs')
    then show ?thesis by (cases x) simp
  qed
  then show ?thesis by (simp only: control_status_def not_False_eq_True)
qed

lemma mount_effect:
  assumes it: "splitn_ws 3 line = v # args" and v: "to_ascii_uppercase v = lit ''MOUNT''"
    and r: "control_mount up args (s, f) = (resp, s', f')"
  shows "control_effect line s f resp s' \<and> f' = f"
proof -
  have no: "\<nexists>n. asks_unmount line n"
  proof
    assume "\<exists>n. asks_unmount line n"
    then obtain v' slot rs where "to_ascii_uppercase v' = lit ''UNMOUNT''" "splitn_ws 3 line = v' # slot # rs"
      using split_unmount_iff [of line] unfolding asks_unmount_def by blast
    with it v show False by simp
  qed
  show ?thesis
  proof (cases "\<exists>slot path rs n. args = slot # path # rs \<and> parse_u8 slot = Some n")
    case True
    then obtain slot path rs n where a: "args = slot # path # rs" "parse_u8 slot = Some n" by blast
    with it v have ask: "asks_mount line n path"
      unfolding asks_mount_def using split_mount_iff [of line v slot path] by blast
    consider e where "mount_dsk n path False (s, f) = (Inl e, s, f)" "dsk_open path False f = (Inl e, f)"
      | d where "mount_dsk n path False (s, f) = (Inr (dsk_sector_count d, dsk_path d), mount n d s, f)"
          "dsk_open path False f = (Inr d, f)"
      using mount_dsk_cases [of n path False s f] by blast
    then show ?thesis
    proof cases
      case (1 e)
      with r a control_effect.failed [OF ask 1(2), of s] show ?thesis by (auto simp: control_mount_def)
    next
      case (2 d)
      with r a dsk_open_path [OF 2(2)] control_effect.mounted [OF ask 2(2), of s] show ?thesis
        by (auto simp: control_mount_def)
    qed
  next
    case False
    have "\<nexists>n path. asks_mount line n path"
    proof
      assume "\<exists>n path. asks_mount line n path"
      then obtain n v' slot path rs where "parse_u8 slot = Some n" "splitn_ws 3 line = v' # slot # path # rs"
        using split_mount_iff [of line] unfolding asks_mount_def by blast
      with it False show False by auto
    qed
    with no False r show ?thesis
      by (auto simp: control_mount_def slot_error_def intro!: control_effect.other split: list.splits option.splits)
  qed
qed

lemma unmount_effect:
  assumes it: "splitn_ws 3 line = v # args" and v: "to_ascii_uppercase v = lit ''UNMOUNT''"
    and r: "control_unmount up args (s, f) = (resp, s', f')"
  shows "control_effect line s f resp s' \<and> f' = f"
proof -
  have no: "\<nexists>n path. asks_mount line n path"
  proof
    assume "\<exists>n path. asks_mount line n path"
    then obtain v' slot path rs where "to_ascii_uppercase v' = lit ''MOUNT''" "splitn_ws 3 line = v' # slot # path # rs"
      using split_mount_iff [of line] unfolding asks_mount_def by blast
    with it v show False by simp
  qed
  show ?thesis
  proof (cases "\<exists>slot rs n. args = slot # rs \<and> parse_u8 slot = Some n")
    case True
    then obtain slot rs n where a: "args = slot # rs" "parse_u8 slot = Some n" by blast
    with it v have "asks_unmount line n"
      unfolding asks_unmount_def using split_unmount_iff [of line v slot] by blast
    with r a show ?thesis by (auto simp: control_unmount_def intro: control_effect.intros)
  next
    case False
    have "\<nexists>n. asks_unmount line n"
    proof
      assume "\<exists>n. asks_unmount line n"
      then obtain n v' slot rs where "parse_u8 slot = Some n" "splitn_ws 3 line = v' # slot # rs"
        using split_unmount_iff [of line] unfolding asks_unmount_def by blast
      with it False show False by auto
    qed
    with no False r show ?thesis
      by (auto simp: control_unmount_def slot_error_def intro!: control_effect.other split: list.splits option.splits)
  qed
qed

lemma splitn_ws_nonempty: "splitn_ws (Suc n) s \<noteq> []"
  by (cases n) (auto split: list.splits)

lemma control_command_effect:
  assumes "handle_control_command up line (s, f) = (resp, s', f')"
  shows "control_effect line s f resp s' \<and> f' = f"
proof -
  obtain v args where it: "splitn_ws 3 line = v # args"
    using splitn_ws_nonempty [of 2 line] by (auto simp: numeral_3_eq_3 numeral_2_eq_2 neq_Nil_conv simp del: splitn_ws.simps)
  consider "to_ascii_uppercase v = lit ''MOUNT''" | "to_ascii_uppercase v = lit ''UNMOUNT''"
    | "to_ascii_uppercase v \<noteq> lit ''MOUNT''" "to_ascii_uppercase v \<noteq> lit ''UNMOUNT''" by blast
  then show ?thesis
  proof cases
    case 1
    with assms it mount_effect [OF it 1] show ?thesis by (simp add: handle_control_command_def)
  next
    case 2
    with assms it unmount_effect [OF it 2] show ?thesis by (simp add: handle_control_command_def)
  next
    case 3
    have "\<nexists>n path. asks_mount line n path"
    proof
      assume "\<exists>n path. asks_mount line n path"
      then obtain v' slot path rs where "to_ascii_uppercase v' = lit ''MOUNT''" "splitn_ws 3 line = v' # slot # path # rs"
        using split_mount_iff [of line] unfolding asks_mount_def by blast
      with it 3 show False by simp
    qed
    moreover have "\<nexists>n. asks_unmount line n"
    proof
      assume "\<exists>n. asks_unmount line n"
      then obtain v' slot rs where "to_ascii_uppercase v' = lit ''UNMOUNT''" "splitn_ws 3 line = v' # slot # rs"
        using split_unmount_iff [of line] unfolding asks_unmount_def by blast
      with it 3 show False by simp
    qed
    moreover have "resp \<noteq> []" "last resp = 10" "\<not> starts_with resp (lit ''OK '')" "s' = s" "f' = f"
      using assms it 3 status_not_ok [of s]
      by (auto simp: handle_control_command_def control_status_def Let_def split: if_splits)
    ultimately show ?thesis by (auto intro: control_effect.other)
  qed
qed

text \<open>The two requests exclude each other and determine what they ask for.\<close>

lemma asks_unique:
  "asks_mount line n path \<Longrightarrow> asks_mount line m q \<Longrightarrow> m = n \<and> q = path"
  "asks_unmount line n \<Longrightarrow> asks_unmount line m \<Longrightarrow> m = n"
  "asks_mount line n path \<Longrightarrow> \<not> asks_unmount line m"
proof -
  have m: "\<exists>v slot rs. splitn_ws 3 line = v # slot # path # rs \<and> parse_u8 slot = Some n \<and> to_ascii_uppercase v = lit ''MOUNT''"
    if "asks_mount line n path" for n path
    using that split_mount_iff [of line _ _ path] unfolding asks_mount_def by blast
  have u: "\<exists>v slot rs. splitn_ws 3 line = v # slot # rs \<and> parse_u8 slot = Some n \<and> to_ascii_uppercase v = lit ''UNMOUNT''"
    if "asks_unmount line n" for n
    using that split_unmount_iff [of line] unfolding asks_unmount_def by blast
  show "asks_mount line n path \<Longrightarrow> asks_mount line m q \<Longrightarrow> m = n \<and> q = path"
    using m [of n path] m [of m q] by auto
  show "asks_unmount line n \<Longrightarrow> asks_unmount line m \<Longrightarrow> m = n"
    using u [of n] u [of m] by auto
  show "asks_mount line n path \<Longrightarrow> \<not> asks_unmount line m"
    using m [of n path] u [of m] by auto
qed

text \<open>
  C23: what a control command does, for every line.  If the line asks to mount a path in a
  slot, then exactly that path is opened for writing: if it opens, exactly that slot holds
  exactly the opened disk, every other slot is as before and the reply names the slot, the
  sector count and the path; if not, nothing changes and the reply carries the reason.  If
  it asks to unmount a slot, exactly that slot is emptied and the reply names it.  Any other
  line, a wrong slot, a missing argument, \<open>STATUS\<close>, \<open>QUIT\<close> or an unknown verb, changes nothing
  and is never answered by a confirmation.  No command touches an image file, the print
  buffer, the serial queues, their open flags or their wake-ups; every reply consists of whole
  lines.
\<close>

theorem control_command_frame:
  assumes "handle_control_command up line (s, f) = (resp, s', f')"
  shows "(\<forall>n path. asks_mount line n path \<longrightarrow>
      (case fst (dsk_open path False f) of
         Inr d \<Rightarrow> resp = mounted_reply n (dsk_sector_count d) path \<and>
           (\<forall>slot. drive_lookup slot s' = (if slot = n then Some d else drive_lookup slot s))
       | Inl e \<Rightarrow> resp = lit ''ERROR mount failed: '' @ vdisk_error_display e @ [10] \<and> s' = s)) \<and>
    (\<forall>n. asks_unmount line n \<longrightarrow> resp = unmounted_reply n \<and>
       (\<forall>slot. drive_lookup slot s' = (if slot = n then None else drive_lookup slot s))) \<and>
    ((\<nexists>n path. asks_mount line n path) \<and> (\<nexists>n. asks_unmount line n) \<longrightarrow>
       s' = s \<and> \<not> starts_with resp (lit ''OK '')) \<and>
    f' = f \<and> last resp = 10 \<and> print_buffer s' = print_buffer s \<and>
    vserial_inbox s' = vserial_inbox s \<and> vserial_outbox s' = vserial_outbox s \<and>
    vserial_open s' = vserial_open s \<and> vserial_inbox_notify s' = vserial_inbox_notify s \<and>
    (server_wf s \<longrightarrow> server_wf s') \<and>
    (starts_with resp (lit ''ERROR'') \<longrightarrow> s' = s)"
proof -
  from control_command_effect [OF assms] have e: "control_effect line s f resp s'" and "f' = f" by auto
  from e show ?thesis
  proof cases
    case (mounted n path d)
    then have "asks_mount line m q \<longleftrightarrow> m = n \<and> q = path" "\<not> asks_unmount line m" for m q
      using asks_unique(1,3) by blast+
    with mounted \<open>f' = f\<close> server_wf_mount [of s n d] show ?thesis
      by (simp add: drv.lookup_put) (simp add: mount_def)
  next
    case (failed n path e)
    then have "asks_mount line m q \<longleftrightarrow> m = n \<and> q = path" "\<not> asks_unmount line m" for m q
      using asks_unique(1,3) by blast+
    with failed \<open>f' = f\<close> show ?thesis by simp
  next
    case (unmounted n)
    then have "asks_unmount line m \<longleftrightarrow> m = n" "\<not> asks_mount line m q" for m q
      using asks_unique(2,3) by blast+
    with unmounted \<open>f' = f\<close> server_wf_unmount [of s n] show ?thesis
      by (simp add: drv.lookup_remove) (simp add: unmount_def)
  qed (use \<open>f' = f\<close> in auto)
qed

section \<open>Mount, status, unmount\<close>

lemma space_ws: "char_is_whitespace 32"
  by (simp add: char_is_whitespace_def)

lemma splitn_ws_3:
  assumes "\<forall>c \<in> set w. \<not> char_is_whitespace c" "\<forall>c \<in> set v. \<not> char_is_whitespace c"
  shows "splitn_ws 3 w = [w]" "splitn_ws 3 (w @ 32 # v) = [w, v]" "splitn_ws 3 (w @ 32 # v @ 32 # p) = [w, v, p]"
  unfolding numeral_3_eq_3
  using splitn_ws_single [OF assms(1), of "Suc 0"] splitn_ws_single [OF assms(2), of 0]
    splitn_ws_word [OF assms(1) space_ws, of "Suc 0"] splitn_ws_word [OF assms(2) space_ws, of 0 p]
  by simp_all

lemma show_nat_word: "\<forall>c \<in> set (show_nat n). \<not> char_is_whitespace c"
  using show_nat_digits [of n] digits_not_ws by blast

lemma parse_show: "parse_u8 (show_nat (unat n)) = Some n"
proof -
  have "hd (show_nat (unat n)) \<noteq> 43" using show_nat_digits [of "unat n"]
    by (cases "show_nat (unat n)") (auto simp: is_digit_def)
  then have "parse_u8 (show_nat (unat n)) = map_option word_of_nat (parse_digits 0 (show_nat (unat n)))"
    using show_nat_digits [of "unat n"] by (auto simp: parse_u8_def split: list.splits)
  then show ?thesis
    using show_nat_digits [of "unat n"] parse_digits_iff [of 0 "show_nat (unat n)" "unat n"] u8_less [of n] by auto
qed

definition mount_cmd :: "u8 \<Rightarrow> str \<Rightarrow> str" where
  "mount_cmd n path = lit ''MOUNT '' @ show_nat (unat n) @ [32] @ path"

definition status_cmd :: str where
  "status_cmd = lit ''STATUS''"

definition unmount_cmd :: "u8 \<Rightarrow> str" where
  "unmount_cmd n = lit ''UNMOUNT '' @ show_nat (unat n)"

lemma split_cmds:
  "splitn_ws 3 (mount_cmd n path) = [lit ''MOUNT'', show_nat (unat n), path]"
  "splitn_ws 3 (unmount_cmd n) = [lit ''UNMOUNT'', show_nat (unat n)]"
  "splitn_ws 3 status_cmd = [lit ''STATUS'']"
proof -
  have w: "\<forall>c \<in> set (lit ''MOUNT''). \<not> char_is_whitespace c" "\<forall>c \<in> set (lit ''UNMOUNT''). \<not> char_is_whitespace c"
    "\<forall>c \<in> set (lit ''STATUS''). \<not> char_is_whitespace c"
    by (simp_all add: char_is_whitespace_def)
  show "splitn_ws 3 (mount_cmd n path) = [lit ''MOUNT'', show_nat (unat n), path]"
    using splitn_ws_3(3) [OF w(1) show_nat_word, of "unat n" path] by (simp add: mount_cmd_def)
  show "splitn_ws 3 (unmount_cmd n) = [lit ''UNMOUNT'', show_nat (unat n)]"
    using splitn_ws_3(2) [OF w(2) show_nat_word, of "unat n"] by (simp add: unmount_cmd_def)
  show "splitn_ws 3 status_cmd = [lit ''STATUS'']"
    unfolding status_cmd_def by (rule splitn_ws_3(1) [OF w(3) w(3)])
qed

lemma run_cmds:
  "handle_control_command up (mount_cmd n path) sf = control_mount up [show_nat (unat n), path] sf"
  "handle_control_command up (unmount_cmd n) sf = control_unmount up [show_nat (unat n)] sf"
  "handle_control_command up status_cmd sf = (control_status (fst sf), sf)"
  by (simp_all add: handle_control_command_def split_cmds to_ascii_uppercase_def)

lemma status_lists_drive:
  assumes "server_wf s" "drive_lookup n s = Some d"
  shows "\<exists>pre post. control_status s = pre @ drive_line (n, dsk_path d, dsk_sector_count d) @ post"
proof -
  have "(n, dsk_path d, dsk_sector_count d) \<in> set (drive_summary s)"
    using assms by (simp add: drive_summary_set)
  then obtain xs ys where "drive_summary s = xs @ (n, dsk_path d, dsk_sector_count d) # ys"
    by (meson split_list)
  then have "control_status s = concat (map drive_line xs) @ drive_line (n, dsk_path d, dsk_sector_count d) @
      (concat (map drive_line ys) @ concat (map vserial_line (vserial_summary s)) @ lit ''OK'' @ [10])"
    unfolding control_status_def by (simp del: drive_line.simps)
  then show ?thesis by blast
qed

text \<open>
  Mounting and unmounting over the control socket.  If the image opens, the command
  \<open>MOUNT n path\<close>, for any path and any slot number printed in decimal, puts exactly
  that disk into the slot, and the reply and every later \<open>STATUS\<close> report its path and
  sector count; if it does not open, the reply carries the reason and the slot keeps
  what it had; \<open>UNMOUNT n\<close> empties the slot again and touches no other.
\<close>

theorem control_mount_cycle:
  assumes "server_wf s" "dsk_open path False f = (r, f)"
    and "handle_control_command up (mount_cmd n path) (s, f) = (resp, s1, f1)"
    and "handle_control_command up status_cmd (s1, f1) = (st, s2, f2)"
    and "handle_control_command up (unmount_cmd n) (s2, f2) = (resp', s3, f3)"
  shows "(case r of
      Inr d \<Rightarrow> resp = mounted_reply n (dsk_sector_count d) path \<and> drive_lookup n s1 = Some d \<and>
        (\<exists>pre post. st = pre @ drive_line (n, path, dsk_sector_count d) @ post)
    | Inl e \<Rightarrow> resp = lit ''ERROR mount failed: '' @ vdisk_error_display e @ [10] \<and> s1 = s) \<and>
    s2 = s1 \<and> resp' = unmounted_reply n \<and> drive_lookup n s3 = None \<and>
    (\<forall>slot. slot \<noteq> n \<longrightarrow> drive_lookup slot s3 = drive_lookup slot s)"
proof -
  have st: "st = control_status s1" "s2 = s1" "f2 = f1" using assms(4) by (auto simp: run_cmds)
  have un: "resp' = unmounted_reply n" "s3 = unmount n s1"
    using assms(5) st by (simp_all add: run_cmds control_unmount_def parse_show)
  have mnt: "control_mount up [show_nat (unat n), path] (s, f) = (resp, s1, f1)"
    using assms(3) by (simp add: run_cmds)
  show ?thesis
  proof (cases r)
    case (Inl e)
    with assms(2) mnt have "resp = lit ''ERROR mount failed: '' @ vdisk_error_display e @ [10] \<and> s1 = s"
      by (auto simp: control_mount_def parse_show mount_dsk_def)
    with Inl st un show ?thesis by (simp add: drv.lookup_remove)
  next
    case (Inr d)
    with assms(2) have "dsk_path d = path"
      by (auto simp: dsk_open_def Let_def split: sum.splits option.splits)
    with Inr assms(2) mnt have s1: "resp = mounted_reply n (dsk_sector_count d) path \<and> s1 = mount n d s"
      by (auto simp: control_mount_def parse_show mount_dsk_def)
    with assms(1) status_lists_drive [of s1 n d] \<open>dsk_path d = path\<close> Inr st un show ?thesis
      by (simp add: drv.lookup_remove drv.lookup_put server_wf_mount del: drive_line.simps)
  qed
qed

lemma demo_open: "dsk_open (lit ''a.dsk'') False demo_fs = (Inr demo_disk, demo_fs)"
  by (simp add: dsk_open_def demo_fs_def demo_disk_def SECTOR_SIZE_def)

lemma asks_mount_cmd: "asks_mount (mount_cmd n path) n path"
proof -
  have "to_ascii_uppercase (lit ''MOUNT'') = lit ''MOUNT''" by (simp add: to_ascii_uppercase_def)
  moreover obtain b c where "mount_cmd n path = lit ''MOUNT'' @ b # show_nat (unat n) @ c # path"
    "char_is_whitespace b" "char_is_whitespace c"
    "\<forall>x \<in> set (lit ''MOUNT'') \<union> set (show_nat (unat n)). \<not> char_is_whitespace x"
    using split_mount_iff [THEN iffD1, OF exI, OF split_cmds(1)] by blast
  ultimately show ?thesis
    unfolding asks_mount_def using parse_show by blast
qed

theorem control_command_frame_witness:
  "drive_lookup 3 (fst (snd (handle_control_command (\<lambda>_. True) (mount_cmd 3 (lit ''a.dsk'')) (server_new, demo_fs)))) =
     Some demo_disk"
proof -
  let ?r = "handle_control_command (\<lambda>_. True) (mount_cmd 3 (lit ''a.dsk'')) (server_new, demo_fs)"
  have "?r = (fst ?r, fst (snd ?r), snd (snd ?r))" by simp
  note control_command_frame [OF this, THEN conjunct1, rule_format, OF asks_mount_cmd]
  then show ?thesis by (simp only: demo_open fst_conv sum.case if_True simp_thms)
qed

theorem control_mount_cycle_witness:
  "drive_lookup 3 (fst (snd (handle_control_command (\<lambda>_. True) (mount_cmd 3 (lit ''a.dsk'')) (server_new, demo_fs)))) =
     Some demo_disk"
proof -
  let ?c = "handle_control_command (\<lambda>_. True)"
  obtain resp s1 f1 where r1: "?c (mount_cmd 3 (lit ''a.dsk'')) (server_new, demo_fs) = (resp, s1, f1)"
    by (metis prod_cases3)
  obtain st s2 f2 where r2: "?c status_cmd (s1, f1) = (st, s2, f2)" by (metis prod_cases3)
  obtain resp' s3 f3 where r3: "?c (unmount_cmd 3) (s2, f2) = (resp', s3, f3)" by (metis prod_cases3)
  from control_mount_cycle [OF _ demo_open r1 r2 r3] r1 show ?thesis by simp
qed

section \<open>Whole sessions\<close>

text \<open>The commands of a session, one after the other; \<open>BYE\<close> ends it.\<close>

fun run_commands :: "(uchar \<Rightarrow> bool) \<Rightarrow> str list \<Rightarrow> shared \<Rightarrow> str \<times> shared" where
  "run_commands up [] sf = ([], sf)"
| "run_commands up (c # cs) sf =
    (if trim c = [] then run_commands up cs sf
     else let (r, sf') = handle_control_command up (trim c) sf in
       if starts_with r (lit ''BYE'') then (r, sf')
       else let (rs, sf'') = run_commands up cs sf' in (r @ rs, sf''))"

lemma trim_cr: "trim (s @ [13]) = trim s"
proof -
  have "char_is_whitespace 13" by (simp add: char_is_whitespace_def)
  then show ?thesis
    by (cases "\<forall>c \<in> set s. char_is_whitespace c")
      (auto simp: trim_def trim_start_def trim_end_def dropWhile_append dest: set_dropWhileD)
qed

lemma trim_strip_cr: "trim (strip_cr s) = trim s"
  by (cases s rule: rev_cases) (auto simp: strip_cr_def trim_cr)

lemma split_at:
  assumes "b \<notin> set xs"
  shows "takeWhile (\<lambda>x. x \<noteq> b) (xs @ b # ys) = xs" "dropWhile (\<lambda>x. x \<noteq> b) (xs @ b # ys) = b # ys"
  using assms by (induction xs) auto

lemma next_line_text:
  assumes "\<forall>x \<in> set c. scalar x \<and> x \<noteq> 10" "rx t = as_bytes c @ 10 # rest"
  shows "next_line t = (Inr (Some (strip_cr c)), t\<lparr>rx := rest\<rparr>)"
proof -
  have "(10 :: u8) \<notin> set (as_bytes c)" using ascii_in_as_bytes [of c 10] assms(1) by auto
  then have "takeWhile (\<lambda>b. b \<noteq> 10) (rx t) = as_bytes c" "dropWhile (\<lambda>b. b \<noteq> 10) (rx t) = 10 # rest"
    unfolding assms(2) by (simp_all add: split_at)
  moreover have "from_utf8 (as_bytes c) = Some c" using assms(1) by (simp add: from_utf8_as_bytes)
  ultimately show ?thesis using assms(2) by (simp add: next_line_def line_text_def)
qed

lemma handle_control_commands:
  assumes "\<forall>c \<in> set cs. \<forall>x \<in> set c. scalar x \<and> x \<noteq> 10" "tx_fault t = None"
    and "rx t = concat (map (\<lambda>c. as_bytes c @ [10]) cs)" "kind (rx_end t) = UnexpectedEof"
  shows "\<exists>t'. handle_control up (sf, t) = (Inr (), snd (run_commands up cs sf), t') \<and>
    tx t' = tx t @ as_bytes (fst (run_commands up cs sf))"
  using assms
proof (induction cs arbitrary: sf t)
  case Nil
  then show ?case by (simp add: handle_control.simps next_line_def as_bytes_def)
next
  case (Cons c cs)
  let ?t = "t\<lparr>rx := concat (map (\<lambda>c. as_bytes c @ [10]) cs)\<rparr>"
  have line: "next_line t = (Inr (Some (strip_cr c)), ?t)"
    using Cons.prems by (intro next_line_text) auto
  show ?case
  proof (cases "trim c = []")
    case True
    with Cons.IH [of ?t sf] Cons.prems line show ?thesis
      by (simp add: handle_control.simps [of up sf t] trim_strip_cr)
  next
    case False
    obtain r sf' where r: "handle_control_command up (trim c) sf = (r, sf')"
      by (cases "handle_control_command up (trim c) sf")
    let ?t' = "?t\<lparr>tx := tx t @ as_bytes r\<rparr>"
    have "t_write_all (as_bytes r) ?t = (Inr (), ?t')" using Cons.prems(2) by (simp add: t_write_all_def)
    with False r line Cons.IH [of ?t' sf'] Cons.prems show ?thesis
      by (auto simp: handle_control.simps [of up sf t] trim_strip_cr as_bytes_append case_prod_beta' Let_def)
  qed
qed

text \<open>
  C22: a control session executes its commands in order.  On a connection that carries
  any lines of text and then closes, the session ends without error, the bytes sent are
  exactly the replies to the non-blank lines up to the first \<open>QUIT\<close>, in order, encoded
  in UTF-8, and the state is the one these commands produce; surrounding white space and
  a carriage return at the end of a line make no difference.
\<close>

theorem control_session_runs_commands:
  assumes "\<forall>c \<in> set cs. \<forall>x \<in> set c. scalar x \<and> x \<noteq> 10" "tx_fault t = None"
    and "rx t = concat (map (\<lambda>c. as_bytes c @ [10]) cs)" "kind (rx_end t) = UnexpectedEof"
  shows "\<exists>t'. handle_control up (sf, t) = (Inr (), snd (run_commands up cs sf), t') \<and>
    tx t' = tx t @ as_bytes (fst (run_commands up cs sf))"
  by (rule handle_control_commands [OF assms])

theorem control_session_runs_commands_witness:
  "\<exists>t'. handle_control (\<lambda>_. True) ((server_new, demo_fs), closing (as_bytes (mount_cmd 3 (lit ''a.dsk'')) @ [10])) =
      (Inr (), (mount 3 demo_disk server_new, demo_fs), t')"
proof -
  let ?c = "mount_cmd 3 (lit ''a.dsk'')"
  have three: "show_nat 3 = [51]" by (simp add: show_nat.simps)
  have c: "?c = lit ''MOUNT 3 a.dsk''" by (simp add: mount_cmd_def three)
  have "trim ?c = ?c" unfolding c by (simp add: trim_def trim_start_def trim_end_def char_is_whitespace_def)
  moreover have "handle_control_command (\<lambda>_. True) ?c (server_new, demo_fs) =
      (mounted_reply 3 1 (lit ''a.dsk''), mount 3 demo_disk server_new, demo_fs)"
    using parse_show [of 3] demo_open
    by (simp add: run_cmds control_mount_def three mount_dsk_def demo_disk_def)
  moreover have "\<forall>x \<in> set ?c. scalar x \<and> x \<noteq> 10" unfolding c by (simp add: scalar_def)
  ultimately show ?thesis
    using control_session_runs_commands [of "[?c]" "closing (as_bytes ?c @ [10])" "\<lambda>_. True" "(server_new, demo_fs)"]
    by (auto simp: closing_def early_eof_def mount_cmd_def)
qed

end
