(* ===== verification/Cli.thy ===== *)
theory Cli
  imports Control
begin

text \<open>
  The clients of the control socket in the command-line tool \<open>dw\<close>: \<open>mount\<close>, \<open>unmount\<close>
  and \<open>status\<close> over \<open>control_request\<close>.  A connection is a transport, or the error of
  \<open>connect\<close>; what is printed to standard output is a result.
\<close>

section \<open>Reading a reply\<close>

datatype cli_error = Bail str | CliIo io_error | CliDisk vdisk_error | CliServer server_error | CliPanic str

text \<open>\<open>read_line\<close>: the bytes up to and including the next line feed, or all that is left.\<close>

definition read_line :: "(transport, io_error, str) sx" where
  "read_line t =
    (let bs = (if 10 \<in> set (rx t) then takeWhile (\<lambda>b. b \<noteq> 10) (rx t) @ [10] else rx t);
         t' = t\<lparr>rx := drop (length bs) (rx t)\<rparr> in
     if 10 \<notin> set (rx t) \<and> kind (rx_end t) \<noteq> UnexpectedEof then (Inl (rx_end t), t')
     else case line_text bs of Inl e \<Rightarrow> (Inl e, t') | Inr s \<Rightarrow> (Inr s, t'))"

definition terminal_line :: "str \<Rightarrow> bool" where
  "terminal_line line =
    (let trimmed = trim_end line in
     trimmed = lit ''OK'' \<or> starts_with trimmed (lit ''OK '') \<or> starts_with trimmed (lit ''ERROR'') \<or>
     starts_with trimmed (lit ''BYE''))"

lemma read_line_shorter:
  assumes "read_line t = (Inr s, t')" "s \<noteq> []"
  shows "length (rx t') < length (rx t)"
proof -
  have "rx t \<noteq> []"
    using assms by (auto simp: read_line_def line_text_def from_utf8_def Let_def split: if_splits)
  moreover have "rx t' = drop (if 10 \<in> set (rx t) then Suc (length (takeWhile (\<lambda>b. b \<noteq> 10) (rx t))) else length (rx t)) (rx t)"
    using assms(1) by (auto simp: read_line_def Let_def split: if_splits sum.splits)
  ultimately show ?thesis by (simp split: if_splits)
qed

text \<open>The loop of \<open>control_request\<close>.\<close>

function read_reply :: "str \<Rightarrow> (transport, io_error, str) sx" where
  "read_reply out t =
    (case read_line t of
       (Inl e, t') \<Rightarrow> (Inl e, t')
     | (Inr line, t') \<Rightarrow>
         (if line = [] then (Inr out, t')
          else if terminal_line line then (Inr (out @ line), t')
          else read_reply (out @ line) t'))"
  by pat_completeness auto
termination
  by (relation "measure (\<lambda>(out, t). length (rx t))") (auto dest: read_line_shorter [OF sym])

declare read_reply.simps [simp del]

definition control_request :: "io_error + transport \<Rightarrow> str \<Rightarrow> (io_error + str) \<times> transport option" where
  "control_request conn cmd =
    (case conn of
       Inl e \<Rightarrow> (Inl e, None)
     | Inr t \<Rightarrow>
         (case t_write_all (as_bytes cmd) t of
            (Inl e, t') \<Rightarrow> (Inl e, Some t')
          | (Inr _, t') \<Rightarrow> (case read_reply [] t' of (r, t'') \<Rightarrow> (r, Some t''))))"

text \<open>The three commands: what they print, and whether they fail.\<close>

definition cli_reply :: "str \<Rightarrow> (io_error + str) \<times> transport option \<Rightarrow> str \<times> (cli_error + unit)" where
  "cli_reply failure = (\<lambda>(r, _).
    (case r of
       Inl e \<Rightarrow> ([], Inl (CliIo e))
     | Inr reply \<Rightarrow> (reply, if starts_with reply (lit ''ERROR'') then Inl (Bail failure) else Inr ())))"

definition cli_mount :: "u8 \<Rightarrow> str option \<Rightarrow> io_error + transport \<Rightarrow> str \<times> (cli_error + unit)" where
  "cli_mount slot path conn =
    (case path of
       None \<Rightarrow> ([], Inl (Bail (lit ''path is not valid UTF-8'')))
     | Some path_str \<Rightarrow>
         cli_reply (lit ''mount failed'')
           (control_request conn (lit ''MOUNT '' @ show_nat (unat slot) @ [32] @ path_str @ [10])))"

definition cli_unmount :: "u8 \<Rightarrow> io_error + transport \<Rightarrow> str \<times> (cli_error + unit)" where
  "cli_unmount slot conn =
     cli_reply (lit ''unmount failed'') (control_request conn (lit ''UNMOUNT '' @ show_nat (unat slot) @ [10]))"

definition cli_status :: "io_error + transport \<Rightarrow> str \<times> (cli_error + unit)" where
  "cli_status conn =
    (case fst (control_request conn (lit ''STATUS'' @ [10])) of
       Inl e \<Rightarrow> ([], Inl (CliIo e))
     | Inr reply \<Rightarrow> (reply, Inr ()))"

section \<open>Replies as lines\<close>

definition clean :: "str \<Rightarrow> bool" where
  "clean s \<longleftrightarrow> (\<forall>x \<in> set s. scalar x \<and> x \<noteq> 10)"

definition unlines :: "str list \<Rightarrow> str" where
  "unlines ls = concat (map (\<lambda>l. l @ [10]) ls)"

text \<open>A reply: lines of which the last one, and only it, is terminal.\<close>

definition reply_lines :: "str list \<Rightarrow> bool" where
  "reply_lines ls \<longleftrightarrow> ls \<noteq> [] \<and> (\<forall>l \<in> set ls. clean l) \<and>
     (\<forall>l \<in> set (butlast ls). \<not> terminal_line (l @ [10])) \<and> terminal_line (last ls @ [10])"

lemma clean_simps [simp]:
  "clean []" "clean (c # s) \<longleftrightarrow> scalar c \<and> c \<noteq> 10 \<and> clean s" "clean (s @ t) \<longleftrightarrow> clean s \<and> clean t"
  by (auto simp: clean_def)

lemma scalar_ascii [simp]: "c < 0x80 \<Longrightarrow> scalar c"
  by (simp add: scalar_def)

lemma clean_show_nat [simp]: "clean (show_nat n)"
  using show_nat_digits [of n] by (auto simp: clean_def is_digit_def scalar_def)

lemma read_line_clean:
  assumes "clean l" "rx t = as_bytes (l @ [10]) @ rest"
  shows "read_line t = (Inr (l @ [10]), t\<lparr>rx := rest\<rparr>)"
proof -
  have nl: "as_bytes [10] = [10 :: u8]" by (simp add: as_bytes_def utf8_char_def)
  have "(10 :: u8) \<notin> set (as_bytes l)" using ascii_in_as_bytes [of l 10] assms(1) by (auto simp: clean_def)
  then have "takeWhile (\<lambda>b. b \<noteq> 10) (rx t) = as_bytes l"
    unfolding assms(2) as_bytes_append nl by (simp add: split_at)
  moreover have "from_utf8 (as_bytes l @ [10]) = Some (l @ [10])"
    using assms(1) nl from_utf8_as_bytes [of "l @ [10]"] by (simp add: clean_def as_bytes_append scalar_def)
  ultimately show ?thesis using assms(2) by (simp add: read_line_def line_text_def as_bytes_append nl)
qed

lemma read_reply_lines:
  assumes "reply_lines ls" "rx t = as_bytes (unlines ls) @ rest"
  shows "read_reply out t = (Inr (out @ unlines ls), t\<lparr>rx := rest\<rparr>)"
  using assms
proof (induction ls arbitrary: out t)
  case (Cons l ls)
  let ?t = "t\<lparr>rx := as_bytes (unlines ls) @ rest\<rparr>"
  have line: "read_line t = (Inr (l @ [10]), ?t)"
    using Cons.prems by (intro read_line_clean) (auto simp: reply_lines_def unlines_def as_bytes_def)
  show ?case
  proof (cases "ls = []")
    case True
    with line Cons.prems show ?thesis
      by (simp add: read_reply.simps [of out t] reply_lines_def unlines_def as_bytes_def)
  next
    case False
    with Cons.prems have "reply_lines ls" "\<not> terminal_line (l @ [10])" by (auto simp: reply_lines_def)
    with Cons.IH [of ?t "out @ l @ [10]"] line show ?thesis
      by (simp add: read_reply.simps [of out t] unlines_def)
  qed
qed (simp add: reply_lines_def)

section \<open>The replies of the daemon\<close>

lemma trim_end_Cons: "trim_end (c # s) = (if trim_end s = [] \<and> char_is_whitespace c then [] else c # trim_end s)"
  by (auto simp: trim_end_def dropWhile_append)

lemma trim_end_Nil [simp]: "trim_end [] = []"
  by (simp add: trim_end_def)

lemma ws_simps [simp]: "char_is_whitespace 32" "char_is_whitespace 10"
  "33 \<le> c \<Longrightarrow> c < 127 \<Longrightarrow> \<not> char_is_whitespace c"
  by (auto simp: char_is_whitespace_def)

text \<open>Only the first characters of a line decide.\<close>

lemma not_terminal: "33 \<le> c \<Longrightarrow> c < 127 \<Longrightarrow> c \<noteq> 79 \<Longrightarrow> c \<noteq> 69 \<Longrightarrow> c \<noteq> 66 \<Longrightarrow> \<not> terminal_line (c # s)"
  by (simp add: terminal_line_def Let_def trim_end_Cons)

lemma trim_id:
  assumes "s \<noteq> []" "\<not> char_is_whitespace (hd s)" "\<not> char_is_whitespace (last s)"
  shows "trim s = s"
proof -
  have "trim_start s = s" using assms(1,2) by (cases s) (simp_all add: trim_start_def)
  moreover have "trim_end s = s" using assms(1,3) by (cases s rule: rev_cases) (simp_all add: trim_end_def)
  ultimately show ?thesis by (simp add: trim_def)
qed

lemma terminal_lines:
  "33 \<le> c \<Longrightarrow> c < 127 \<Longrightarrow> terminal_line (lit ''OK '' @ c # s)" "terminal_line (lit ''ERROR'' @ s)"
  "terminal_line (lit ''BYE'' @ [10])" "terminal_line (lit ''OK'' @ [10])"
  by (simp_all add: terminal_line_def Let_def trim_end_Cons)

lemma one_line: "clean l \<Longrightarrow> terminal_line (l @ [10]) \<Longrightarrow> \<exists>ls. l @ [10] = unlines ls \<and> reply_lines ls"
  by (rule exI [of _ "[l]"]) (simp add: unlines_def reply_lines_def)

text \<open>
  What the daemon's texts must satisfy for replies to be readable: paths of mounted disks
  and operating-system error messages are valid text without line feeds.
\<close>

definition clean_names :: "server \<Rightarrow> bool" where
  "clean_names s \<longleftrightarrow> (\<forall>(slot, d) \<in> set (drives s). clean (dsk_path d))"

definition clean_errors :: "filesys \<Rightarrow> bool" where
  "clean_errors f \<longleftrightarrow> (\<forall>path ro e. dsk_open path ro f = (Inl e, f) \<longrightarrow> clean (vdisk_error_display e))"

lemma clean_drive_summary:
  assumes "clean_names s" "(slot, name, n) \<in> set (drive_summary s)"
  shows "clean name"
  using assms by (auto simp: drive_summary_def clean_names_def)

lemma concat_unlines: "\<forall>l \<in> set ls. l \<noteq> [] \<and> last l = 10 \<Longrightarrow> concat ls = unlines (map butlast ls)"
proof (induction ls)
  case (Cons l ls)
  then have "butlast l @ [10] = l" using append_butlast_last_id [of l] by simp
  with Cons show ?case by (simp add: unlines_def)
qed (simp add: unlines_def)

lemma reply_linesI:
  "(\<And>l. l \<in> set ls \<Longrightarrow> clean l \<and> \<not> terminal_line (l @ [10])) \<Longrightarrow> clean z \<Longrightarrow> terminal_line (z @ [10]) \<Longrightarrow>
    reply_lines (ls @ [z])"
  by (auto simp: reply_lines_def butlast_append)

lemma concat_nonempty: "concat ls = concat (filter (\<lambda>l. l \<noteq> []) ls)"
  by (induction ls) auto

lemma status_line_facts:
  "drive_line x \<noteq> [] \<and> last (drive_line x) = 10 \<and> \<not> terminal_line (butlast (drive_line x) @ [10])"
  "clean (fst (snd x)) \<Longrightarrow> clean (butlast (drive_line x))"
  "vserial_line y \<noteq> [] \<Longrightarrow> last (vserial_line y) = 10 \<and> clean (butlast (vserial_line y)) \<and>
     \<not> terminal_line (butlast (vserial_line y) @ [10])"
  by (cases x; auto simp: butlast_append not_terminal; fail)+
    (cases y; auto simp: butlast_append not_terminal split: if_splits)

lemma status_reply:
  assumes "clean_names s"
  shows "\<exists>ls. control_status s = unlines ls \<and> reply_lines ls"
proof -
  let ?ds = "map drive_line (drive_summary s)"
  let ?vs = "filter (\<lambda>l. l \<noteq> []) (map vserial_line (vserial_summary s))"
  let ?ls = "map butlast (?ds @ ?vs)"
  have "control_status s = concat (?ds @ ?vs) @ lit ''OK'' @ [10]"
    unfolding control_status_def concat_nonempty [of "map vserial_line (vserial_summary s)"] by simp
  also have "concat (?ds @ ?vs) = unlines ?ls"
    using status_line_facts(1,3) by (intro concat_unlines) auto
  finally have "control_status s = unlines (?ls @ [lit ''OK''])" by (simp add: unlines_def)
  moreover have "clean l \<and> \<not> terminal_line (l @ [10])" if "l \<in> set ?ls" for l
    using that clean_drive_summary [OF assms] status_line_facts by fastforce
  then have "reply_lines (?ls @ [lit ''OK''])"
    by (rule reply_linesI) (use terminal_lines(4) in simp_all)
  ultimately show ?thesis by blast
qed

lemma splitn_ws_chars: "w \<in> set (splitn_ws n s) \<Longrightarrow> set w \<subseteq> set s"
proof (induction n s rule: splitn_ws.induct)
  case (3 n s)
  have sub: "set rest \<subseteq> set s" if "dropWhile (Not \<circ> char_is_whitespace) s = c # rest" for c rest
    using that by (metis (no_types, lifting) list.set_intros(2) set_dropWhileD subsetI)
  from 3 sub show ?case
    by (auto split: list.splits dest: set_takeWhileD)
qed auto

lemma clean_subset: "set t \<subseteq> set s \<Longrightarrow> clean s \<Longrightarrow> clean t"
  by (auto simp: clean_def)

lemma clean_piece: "clean line \<Longrightarrow> w \<in> set (splitn_ws n line) \<Longrightarrow> clean w"
  by (blast intro: clean_subset dest: splitn_ws_chars)

lemma clean_uppercase: "clean s \<Longrightarrow> clean (to_ascii_uppercase s)"
  by (auto simp: clean_def to_ascii_uppercase_def scalar_def)

lemma clean_str_debug: "clean s \<Longrightarrow> clean (str_debug up s)"
proof -
  have "clean (hex_digits n)" for n
  proof (induction n rule: hex_digits.induct)
    case (1 n)
    then show ?case by (auto simp: hex_digits.simps [of n] Let_def scalar_def)
  qed
  then have "scalar c \<Longrightarrow> clean (char_escape_debug up c)" for c
    by (simp add: char_escape_debug_def)
  then show "clean s \<Longrightarrow> clean (str_debug up s)"
    by (induction s) (auto simp: str_debug_def)
qed

text \<open>The shapes of one-line replies.\<close>

abbreviation readable :: "str \<Rightarrow> bool" where
  "readable reply \<equiv> \<exists>ls. reply = unlines ls \<and> reply_lines ls"

lemma readable_error: "clean s \<Longrightarrow> readable (lit ''ERROR'' @ s @ [10])"
  using one_line [of "lit ''ERROR'' @ s"] terminal_lines(2) [of "s @ [10]"] by simp

lemma readable_ok: "33 \<le> c \<Longrightarrow> c < 127 \<Longrightarrow> clean s \<Longrightarrow> readable (lit ''OK '' @ c # s @ [10])"
  using one_line [of "lit ''OK '' @ c # s"] terminal_lines(1) [of c "s @ [10]"] by simp

lemma readable_slot_error: "clean slot \<Longrightarrow> readable (slot_error up slot)"
  using readable_error [of "lit '' slot must be a u8 (got '' @ str_debug up slot @ lit '')''"]
  by (simp add: slot_error_def clean_str_debug)

lemma readable_replies:
  "clean name \<Longrightarrow> readable (mounted_reply n k name)" "readable (unmounted_reply n)"
  "readable (lit ''ERROR usage: MOUNT <slot> <path>'' @ [10])" "readable (lit ''ERROR usage: UNMOUNT <slot>'' @ [10])"
  using readable_ok [of 109 "lit ''ounted slot '' @ show_nat (unat n) @ lit '' sectors='' @ show_nat (unat k)
      @ lit '' path='' @ name"] readable_ok [of 117 "lit ''nmounted slot '' @ show_nat (unat n)"]
    readable_error [of "lit '' usage: MOUNT <slot> <path>''"] readable_error [of "lit '' usage: UNMOUNT <slot>''"]
  by (simp_all add: mounted_reply_def unmounted_reply_def)

lemma readable_mount:
  assumes "\<And>a. a \<in> set args \<Longrightarrow> clean a" "clean_errors f"
  shows "readable (fst (control_mount up args (s, f)))"
proof -
  consider "\<nexists>slot path rest. args = slot # path # rest"
    | slot path rest where "args = slot # path # rest" "parse_u8 slot = None"
    | slot path rest n where "args = slot # path # rest" "parse_u8 slot = Some n"
    by (metis not_None_eq)
  then show ?thesis
  proof cases
    case 1
    then have "control_mount up args (s, f) = (lit ''ERROR usage: MOUNT <slot> <path>'' @ [10], s, f)"
      by (auto simp: control_mount_def split: list.split)
    then show ?thesis using readable_replies(3) by simp
  next
    case 2
    with assms(1) readable_slot_error [of slot up] show ?thesis by (simp add: control_mount_def)
  next
    case 3
    from mount_dsk_cases [of n path False s f] show ?thesis
    proof (elim disjE exE conjE)
      fix e assume e: "mount_dsk n path False (s, f) = (Inl e, s, f)" "dsk_open path False f = (Inl e, f)"
      then have "clean (vdisk_error_display e)" using assms(2) by (auto simp: clean_errors_def)
      with 3 e readable_error [of "lit '' mount failed: '' @ vdisk_error_display e"] show ?thesis
        by (simp add: control_mount_def)
    next
      fix d assume d: "mount_dsk n path False (s, f) = (Inr (dsk_sector_count d, dsk_path d), mount n d s, f)"
        "dsk_open path False f = (Inr d, f)"
      then have "dsk_path d = path" by (auto simp: dsk_open_def Let_def split: sum.splits option.splits)
      with 3 d assms(1) readable_replies(1) [of path] show ?thesis by (simp add: control_mount_def)
    qed
  qed
qed

lemma readable_unmount:
  assumes "\<And>a. a \<in> set args \<Longrightarrow> clean a"
  shows "readable (fst (control_unmount up args (s, f)))"
  using assms readable_slot_error [of _ up] readable_replies(2,4)
  by (auto simp: control_unmount_def split: list.split option.split)

lemma readable_reply:
  assumes "clean line" "clean_names s" "clean_errors f"
  shows "readable (fst (handle_control_command up line (s, f)))"
proof -
  let ?it = "splitn_ws 3 line"
  let ?verb = "to_ascii_uppercase (case ?it of w # _ \<Rightarrow> w | [] \<Rightarrow> [])"
  have args: "clean a" if "a \<in> set (tl ?it)" for a
    using that assms(1) clean_piece by (metis list.sel(2) list.set_sel(2))
  have "clean ?verb" using assms(1) clean_piece [of line _ 3] by (auto intro!: clean_uppercase split: list.split)
  then have "readable (lit ''ERROR unknown verb: '' @ ?verb @ [10])"
    using readable_error [of "lit '' unknown verb: '' @ ?verb"] by simp
  moreover have "readable (lit ''BYE'' @ [10])" using one_line [of "lit ''BYE''"] terminal_lines(3) by simp
  ultimately show ?thesis
    using readable_mount [of "tl ?it" f up s] readable_unmount [of "tl ?it" up s f] args assms(3)
      status_reply [OF assms(2)]
    by (simp add: handle_control_command_def Let_def)
qed

section \<open>The client against the daemon\<close>

text \<open>
  The daemon's side of one request: a control session that has received the line and
  answered it.  The client reads what that session has written; how its own stream ends
  does not matter, because it must not read on.
\<close>

definition daemon :: "(uchar \<Rightarrow> bool) \<Rightarrow> str \<Rightarrow> shared \<Rightarrow> bytes \<times> shared" where
  "daemon up cmd sf =
    (case handle_control up (sf, closing (as_bytes cmd)) of (_, sf', t) \<Rightarrow> (tx t, sf'))"

lemma daemon_line:
  assumes "clean line" "trim line \<noteq> []"
  shows "daemon up (line @ [10]) sf =
    (as_bytes (fst (handle_control_command up (trim line) sf)), snd (handle_control_command up (trim line) sf))"
proof -
  have nl: "as_bytes [10] = [10 :: u8]" by (simp add: as_bytes_def utf8_char_def)
  obtain t' where "handle_control up (sf, closing (as_bytes (line @ [10]))) =
      (Inr (), snd (run_commands up [line] sf), t')" "tx t' = as_bytes (fst (run_commands up [line] sf))"
    using handle_control_commands [of "[line]" "closing (as_bytes (line @ [10]))" up sf] assms(1)
    by (auto simp: closing_def early_eof_def clean_def as_bytes_append nl)
  with assms(2) show ?thesis by (auto simp: daemon_def case_prod_beta' Let_def)
qed

lemma control_request_daemon:
  assumes "clean line" "trim line \<noteq> []" "clean_names (fst sf)" "clean_errors (snd sf)" "tx_fault t = None"
    and "rx t = fst (daemon up (line @ [10]) sf)"
  shows "control_request (Inr t) (line @ [10]) =
    (Inr (fst (handle_control_command up (trim line) sf)),
     Some (t\<lparr>rx := [], tx := tx t @ as_bytes (line @ [10])\<rparr>))"
proof -
  have "clean (trim line)" using assms(1)
    by (rule clean_subset [rotated])
      (auto simp: trim_def trim_end_def trim_start_def dest!: set_dropWhileD)
  then obtain ls where ls: "fst (handle_control_command up (trim line) sf) = unlines ls" "reply_lines ls"
    using readable_reply [of "trim line" "fst sf" "snd sf" up] assms(3,4) by auto
  with assms daemon_line [OF assms(1,2), of up sf] show ?thesis
    by (simp add: control_request_def t_write_all_def read_reply_lines [OF ls(2), of _ "[]"])
qed

text \<open>
  C24: a control client gets the whole reply and does not wait for more.  For every
  command line without line feeds, as long as the names of mounted disks and the
  operating system's messages have none either, \<open>control_request\<close> returns exactly the
  text the daemon produced for the trimmed line, multi-line \<open>STATUS\<close> replies included,
  having read all of it and nothing beyond, whatever comes after on the connection.
\<close>

theorem control_reply_complete:
  assumes "clean line" "trim line \<noteq> []" "clean_names s" "clean_errors f" "tx_fault t = None"
    and "daemon up (line @ [10]) (s, f) = (reply, sf')" "rx t = reply"
  shows "\<exists>t'. control_request (Inr t) (line @ [10]) =
      (Inr (fst (handle_control_command up (trim line) (s, f))), Some t') \<and> rx t' = [] \<and>
    sf' = snd (handle_control_command up (trim line) (s, f))"
  using control_request_daemon [of line "(s, f)" t up] daemon_line [of line up "(s, f)"] assms by simp

text \<open>
  C21: \<open>dw mount\<close> end to end.  For a non-empty path without line feeds that does not end
  in white space (the daemon would trim it), mounted names and error messages being free of
  line feeds too, the command makes the daemon open exactly that path.  If it opens, exactly
  that slot holds the disk, every other slot is as before, the tool prints the daemon's
  confirmation with slot, sector count and path, and succeeds; if not, the server is as
  before, and the tool prints the daemon's error reply with the reason and fails with
  \<open>mount failed\<close>.
\<close>

theorem dw_mount_end_to_end:
  assumes "clean path" "path \<noteq> []" "\<not> char_is_whitespace (last path)"
    and "clean_names s" "clean_errors f" "tx_fault t = None"
    and "daemon up (mount_cmd n path @ [10]) (s, f) = (reply, s', f')" "rx t = reply"
  shows "case fst (dsk_open path False f) of
      Inr d \<Rightarrow> cli_mount n (Some path) (Inr t) = (mounted_reply n (dsk_sector_count d) path, Inr ()) \<and>
        (\<forall>slot. drive_lookup slot s' = (if slot = n then Some d else drive_lookup slot s))
    | Inl e \<Rightarrow> cli_mount n (Some path) (Inr t) =
          (lit ''ERROR mount failed: '' @ vdisk_error_display e @ [10], Inl (Bail (lit ''mount failed''))) \<and> s' = s"
proof -
  let ?c = "mount_cmd n path"
  have trim: "trim ?c = ?c"
    using assms(2,3) by (intro trim_id) (simp_all add: mount_cmd_def)
  have clean: "clean ?c" using assms(1) by (simp add: mount_cmd_def)
  have ne: "trim ?c \<noteq> []" by (simp only: trim) (simp add: mount_cmd_def)
  have cmd: "handle_control_command up ?c (s, f) = control_mount up [show_nat (unat n), path] (s, f)"
    by (rule run_cmds)
  have cli: "cli_mount n (Some path) (Inr t) = cli_reply (lit ''mount failed'') (control_request (Inr t) (?c @ [10]))"
    by (simp add: cli_mount_def mount_cmd_def)
  have "s' = fst (snd (control_mount up [show_nat (unat n), path] (s, f)))"
    using assms(7) daemon_line [OF clean ne, of up "(s, f)"] by (simp add: trim cmd)
  moreover have "control_request (Inr t) (?c @ [10]) =
      (Inr (fst (control_mount up [show_nat (unat n), path] (s, f))), Some (t\<lparr>rx := [], tx := tx t @ as_bytes (?c @ [10])\<rparr>))"
    using control_request_daemon [OF clean ne, of "(s, f)" t up] assms(4-8) by (simp add: trim cmd)
  moreover have "dsk_open path False f = (Inr d, f) \<Longrightarrow> dsk_path d = path" for d
    by (auto simp: dsk_open_def Let_def split: sum.splits option.splits)
  ultimately show ?thesis
    using mount_dsk_cases [of n path False s f]
    by (auto simp: cli cli_reply_def control_mount_def parse_show drv.lookup_put)
qed

text \<open>Witnesses: one daemon, one client that has connected to it.\<close>

definition client :: "bytes \<Rightarrow> transport" where
  "client bs = \<lparr>rx = bs, rx_end = early_eof, tx = [], tx_fault = None\<rparr>"

lemma client_simps [simp]: "tx_fault (client bs) = None" "rx (client bs) = bs"
  by (simp_all add: client_def)

lemma clean_demo [simp]: "clean_names server_new" "clean_errors demo_fs"
  by (auto simp: clean_names_def server_new_def clean_errors_def dsk_open_def demo_fs_def Let_def)

theorem control_reply_complete_witness:
  "fst (control_request (Inr (client (fst (daemon (\<lambda>_. True) (status_cmd @ [10]) (server_new, demo_fs))))) (status_cmd @ [10])) =
     Inr (control_status server_new)"
proof -
  have st: "trim status_cmd = status_cmd" "clean status_cmd" "status_cmd \<noteq> []"
    by (simp_all add: status_cmd_def trim_id)
  obtain reply sf' where d: "daemon (\<lambda>_. True) (status_cmd @ [10]) (server_new, demo_fs) = (reply, sf')"
    by (cases "daemon (\<lambda>_. True) (status_cmd @ [10]) (server_new, demo_fs)")
  from control_reply_complete [OF st(2) _ _ _ _ d, of "client reply"] st d run_cmds(3) show ?thesis by auto
qed

theorem dw_mount_end_to_end_witness:
  "snd (cli_mount 3 (Some (lit ''a.dsk''))
     (Inr (client (fst (daemon (\<lambda>_. True) (mount_cmd 3 (lit ''a.dsk'') @ [10]) (server_new, demo_fs)))))) = Inr ()"
proof -
  obtain reply s' f' where d: "daemon (\<lambda>_. True) (mount_cmd 3 (lit ''a.dsk'') @ [10]) (server_new, demo_fs) = (reply, s', f')"
    by (metis prod_cases3)
  have "clean (lit ''a.dsk'')" by simp
  from dw_mount_end_to_end [OF this _ _ _ _ _ d, of "client reply"] d demo_open show ?thesis by simp
qed

end
