(* ===== verification/Serial_Drain.thy ===== *)
theory Serial_Drain
  imports Serial_Port
begin

text \<open>
  Draining a freshly opened port (\<open>drain_serial\<close>).  Time is counted from the call in any
  unit; \<open>now i\<close> is what the clock shows when the loop is entered for the \<open>i\<close>-th time, and
  every chunk that the reader thread is still going to send carries the time of its
  arrival.  A read under \<open>timeout\<close> waits for the next chunk.  The timer may be late: in its
  \<open>i\<close>-th turn the loop gives up only \<open>late i\<close> after the deadline, and since \<open>timeout\<close> looks at
  the port before the timer, a chunk that has come by then is still read.  Otherwise the
  port is left as it was.
\<close>

section \<open>The loop\<close>

record timed_port =
  tp_port :: blocking_serial
  tp_future :: "(nat \<times> bytes) list"
  tp_end :: "nat option"

function timed_read :: "nat \<Rightarrow> nat \<Rightarrow> timed_port \<Rightarrow> (io_error + bytes) option \<times> timed_port" where
  "timed_read deadline n c =
    (case poll_read n (tp_port c) of
       (Ready r, p) \<Rightarrow> (Some r, c\<lparr>tp_port := p\<rparr>)
     | (NotReady, p) \<Rightarrow>
         (case tp_future c of
            (at, chunk) # later \<Rightarrow>
              (if at \<le> deadline
               then timed_read deadline n
                 (c\<lparr>tp_port := p\<lparr>bs_rx := (bs_rx p)\<lparr>queue := queue (bs_rx p) @ [chunk]\<rparr>\<rparr>, tp_future := later\<rparr>)
               else (None, c\<lparr>tp_port := p\<rparr>))
          | [] \<Rightarrow>
              (case tp_end c of
                 Some at \<Rightarrow>
                   (if at \<le> deadline
                    then timed_read deadline n (c\<lparr>tp_port := p\<lparr>bs_rx := (bs_rx p)\<lparr>sender_alive := False\<rparr>\<rparr>\<rparr>)
                    else (None, c\<lparr>tp_port := p\<rparr>))
               | None \<Rightarrow> (None, c\<lparr>tp_port := p\<rparr>))))"
  by pat_completeness auto
termination
  by (relation "measure (\<lambda>(d, n, c). length (tp_future c) + (if sender_alive (bs_rx (tp_port c)) then 1 else 0))")
    (auto dest: poll_read_not_ready [OF sym])

declare timed_read.simps [simp del]

definition tp_queued :: "timed_port \<Rightarrow> bytes" where
  "tp_queued c = leftover (tp_port c) @ concat (queue (bs_rx (tp_port c)))"

definition tp_pending :: "timed_port \<Rightarrow> bytes" where
  "tp_pending c = tp_queued c @ concat (map snd (tp_future c))"

text \<open>What is there by the deadline, and what comes later.\<close>

definition stale :: "nat \<Rightarrow> timed_port \<Rightarrow> bytes" where
  "stale deadline c = tp_queued c @ concat (map snd (takeWhile (\<lambda>(at, _). at \<le> deadline) (tp_future c)))"

definition fresh :: "nat \<Rightarrow> timed_port \<Rightarrow> bytes" where
  "fresh deadline c = concat (map snd (dropWhile (\<lambda>(at, _). at \<le> deadline) (tp_future c)))"

text \<open>The same for any set of times, as the bounds of the loop vary with its timer.\<close>

definition stale_by :: "(nat \<Rightarrow> bool) \<Rightarrow> timed_port \<Rightarrow> bytes" where
  "stale_by P c = tp_queued c @ concat (map snd (takeWhile (\<lambda>(at, _). P at) (tp_future c)))"

definition fresh_by :: "(nat \<Rightarrow> bool) \<Rightarrow> timed_port \<Rightarrow> bytes" where
  "fresh_by P c = concat (map snd (dropWhile (\<lambda>(at, _). P at) (tp_future c)))"

lemma stale_by: "stale d = stale_by (\<lambda>at. at \<le> d)" "fresh d = fresh_by (\<lambda>at. at \<le> d)"
  by (rule ext, simp add: stale_def stale_by_def fresh_def fresh_by_def)+

lemma pending_split_by: "tp_pending c = stale_by P c @ fresh_by P c"
  unfolding tp_pending_def stale_by_def fresh_by_def
  by (metis append.assoc concat_append map_append takeWhile_dropWhile_id)

lemma tp_pending_split: "tp_pending c = stale d c @ fresh d c"
  by (simp add: stale_by pending_split_by [symmetric])

lemma stale_mono: "d \<le> e \<Longrightarrow> \<exists>more. stale e c = stale d c @ more"
proof -
  assume "d \<le> e"
  then have "\<exists>more. takeWhile (\<lambda>(at, _). at \<le> e) xs = takeWhile (\<lambda>(at, _). at \<le> d) xs @ more" for xs :: "(nat \<times> bytes) list"
    by (induction xs) auto
  then show ?thesis by (metis append.assoc concat_append map_append stale_def)
qed

lemma poll_read_queued:
  assumes "poll_read n (tp_port c) = (Ready (Inr bs), p)"
  shows "tp_queued c = bs @ tp_queued (c\<lparr>tp_port := p\<rparr>)"
  using assms by (auto simp: poll_read_def poll_recv_def tp_queued_def Let_def min_def split: if_splits list.splits)

lemma poll_read_error:
  assumes "poll_read n (tp_port c) = (Ready (Inl e), p)"
  shows "tp_queued c = [] \<and> p = tp_port c \<and> \<not> sender_alive (bs_rx (tp_port c))"
  using assms by (auto simp: poll_read_def poll_recv_def tp_queued_def Let_def split: if_splits list.splits)

text \<open>The reader thread sends no empty chunk, and nothing once it has ended.\<close>

definition tp_inv :: "timed_port \<Rightarrow> bool" where
  "tp_inv c \<longleftrightarrow> [] \<notin> set (queue (bs_rx (tp_port c))) \<and> [] \<notin> snd ` set (tp_future c) \<and>
     (sender_alive (bs_rx (tp_port c)) \<or> tp_future c = [])"

lemma poll_read_inv:
  assumes "tp_inv c" "0 < n" "poll_read n (tp_port c) = (Ready r, p)"
  shows "tp_inv (c\<lparr>tp_port := p\<rparr>) \<and> r \<noteq> Inr []"
  using assms
  by (auto simp: poll_read_def poll_recv_def tp_inv_def Let_def min_def split: if_splits list.splits)

lemma poll_read_tx: "poll_read n p = (r, p') \<Longrightarrow> bs_tx p' = bs_tx p"
  by (auto simp: poll_read_def poll_recv_def Let_def split: if_splits list.splits)

lemma timed_read_result:
  assumes "timed_read d n c = (r, c')" "\<forall>x \<in> set (tp_future c). fst x \<le> d \<longrightarrow> P (fst x)"
  shows "(\<forall>bs. r = Some (Inr bs) \<longrightarrow> stale_by P c = bs @ stale_by P c') \<and>
    ((\<forall>bs. r \<noteq> Some (Inr bs)) \<longrightarrow> stale_by P c' = stale_by P c) \<and> fresh_by P c' = fresh_by P c \<and>
    set (tp_future c') \<subseteq> set (tp_future c) \<and> bs_tx (tp_port c') = bs_tx (tp_port c) \<and>
    (tp_inv c \<longrightarrow> 0 < n \<longrightarrow> tp_inv c' \<and> r \<noteq> Some (Inr []) \<and> ((\<forall>bs. r \<noteq> Some (Inr bs)) \<longrightarrow> stale d c = []))"
  using assms
proof (induction d n c arbitrary: r c' rule: timed_read.induct)
  case (1 d n c)
  obtain q p where q: "poll_read n (tp_port c) = (q, p)" by fastforce
  show ?case
  proof (cases q)
    case (Ready x)
    then have rc: "r = Some x" "c' = c\<lparr>tp_port := p\<rparr>" using 1(3) q by (auto simp: timed_read.simps [of d n c])
    have "case x of Inr bs \<Rightarrow> stale_by P c = bs @ stale_by P c'
        | Inl e \<Rightarrow> stale_by P c' = stale_by P c \<and> (tp_inv c \<longrightarrow> stale d c = [])"
      using q Ready rc poll_read_queued [of n c _ p] poll_read_error [of n c _ p]
      by (auto simp: stale_def stale_by_def tp_inv_def split: sum.split)
    with rc q Ready poll_read_inv [of c n x p] poll_read_tx [OF q] show ?thesis by (auto simp: fresh_by_def split: sum.splits)
  next
    case NotReady
    note nr = poll_read_not_ready [OF q [unfolded NotReady]]
    then have empty: "tp_queued c = []" by (simp add: tp_queued_def)
    show ?thesis
    proof (cases "tp_future c")
      case Nil
      let ?c = "c\<lparr>tp_port := p\<lparr>bs_rx := (bs_rx p)\<lparr>sender_alive := False\<rparr>\<rparr>\<rparr>"
      have same: "stale_by P ?c = stale_by P c" "fresh_by P ?c = fresh_by P c" "tp_inv c \<Longrightarrow> tp_inv ?c" "stale d c = []"
          "stale d ?c = stale d c" "tp_future ?c = tp_future c"
        using Nil nr empty by (auto simp: stale_def stale_by_def fresh_by_def tp_queued_def tp_inv_def)
      show ?thesis
      proof (cases "\<exists>at. tp_end c = Some at \<and> at \<le> d")
        case True
        then obtain at where at: "tp_end c = Some at" "at \<le> d" by blast
        from 1(3) q NotReady Nil at have "timed_read d n ?c = (r, c')" by (simp add: timed_read.simps [of d n c])
        from 1(1) [OF q [symmetric] NotReady Nil at this] same nr 1(4) show ?thesis by auto
      next
        case False
        with 1(3) q NotReady Nil have "r = None" "c' = c\<lparr>tp_port := p\<rparr>"
          by (auto simp: timed_read.simps [of d n c] split: option.splits if_splits)
        with nr same show ?thesis by simp
      qed
    next
      case (Cons ac later)
      obtain at chunk where ac: "ac = (at, chunk)" by (cases ac)
      let ?c = "c\<lparr>tp_port := p\<lparr>bs_rx := (bs_rx p)\<lparr>queue := queue (bs_rx p) @ [chunk]\<rparr>\<rparr>, tp_future := later\<rparr>"
      show ?thesis
      proof (cases "at \<le> d")
        case True
        have same: "stale_by P ?c = stale_by P c" "fresh_by P ?c = fresh_by P c" "tp_inv c \<Longrightarrow> tp_inv ?c"
            "stale d ?c = stale d c" "set (tp_future ?c) \<subseteq> set (tp_future c)"
          using Cons ac nr empty True 1(4) by (auto simp: stale_def stale_by_def fresh_by_def tp_queued_def tp_inv_def)
        from 1(3) q NotReady Cons ac True have "timed_read d n ?c = (r, c')" by (simp add: timed_read.simps [of d n c])
        from 1(2) [OF q [symmetric] NotReady Cons ac [symmetric] True this] same nr 1(4) show ?thesis by auto
      next
        case False
        with 1(3) q NotReady Cons ac have "r = None" "c' = c\<lparr>tp_port := p\<rparr>"
          by (auto simp: timed_read.simps [of d n c])
        with nr empty Cons ac False show ?thesis by (simp add: stale_def)
      qed
    qed
  qed
qed

lemma timed_read_shorter:
  assumes "timed_read d n c = (Some (Inr bs), c')"
  shows "tp_pending c = bs @ tp_pending c'"
  using timed_read_result [OF assms, of "\<lambda>_. True"]
    pending_split_by [of c "\<lambda>_. True"] pending_split_by [of c' "\<lambda>_. True"] by simp

function drain_loop ::
  "(nat \<Rightarrow> nat) \<Rightarrow> (nat \<Rightarrow> nat) \<Rightarrow> nat \<Rightarrow> nat \<Rightarrow> nat \<Rightarrow> timed_port \<Rightarrow> nat \<times> timed_port" where
  "drain_loop now late deadline i drained c =
    (if deadline - now i = 0 then (drained, c)
     else case timed_read (deadline + late i) 1024 c of
       (Some (Inr bs), c') \<Rightarrow>
         (if bs = [] then (drained, c') else drain_loop now late deadline (Suc i) (drained + length bs) c')
     | (Some (Inl e), c') \<Rightarrow> (drained, c')
     | (None, c') \<Rightarrow> (drained, c'))"
  by pat_completeness auto
termination
  by (relation "measure (\<lambda>(now, late, d, i, drained, c). length (tp_pending c))")
    (auto dest!: timed_read_shorter [OF sym])

declare drain_loop.simps [simp del]

definition drain_serial :: "(nat \<Rightarrow> nat) \<Rightarrow> (nat \<Rightarrow> nat) \<Rightarrow> nat \<Rightarrow> timed_port \<Rightarrow> nat \<times> timed_port" where
  "drain_serial now late window c = drain_loop now late (now 0 + window) 1 0 c"

section \<open>What is drained\<close>

lemma drain_loop_result:
  assumes "tp_inv c" "drain_loop now late d i drained c = (m, c')"
    and "\<forall>j. \<forall>x \<in> set (tp_future c). fst x \<le> d + late j \<longrightarrow> P (fst x)"
  shows "\<exists>dropped. stale_by P c = dropped @ stale_by P c' \<and> m = drained + length dropped \<and> fresh_by P c' = fresh_by P c \<and>
    bs_tx (tp_port c') = bs_tx (tp_port c) \<and> tp_inv c' \<and> (d \<le> now i \<longrightarrow> dropped = []) \<and> ((\<forall>j. now j < d) \<longrightarrow> stale d c' = [])"
  using assms
proof (induction now late d i drained c arbitrary: m c' rule: drain_loop.induct)
  case (1 now late d i drained c)
  obtain r c1 where r: "timed_read (d + late i) 1024 c = (r, c1)" by fastforce
  have "\<forall>x \<in> set (tp_future c). fst x \<le> d + late i \<longrightarrow> P (fst x)" using 1(4) by blast
  note res = timed_read_result [OF r this]
  show ?case
  proof (cases "d - now i = 0")
    case True
    then have "\<not> (\<forall>j. now j < d)" by (metis diff_is_0_eq not_le)
    moreover have "m = drained" "c' = c" using True 1(3) by (simp_all add: drain_loop.simps [of _ _ _ i])
    ultimately show ?thesis using 1(2) by auto
  next
    case False
    show ?thesis
    proof (cases "\<exists>bs. r = Some (Inr bs)")
      case True
      then obtain bs where bs: "r = Some (Inr bs)" by blast
      with res 1(2) have ne: "bs \<noteq> []" "tp_inv c1" "stale_by P c = bs @ stale_by P c1" "fresh_by P c1 = fresh_by P c"
          "bs_tx (tp_port c1) = bs_tx (tp_port c)" "set (tp_future c1) \<subseteq> set (tp_future c)" by auto
      have "drain_loop now late d (Suc i) (drained + length bs) c1 = (m, c')"
        using 1(3) False r bs ne(1) by (simp add: drain_loop.simps [of _ _ _ i])
      from 1(1) [OF False r [symmetric] bs refl ne(1,2) this] 1(4) ne False show ?thesis by (simp add: subset_iff) force
    next
      case no: False
      with res 1(2) have s: "stale (d + late i) c = []" "stale_by P c1 = stale_by P c" "tp_inv c1" "fresh_by P c1 = fresh_by P c"
          "bs_tx (tp_port c1) = bs_tx (tp_port c)" by auto
      have "stale (d + late i) c1 = []"
        using timed_read_result [OF r, of "\<lambda>at. at \<le> d + late i"] no s(1) by (simp add: stale_by)
      then have "stale d c1 = []" using stale_mono [of d "d + late i" c1] by auto
      moreover have "m = drained \<and> c' = c1"
        using 1(3) False r no by (auto simp: drain_loop.simps [of _ _ _ i] split: option.splits sum.splits)
      ultimately show ?thesis using s by simp
    qed
  qed
qed

lemma timed_read_suffix: "timed_read d n c = (r, c') \<Longrightarrow> \<exists>pre. tp_future c = pre @ tp_future c'"
proof (induction d n c arbitrary: r c' rule: timed_read.induct)
  case (1 d n c)
  obtain q p where q: "poll_read n (tp_port c) = (q, p)" by fastforce
  show ?case
  proof (cases "q = NotReady \<and> (\<exists>at chunk later. tp_future c = (at, chunk) # later \<and> at \<le> d)")
    case True
    then obtain at chunk later where t: "q = NotReady" "tp_future c = (at, chunk) # later" "at \<le> d" by blast
    let ?c = "c\<lparr>tp_port := p\<lparr>bs_rx := (bs_rx p)\<lparr>queue := queue (bs_rx p) @ [chunk]\<rparr>\<rparr>, tp_future := later\<rparr>"
    from 1(3) q t have "timed_read d n ?c = (r, c')" by (simp add: timed_read.simps [of d n c])
    from 1(2) [OF q [symmetric] t(1,2) refl t(3) this] obtain pre where "later = pre @ tp_future c'" by auto
    with t(2) show ?thesis by (intro exI [of _ "(at, chunk) # pre"]) simp
  next
    case no: False
    show ?thesis
    proof (cases "q = NotReady \<and> tp_future c = [] \<and> (\<exists>at. tp_end c = Some at \<and> at \<le> d)")
      case True
      then obtain at where t: "q = NotReady" "tp_future c = []" "tp_end c = Some at" "at \<le> d" by blast
      from 1(3) q t have "timed_read d n (c\<lparr>tp_port := p\<lparr>bs_rx := (bs_rx p)\<lparr>sender_alive := False\<rparr>\<rparr>\<rparr>) = (r, c')"
        by (simp add: timed_read.simps [of d n c])
      from 1(1) [OF q [symmetric] t this] show ?thesis by simp
    next
      case False
      with no 1(3) q have "tp_future c' = tp_future c"
        by (auto simp: timed_read.simps [of d n c] split: poll.splits list.splits option.splits if_splits)
      then show ?thesis by (intro exI [of _ "[]"]) simp
    qed
  qed
qed

lemma drain_loop_suffix: "drain_loop now late d i drained c = (m, c') \<Longrightarrow> \<exists>pre. tp_future c = pre @ tp_future c'"
proof (induction now late d i drained c arbitrary: m c' rule: drain_loop.induct)
  case (1 now late d i drained c)
  obtain r c1 where r: "timed_read (d + late i) 1024 c = (r, c1)" by fastforce
  obtain pre where pre: "tp_future c = pre @ tp_future c1" using timed_read_suffix [OF r] by blast
  show ?case
  proof (cases "d - now i \<noteq> 0 \<and> (\<exists>bs. r = Some (Inr bs) \<and> bs \<noteq> [])")
    case True
    then obtain bs where bs: "d - now i \<noteq> 0" "r = Some (Inr bs)" "bs \<noteq> []" by blast
    then have "drain_loop now late d (Suc i) (drained + length bs) c1 = (m, c')"
      using 1(2) r by (simp add: drain_loop.simps [of _ _ _ i])
    from 1(1) [OF bs(1) r [symmetric] bs(2) refl bs(3) this] pre show ?thesis by (metis append.assoc)
  next
    case False
    with 1(2) r have "c' = c \<or> c' = c1"
      by (auto simp: drain_loop.simps [of _ _ _ i] split: option.splits sum.splits if_splits)
    with pre show ?thesis by (metis append_Nil)
  qed
qed

lemma fresh_suffix: "tp_future c = pre @ tp_future c' \<Longrightarrow> length (fresh d c') \<le> length (fresh d c)"
proof -
  assume c: "tp_future c = pre @ tp_future c'"
  have "\<exists>more. dropWhile p (pre @ ys) = more @ dropWhile p ys" for p and ys :: "(nat \<times> bytes) list"
  proof (induction pre)
    case (Cons x pre)
    then show ?case by (cases "p x") (auto, metis append_Cons append_assoc takeWhile_dropWhile_id)
  qed simp
  then show ?thesis unfolding fresh_def c by (metis concat_append length_append le_add2 map_append)
qed

text \<open>
  C28: what draining does.  It always ends.  It discards, and counts exactly, a front part
  of the bytes that are there by the deadline, or by as much later as its timer is late at
  most; a byte that arrives after that is never discarded, and what is not discarded stays
  in the port in its order.  With a window of zero nothing is discarded; and as long as the
  loop keeps up, so that the clock shows a time before the deadline each time it looks,
  everything that was there by the deadline is gone afterwards, and with a timer that is
  never late exactly that.
\<close>

theorem drain_discards_stale:
  assumes "tp_inv c" "drain_serial now late window c = (m, c')" "\<forall>i. late i \<le> L"
  shows "\<exists>dropped kept. stale (now 0 + window + L) c = dropped @ kept \<and> m = length dropped \<and>
    tp_pending c' = kept @ fresh (now 0 + window + L) c \<and> tp_inv c' \<and>
    (now 0 + window \<le> now 1 \<longrightarrow> m = 0) \<and>
    ((\<forall>i. now i < now 0 + window) \<longrightarrow>
       take (length (stale (now 0 + window) c)) dropped = stale (now 0 + window) c \<and> (L = 0 \<longrightarrow> kept = []))"
proof -
  let ?d = "now 0 + window"
  have "?d + late j \<le> ?d + L" for j using assms(3) by simp
  then have "\<forall>j. \<forall>x \<in> set (tp_future c). fst x \<le> ?d + late j \<longrightarrow> fst x \<le> ?d + L"
    using order_trans by blast
  from drain_loop_result [OF assms(1) assms(2) [unfolded drain_serial_def] this] obtain dropped where d:
    "stale (?d + L) c = dropped @ stale (?d + L) c'" "m = length dropped" "fresh (?d + L) c' = fresh (?d + L) c" "tp_inv c'"
    "?d \<le> now 1 \<longrightarrow> dropped = []" "(\<forall>j. now j < ?d) \<longrightarrow> stale ?d c' = []"
    by (auto simp: stale_by)
  have suffix: "\<exists>pre. tp_future c = pre @ tp_future c'"
    using drain_loop_suffix [OF assms(2) [unfolded drain_serial_def]] .
  have "take (length (stale ?d c)) dropped = stale ?d c \<and> (L = 0 \<longrightarrow> stale (?d + L) c' = [])"
    if now: "\<forall>i. now i < ?d"
  proof -
    have pend: "tp_pending c = dropped @ tp_pending c'"
      using d(1,3) tp_pending_split [of c "?d + L"] tp_pending_split [of c' "?d + L"] by simp
    have "tp_pending c' = fresh ?d c'" using d(6) now tp_pending_split [of c' ?d] by simp
    moreover have "length (fresh ?d c') \<le> length (fresh ?d c)"
      using suffix fresh_suffix by blast
    ultimately have "length (stale ?d c) \<le> length dropped"
      using arg_cong [OF pend, of length] arg_cong [OF tp_pending_split [of c ?d], of length] by simp
    then have "take (length (stale ?d c)) dropped = take (length (stale ?d c)) (tp_pending c)" by (simp add: pend)
    then show ?thesis using d(6) now by (simp add: tp_pending_split [of c ?d])
  qed
  with d tp_pending_split [of c' "?d + L"] show ?thesis by (intro exI [of _ dropped] exI [of _ "stale (?d + L) c'"]) auto
qed

definition stale_line :: timed_port where
  "stale_line = \<lparr>tp_port = \<lparr>bs_rx = \<lparr>queue = [[0x43, 0x43]], sender_alive = True, receiver_alive = True\<rparr>,
     bs_tx = unbounded_channel, leftover = []\<rparr>, tp_future = [(100, [0x1F]), (400, [0x5A, 0x42])], tp_end = None\<rparr>"

theorem drain_discards_stale_witness:
  "fst (drain_serial (\<lambda>_. 0) (\<lambda>_. 0) 250 stale_line) = 3 \<and>
   tp_pending (snd (drain_serial (\<lambda>_. 0) (\<lambda>_. 0) 250 stale_line)) = [0x5A, 0x42]"
proof -
  have inv: "tp_inv stale_line" by (simp add: tp_inv_def stale_line_def)
  have "stale 250 stale_line = [0x43, 0x43, 0x1F]" "fresh 250 stale_line = [0x5A, 0x42]"
    by (simp_all add: stale_def fresh_def tp_queued_def stale_line_def)
  with drain_discards_stale [OF inv, of "\<lambda>_. 0" "\<lambda>_. 0" 250 "fst (drain_serial (\<lambda>_. 0) (\<lambda>_. 0) 250 stale_line)"
      "snd (drain_serial (\<lambda>_. 0) (\<lambda>_. 0) 250 stale_line)" 0] show ?thesis by auto
qed

end
