(* ===== verification/Serve.thy ===== *)
theory Serve
  imports Cli Serial_Drain
begin

text \<open>
  The two commands of \<open>dw\<close> that own a transport: \<open>serve\<close> and \<open>probe\<close>.  What they find
  outside the program (the C library and the kernel, the bytes on the serial line with
  the times of their arrival, the connections that a TCP listener accepts, the clocks) is
  the parameter record \<open>outside\<close>.  Argument parsing (\<open>clap\<close>) and log output are left
  out; paths given on the command line are valid UTF-8.
\<close>

section \<open>Arguments\<close>

text \<open>
  Times are counted in milliseconds.  The drain window is at most \<open>2 ^ 64\<close> of them, which
  an instant of the runtime (a 64-bit count of seconds) always has room for.
\<close>

record serve_args =
  serial :: "str option"
  baud :: u32
  tcp :: "str option"
  disk0 :: "str option"
  disk1 :: "str option"
  disk2 :: "str option"
  disk3 :: "str option"
  no_low_latency :: bool
  drain_ms :: u64
  attach_socket :: str
  no_attach_socket :: bool
  control_socket :: str
  no_control_socket :: bool

record outside =
  o_libc :: libc
  o_faults :: faults
  o_os :: os
  o_line :: "(nat \<times> bytes) list"
  o_line_end :: "nat option"
  o_now :: "nat \<Rightarrow> nat"
  o_late :: "nat \<Rightarrow> nat"
  o_clock :: "nat \<Rightarrow> clock"
  o_bind :: "io_error option"
  o_accepts :: "(io_error + transport) list"
  o_waits_from :: nat
  o_first :: "nat option"

section \<open>Starting the server\<close>

text \<open>
  \<open>o_now\<close> is the clock that draining sees, \<open>o_late\<close> says how late its timers fire (at 0 that
  of the wait in \<open>probe\<close>); \<open>o_waits_from\<close> is the
  time at which \<open>probe\<close> begins to wait for a first byte, and \<open>o_first\<close> how long after it the
  first byte, or the end, of a TCP connection comes, if ever.
\<close>

text \<open>The disks of the command line, in slot order; the first that does not open ends it.\<close>

fun serve_mounts :: "(u8 \<times> str option) list \<Rightarrow> shared \<Rightarrow> (vdisk_error + unit) \<times> shared" where
  "serve_mounts [] sf = (Inr (), sf)"
| "serve_mounts ((slot, path) # rest) (s, f) =
    (case path of
       None \<Rightarrow> serve_mounts rest (s, f)
     | Some p \<Rightarrow>
         (case dsk_open p False f of
            (Inl e, f') \<Rightarrow> (Inl e, s, f')
          | (Inr disk, f') \<Rightarrow> serve_mounts rest (mount slot disk s, f')))"

datatype listener = AttachListener str | ControlListener str

definition serve_listeners :: "serve_args \<Rightarrow> listener list" where
  "serve_listeners args =
     (if no_attach_socket args then [] else [AttachListener (attach_socket args)]) @
     (if no_control_socket args then [] else [ControlListener (control_socket args)])"

text \<open>
  \<open>open_serial\<close> passes the errors of \<open>open\<close> on.  A drained or fresh port is used as the
  transport that it refines.
\<close>

definition open_serial ::
  "libc \<Rightarrow> faults \<Rightarrow> str \<Rightarrow> u32 \<Rightarrow> os \<Rightarrow> (cli_error + blocking_serial) \<times> os" where
  "open_serial lc flt dev baud_rate os =
    (case serial_open lc flt (Some dev) baud_rate os of
       (Ok (p, _, _), os') \<Rightarrow> (Inr p, os')
     | (Err e, os') \<Rightarrow> (Inl (CliIo e), os')
     | (Panic m, os') \<Rightarrow> (Inl (CliPanic m), os'))"

definition set_low_latency :: "blocking_serial \<Rightarrow> nat \<Rightarrow> blocking_serial" where
  "set_low_latency port latency_ms = port"

definition port_transport :: "timed_port \<Rightarrow> transport" where
  "port_transport c = sc_abs \<lparr>sc_port = tp_port c, sc_future = map snd (tp_future c), sc_taken = []\<rparr>"

text \<open>
  What \<open>serve\<close> leaves: its result, if it returns, the shared state, the listeners it has
  spawned, the TCP sessions it has spawned, the bytes sent over the serial line, the
  descriptors.
\<close>

record served =
  sv_result :: "(cli_error + unit) option"
  sv_shared :: shared
  sv_listeners :: "listener list"
  sv_sessions :: "transport list"
  sv_sent :: bytes
  sv_os :: os

definition serve_serial :: "serve_args \<Rightarrow> outside \<Rightarrow> str \<Rightarrow> shared \<Rightarrow> served" where
  "serve_serial args out dev sf =
    (case open_serial (o_libc out) (o_faults out) dev (baud args) (o_os out) of
       (Inl e, os') \<Rightarrow>
         \<lparr>sv_result = Some (Inl e), sv_shared = sf, sv_listeners = serve_listeners args, sv_sessions = [],
          sv_sent = [], sv_os = os'\<rparr>
     | (Inr port0, os') \<Rightarrow>
         (let port = (if no_low_latency args then port0 else set_low_latency port0 1);
              c = \<lparr>tp_port = port, tp_future = o_line out, tp_end = o_line_end out\<rparr>;
              c' = (if drain_ms args > 0 then snd (drain_serial (o_now out) (o_late out) (unat (drain_ms args)) c) else c) in
          case run (o_clock out) 0 \<lparr>srv = fst sf, fs = snd sf, tr = port_transport c'\<rparr> of
            (r, w) \<Rightarrow>
              \<lparr>sv_result = Some (case r of Inl e \<Rightarrow> Inl (CliServer e) | Inr _ \<Rightarrow> Inr ()),
               sv_shared = (srv w, fs w), sv_listeners = serve_listeners args, sv_sessions = [],
               sv_sent = tx (tr w), sv_os = os'\<rparr>))"

text \<open>The accept loop: a session for each connection, until accepting fails.\<close>

fun accept_loop :: "(io_error + transport) list \<Rightarrow> cli_error option \<times> transport list" where
  "accept_loop [] = (None, [])"
| "accept_loop (Inl e # _) = (Some (CliIo e), [])"
| "accept_loop (Inr stream # rest) = (let (r, ss) = accept_loop rest in (r, stream # ss))"

definition serve_tcp :: "serve_args \<Rightarrow> outside \<Rightarrow> shared \<Rightarrow> served" where
  "serve_tcp args out sf =
    (case o_bind out of
       Some e \<Rightarrow> \<lparr>sv_result = Some (Inl (CliIo e)), sv_shared = sf, sv_listeners = serve_listeners args,
         sv_sessions = [], sv_sent = [], sv_os = o_os out\<rparr>
     | None \<Rightarrow>
         (let (r, ss) = accept_loop (o_accepts out) in
          \<lparr>sv_result = map_option Inl r, sv_shared = sf, sv_listeners = serve_listeners args,
           sv_sessions = ss, sv_sent = [], sv_os = o_os out\<rparr>))"

definition serve_fails :: "cli_error \<Rightarrow> listener list \<Rightarrow> outside \<Rightarrow> shared \<Rightarrow> served" where
  "serve_fails e ls out sf = \<lparr>sv_result = Some (Inl e), sv_shared = sf, sv_listeners = ls, sv_sessions = [],
     sv_sent = [], sv_os = o_os out\<rparr>"

definition serve :: "serve_args \<Rightarrow> outside \<Rightarrow> filesys \<Rightarrow> served" where
  "serve args out f =
    (case serve_mounts [(0, disk0 args), (1, disk1 args), (2, disk2 args), (3, disk3 args)] (server_new, f) of
       (Inl e, sf) \<Rightarrow> serve_fails (CliDisk e) [] out sf
     | (Inr _, sf) \<Rightarrow>
         (case (serial args, tcp args) of
            (Some dev, None) \<Rightarrow> serve_serial args out dev sf
          | (None, Some addr) \<Rightarrow> serve_tcp args out sf
          | (None, None) \<Rightarrow>
              serve_fails (Bail (lit ''must pass --serial DEVICE or --tcp ADDR'')) (serve_listeners args) out sf
          | (Some _, Some _) \<Rightarrow>
              serve_fails (CliPanic (lit ''internal error: entered unreachable code: clap enforces conflicts_with''))
                (serve_listeners args) out sf))"

section \<open>Probing a guest\<close>

text \<open>
  \<open>probe\<close> after the transport is open: \<open>silent\<close> says that the time limit passes before
  a first byte arrives.  Its messages go to standard error and are left out.
\<close>

definition probe_guest :: "bool \<Rightarrow> (transport, cli_error, unit) sx" where
  "probe_guest silent t =
    (if silent then (Inl (Bail (lit ''silent guest'')), t)
     else case t_read_exact 1 t of
       (Inl e, t') \<Rightarrow> (Inl (Bail (lit ''read error: '' @ message e)), t')
     | (Inr first, t') \<Rightarrow>
         (let b = first ! 0 in
          if b = 0x5A then
            (case t_read_exact 1 t' of
               (Inl e, t'') \<Rightarrow> (Inl (CliIo e), t'')
             | (Inr driver, t'') \<Rightarrow>
                 (case t_write_all [0x04] t'' of
                    (Inl e, t3) \<Rightarrow> (Inl (CliIo e), t3)
                  | (Inr _, t3) \<Rightarrow> (Inr (), t3)))
          else case opcode_try_from b of
            Inr op \<Rightarrow> (Inr (), t')
          | Inl _ \<Rightarrow> (Inl (Bail (lit ''non-DW data on the wire'')), t')))"

record probe_args =
  probe_serial :: "str option"
  probe_baud :: u32
  probe_tcp :: "str option"
  probe_timeout :: u64
  probe_no_low_latency :: bool

text \<open>
  The whole of \<open>probe\<close>: a serial port is drained for 250 ms before it listens.  The guest is
  silent if a read of one byte under the time limit, in seconds, does not complete.  Without
  a TCP connection it waits for ever, which is the result \<open>None\<close>.
\<close>

definition silent_port :: "probe_args \<Rightarrow> outside \<Rightarrow> timed_port \<Rightarrow> bool" where
  "silent_port args out c =
    (case fst (timed_read (o_waits_from out + 1000 * unat (probe_timeout args) + o_late out 0) 1 c) of
       None \<Rightarrow> True | Some _ \<Rightarrow> False)"

definition silent_stream :: "probe_args \<Rightarrow> outside \<Rightarrow> bool" where
  "silent_stream args out =
    (case o_first out of None \<Rightarrow> True | Some ms \<Rightarrow> 1000 * unat (probe_timeout args) + o_late out 0 < ms)"

definition probe :: "probe_args \<Rightarrow> outside \<Rightarrow> (cli_error + unit) option \<times> os" where
  "probe args out =
    (case (probe_serial args, probe_tcp args) of
       (Some dev, None) \<Rightarrow>
         (case open_serial (o_libc out) (o_faults out) dev (probe_baud args) (o_os out) of
            (Inl e, os') \<Rightarrow> (Some (Inl e), os')
          | (Inr port0, os') \<Rightarrow>
              (let port = (if probe_no_low_latency args then port0 else set_low_latency port0 1);
                   c = \<lparr>tp_port = port, tp_future = o_line out, tp_end = o_line_end out\<rparr>;
                   c' = snd (drain_serial (o_now out) (o_late out) 250 c) in
               (Some (fst (probe_guest (silent_port args out c') (port_transport c'))), os')))
     | (None, Some addr) \<Rightarrow>
         (case o_bind out of
            Some e \<Rightarrow> (Some (Inl (CliIo e)), o_os out)
          | None \<Rightarrow>
              (case o_accepts out of
                 Inr stream # _ \<Rightarrow> (Some (fst (probe_guest (silent_stream args out) stream)), o_os out)
               | Inl e # _ \<Rightarrow> (Some (Inl (CliIo e)), o_os out)
               | [] \<Rightarrow> (None, o_os out)))
     | (None, None) \<Rightarrow> (Some (Inl (Bail (lit ''pass --serial DEVICE or --tcp ADDR''))), o_os out)
     | (Some _, Some _) \<Rightarrow>
         (Some (Inl (CliPanic (lit ''internal error: entered unreachable code: clap enforces conflicts_with''))), o_os out))"

section \<open>What the server starts with\<close>

text \<open>Which image each slot was given on the command line.\<close>

definition slot_args :: "serve_args \<Rightarrow> u8 \<Rightarrow> str option" where
  "slot_args args slot =
    (if slot = 0 then disk0 args else if slot = 1 then disk1 args
     else if slot = 2 then disk2 args else if slot = 3 then disk3 args else None)"

lemma dsk_open_fs: "dsk_open p ro f = (r, f') \<Longrightarrow> f' = f"
  by (auto simp: dsk_open_def Let_def split: sum.splits option.splits)

lemma serve_mounts_wf:
  "serve_mounts ds (s, f) = (Inr (), s', f') \<Longrightarrow> server_wf s \<Longrightarrow> f' = f \<and> server_wf s'"
proof (induction ds arbitrary: s)
  case (Cons x ds)
  then show ?case
    by (cases x) (auto simp: server_wf_mount dest: dsk_open_fs split: option.splits prod.splits sum.splits)
qed simp

lemma serve_mounts_slot:
  assumes "serve_mounts ds (s, f) = (Inr (), s', f')" "distinct (map fst ds)"
  shows "case map_of ds k of
      Some (Some p) \<Rightarrow> \<exists>d. dsk_open p False f = (Inr d, f) \<and> drive_lookup k s' = Some d
    | _ \<Rightarrow> drive_lookup k s' = drive_lookup k s"
  using assms
proof (induction ds arbitrary: s)
  case (Cons x ds)
  obtain slot path where x: "x = (slot, path)" by (cases x)
  have new: "map_of ds slot = None" using Cons.prems(2) by (simp add: x map_of_eq_None_iff)
  show ?case
  proof (cases path)
    case None
    with Cons.IH [of s] Cons.prems new x show ?thesis by (cases "k = slot") auto
  next
    case (Some p)
    then obtain d where d: "dsk_open p False f = (Inr d, f)" "serve_mounts ds (mount slot d s, f) = (Inr (), s', f')"
      using Cons.prems(1) dsk_open_fs [of p False f] by (auto simp: x split: prod.splits sum.splits)
    with Cons.IH [OF d(2)] Cons.prems(2) new x Some show ?thesis
      by (cases "k = slot") (auto simp: drv.lookup_put cong: option.case_cong)
  qed
qed (simp split: option.split)

lemma serve_mounts_args:
  assumes "serve_mounts [(0, disk0 args), (1, disk1 args), (2, disk2 args), (3, disk3 args)] (server_new, f) =
    (Inr (), s, f')"
  shows "case slot_args args slot of
      None \<Rightarrow> drive_lookup slot s = None
    | Some p \<Rightarrow> \<exists>d. dsk_open p False f = (Inr d, f) \<and> drive_lookup slot s = Some d"
proof -
  have new: "drive_lookup slot server_new = None" by (simp add: drive_lookup_def server_new_def)
  show ?thesis
    using serve_mounts_slot [OF assms, of slot] new by (auto simp: slot_args_def split: option.splits if_splits)
qed

lemma accept_loop_sessions: "map Inr (snd (accept_loop as)) = takeWhile (\<lambda>a. \<not> isl a) as"
  by (induction as rule: accept_loop.induct) (auto simp: case_prod_beta' Let_def)

lemma accept_loop_result:
  "map_option Inl (fst (accept_loop as)) =
    (case dropWhile (\<lambda>a. \<not> isl a) as of Inl e # _ \<Rightarrow> Some (Inl (CliIo e)) | _ \<Rightarrow> None)"
  by (induction as rule: accept_loop.induct) (auto simp: case_prod_beta' Let_def)

text \<open>
  Starting a TCP server.  Unless a disk image did not open, each of the slots 0 to 3
  holds exactly the image given for it, opened for writing, a slot that was given none
  is empty, as are all other slots; the socket listeners are those that were not
  disabled; and if the address could be bound, every connection accepted before the
  first failure of accepting has its session, that failure being the only way to return.
\<close>

theorem serve_tcp_start:
  assumes "serial args = None" "tcp args = Some addr" "v = serve args out f"
    and "\<forall>e. sv_result v \<noteq> Some (Inl (CliDisk e))"
  shows "snd (sv_shared v) = f \<and> server_wf (fst (sv_shared v)) \<and>
    (\<forall>slot. case slot_args args slot of
        None \<Rightarrow> drive_lookup slot (fst (sv_shared v)) = None
      | Some p \<Rightarrow> \<exists>d. dsk_open p False f = (Inr d, f) \<and> drive_lookup slot (fst (sv_shared v)) = Some d) \<and>
    (AttachListener path \<in> set (sv_listeners v) \<longleftrightarrow> \<not> no_attach_socket args \<and> path = attach_socket args) \<and>
    (ControlListener path \<in> set (sv_listeners v) \<longleftrightarrow> \<not> no_control_socket args \<and> path = control_socket args) \<and>
    (o_bind out = None \<longrightarrow> map Inr (sv_sessions v) = takeWhile (\<lambda>a. \<not> isl a) (o_accepts out) \<and>
      sv_result v = (case dropWhile (\<lambda>a. \<not> isl a) (o_accepts out) of Inl e # _ \<Rightarrow> Some (Inl (CliIo e)) | _ \<Rightarrow> None))"
proof -
  let ?ds = "[(0 :: u8, disk0 args), (1, disk1 args), (2, disk2 args), (3, disk3 args)]"
  obtain r s f' where m: "serve_mounts ?ds (server_new, f) = (r, s, f')" by (metis surj_pair)
  have r: "r = Inr ()"
    using assms m by (cases r) (auto simp: serve_def serve_fails_def simp del: serve_mounts.simps)
  then have v: "v = serve_tcp args out (s, f')"
    using assms m by (simp add: serve_def del: serve_mounts.simps)
  have "snd (sv_shared v) = f" "server_wf (fst (sv_shared v))" "fst (sv_shared v) = s"
    using serve_mounts_wf [OF m [unfolded r]] v
    by (auto simp: serve_tcp_def case_prod_beta' Let_def split: option.split)
  moreover have "sv_listeners v = serve_listeners args"
    using v by (simp add: serve_tcp_def case_prod_beta' Let_def split: option.split)
  moreover have "map Inr (sv_sessions v) = takeWhile (\<lambda>a. \<not> isl a) (o_accepts out) \<and>
      sv_result v = (case dropWhile (\<lambda>a. \<not> isl a) (o_accepts out) of Inl e # _ \<Rightarrow> Some (Inl (CliIo e)) | _ \<Rightarrow> None)"
    if "o_bind out = None"
    using v that by (simp add: serve_tcp_def case_prod_beta' Let_def accept_loop_sessions accept_loop_result)
  ultimately show ?thesis
    using serve_mounts_args [OF m [unfolded r]] by (auto simp: serve_listeners_def)
qed

text \<open>The part of the line that the session gets to see: what arrives after draining.\<close>

definition session_input :: "serve_args \<Rightarrow> outside \<Rightarrow> bytes" where
  "session_input args out =
     (if drain_ms args > 0
      then concat (map snd (dropWhile (\<lambda>(at, _). at \<le> o_now out 0 + unat (drain_ms args)) (o_line out)))
      else concat (map snd (o_line out)))"

text \<open>
  The loop of \<open>drain_serial\<close> keeps up with the line, if there is one, and nothing arrives
  while its timer is late, if it ever is.
\<close>

definition keeps_up :: "serve_args \<Rightarrow> outside \<Rightarrow> bool" where
  "keeps_up args out \<longleftrightarrow> drain_ms args > 0 \<longrightarrow>
    (let deadline = o_now out 0 + unat (drain_ms args) in
     (\<forall>i. o_now out i < deadline) \<and>
     (\<forall>i. \<forall>x \<in> set (o_line out). fst x \<le> deadline \<or> deadline + o_late out i < fst x))"

definition new_port :: blocking_serial where
  "new_port = \<lparr>bs_rx = unbounded_channel, bs_tx = unbounded_channel, leftover = []\<rparr>"

lemma open_serial_port: "open_serial lc flt dev b os = (Inr p, os') \<Longrightarrow> p = new_port"
  by (auto simp: open_serial_def serial_open_def new_port_def os_acquire_def Let_def
      split: outcome.splits prod.splits if_splits option.splits sum.splits)

lemma drained_transport:
  assumes "c = \<lparr>tp_port = new_port, tp_future = o_line out, tp_end = o_line_end out\<rparr>"
    and "[] \<notin> snd ` set (o_line out)" "keeps_up args out"
    and "c' = (if drain_ms args > 0 then snd (drain_serial (o_now out) (o_late out) (unat (drain_ms args)) c) else c)"
  shows "port_transport c' = \<lparr>rx = session_input args out, rx_end = line_gone, tx = [], tx_fault = None\<rparr>"
proof (cases "drain_ms args > 0")
  case True
  let ?d = "o_now out 0 + unat (drain_ms args)"
  have inv: "tp_inv c" using assms(1,2) by (auto simp: tp_inv_def new_port_def unbounded_channel_def)
  obtain m where m: "drain_loop (o_now out) (o_late out) ?d 1 0 c = (m, c')"
    using assms(4) True by (auto simp: drain_serial_def intro: prod.collapse [symmetric])
  have "\<forall>i. o_now out i < ?d" and "\<forall>j. \<forall>x \<in> set (tp_future c). fst x \<le> ?d + o_late out j \<longrightarrow> fst x \<le> ?d"
    using assms(1,3) True by (simp_all add: keeps_up_def Let_def) (meson not_less)
  with drain_loop_result [OF inv m, of "\<lambda>at. at \<le> ?d"] have "stale ?d c' = []" "fresh ?d c' = fresh ?d c"
      and tx: "bs_tx (tp_port c') = bs_tx (tp_port c)"
    by (auto simp: stale_by)
  then have "tp_pending c' = session_input args out"
    using tp_pending_split [of c' ?d] assms(1) True by (simp add: session_input_def fresh_def)
  with tx assms(1) show ?thesis
    by (simp add: port_transport_def sc_abs_def sc_pending_def tp_pending_def tp_queued_def new_port_def unbounded_channel_def)
next
  case False
  with assms show ?thesis
    by (simp add: port_transport_def sc_abs_def sc_pending_def session_input_def new_port_def unbounded_channel_def)
qed

text \<open>
  C8: a serial session from start to end.  When the disks open and the port opens,
  stale bytes on the line are discarded by draining that keeps up (in the sense of
  \<open>keeps_up\<close>), and what the guest sends
  afterwards are the encodings of well-formed requests, then the program sends back
  over the line exactly the replies that the protocol prescribes for those requests to a
  server with the disks of the command line, leaves the state that it prescribes, and
  ends with the error \<open>Eof\<close> when the line does.
\<close>

theorem serve_serial_end_to_end:
  assumes "serial args = Some dev" "tcp args = None"
    and mounts: "serve_mounts [(0, disk0 args), (1, disk1 args), (2, disk2 args), (3, disk3 args)]
      (server_new, f) = (Inr (), s, f')"
    and opened: "open_serial (o_libc out) (o_faults out) dev (baud args) (o_os out) = (Inr p, os')"
    and "[] \<notin> snd ` set (o_line out)" "keeps_up args out"
    and "\<forall>r \<in> set rs. wf_request r" "session_input args out = concat (map encode rs)"
  shows "sv_result (serve args out f) = Some (Inl (CliServer Eof)) \<and>
    sv_sent (serve args out f) = fst (spec_run (o_clock out) 0 rs (abs_st s f)) \<and>
    abs_st (fst (sv_shared (serve args out f))) (snd (sv_shared (serve args out f))) =
      snd (spec_run (o_clock out) 0 rs (abs_st s f))"
proof -
  let ?c = "\<lparr>tp_port = new_port, tp_future = o_line out, tp_end = o_line_end out\<rparr>"
  let ?c' = "if drain_ms args > 0 then snd (drain_serial (o_now out) (o_late out) (unat (drain_ms args)) ?c) else ?c"
  let ?w = "\<lparr>srv = s, fs = f, tr = port_transport ?c'\<rparr>"
  have wf: "f' = f" "server_wf s" using serve_mounts_wf [OF mounts] by auto
  have t: "port_transport ?c' = \<lparr>rx = concat (map encode rs), rx_end = line_gone, tx = [], tx_fault = None\<rparr>"
    using drained_transport [OF refl assms(5,6) refl] assms(8) by simp
  obtain w' where w': "run (o_clock out) 0 ?w = run (o_clock out) (length rs) w'"
      "tr w' = (tr ?w)\<lparr>rx := [], tx := fst (spec_run (o_clock out) 0 rs (abs_st s f))\<rparr>"
      "abs_of w' = snd (spec_run (o_clock out) 0 rs (abs_st s f))"
    using run_requests [of rs ?w "[]" "o_clock out" 0] assms(7) wf(2) t by auto
  then have "run (o_clock out) 0 ?w = (Inl Eof, w')"
    using t by (simp add: run_end line_gone_def)
  moreover have "serve args out f = serve_serial args out dev (s, f)"
    using assms(1,2) mounts wf by (simp add: serve_def del: serve_mounts.simps)
  moreover have "p = new_port" by (rule open_serial_port [OF opened])
  ultimately show ?thesis
    using opened w' by (simp add: serve_serial_def set_low_latency_def)
qed

text \<open>An example: a line with two stale bytes, then \<open>DWINIT\<close> after draining.\<close>

definition demo_args :: serve_args where
  "demo_args = \<lparr>serial = Some (lit ''tty''), baud = 57600, tcp = None, disk0 = None, disk1 = None,
     disk2 = Some (lit ''a.dsk''), disk3 = None, no_low_latency = False, drain_ms = 250,
     attach_socket = lit ''a.sock'', no_attach_socket = False, control_socket = lit ''c.sock'',
     no_control_socket = True\<rparr>"

definition demo_outside :: outside where
  "demo_outside = \<lparr>o_libc = linux, o_faults = no_faults, o_os = one_terminal,
     o_line = [(10, [0x43, 0x1F]), (900, [0x5A]), (901, [0x42])], o_line_end = None, o_now = (\<lambda>_. 0), o_late = (\<lambda>_. 1),
     o_clock = (\<lambda>_. demo_clock), o_bind = None, o_accepts = [Inr (closing [0x49]), Inl line_gone],
     o_waits_from = 300, o_first = Some 5\<rparr>"

lemma demo_mounts:
  "serve_mounts [(0, None), (1, None), (2, Some (lit ''a.dsk'')), (3, None)] (server_new, demo_fs) =
    (Inr (), mount 2 demo_disk server_new, demo_fs)"
  using demo_open by simp

theorem serve_tcp_start_witness:
  "sv_sessions (serve (demo_args\<lparr>serial := None, tcp := Some (lit ''addr'')\<rparr>) demo_outside demo_fs) = [closing [0x49]] \<and>
   drive_lookup 2 (fst (sv_shared (serve (demo_args\<lparr>serial := None, tcp := Some (lit ''addr'')\<rparr>) demo_outside demo_fs))) =
     Some demo_disk"
proof -
  let ?args = "demo_args\<lparr>serial := None, tcp := Some (lit ''addr'')\<rparr>"
  let ?v = "serve ?args demo_outside demo_fs"
  have "sv_result ?v = Some (Inl (CliIo line_gone))"
    using demo_mounts by (simp add: serve_def demo_args_def demo_outside_def serve_tcp_def del: serve_mounts.simps)
  then have nd: "\<forall>e. sv_result ?v \<noteq> Some (Inl (CliDisk e))" by simp
  have a: "serial ?args = None" "tcp ?args = Some (lit ''addr'')" by (simp_all add: demo_args_def)
  have o: "o_bind demo_outside = None" "o_accepts demo_outside = [Inr (closing [0x49]), Inl line_gone]"
    by (simp_all add: demo_outside_def)
  note start = serve_tcp_start [OF a refl nd, of undefined]
  from start have "map Inr (sv_sessions ?v) = takeWhile (\<lambda>a. \<not> isl a) (o_accepts demo_outside)" using o(1) by blast
  then have "sv_sessions ?v = [closing [0x49]]" using o(2) by (simp add: map_eq_Cons_conv)
  moreover have slot: "slot_args ?args 2 = Some (lit ''a.dsk'')" by (simp add: slot_args_def demo_args_def)
  from start have "case slot_args ?args 2 of None \<Rightarrow> drive_lookup 2 (fst (sv_shared ?v)) = None
      | Some p \<Rightarrow> \<exists>d. dsk_open p False demo_fs = (Inr d, demo_fs) \<and> drive_lookup 2 (fst (sv_shared ?v)) = Some d"
    by blast
  then have "drive_lookup 2 (fst (sv_shared ?v)) = Some demo_disk" unfolding slot using demo_open by simp
  ultimately show ?thesis by blast
qed

theorem serve_serial_end_to_end_witness:
  "sv_sent (serve demo_args demo_outside demo_fs) = [0x04] \<and>
   sv_result (serve demo_args demo_outside demo_fs) = Some (Inl (CliServer Eof))"
proof -
  obtain x os' where o: "open_serial linux no_faults (lit ''tty'') 57600 one_terminal = (x, os')" by fastforce
  then obtain p where "x = Inr p"
    by (auto simp: open_serial_def serial_open_def os_acquire_def no_faults_def configure_termios_def linux_def Let_def)
  with o have opened: "open_serial (o_libc demo_outside) (o_faults demo_outside) (lit ''tty'') (baud demo_args)
      (o_os demo_outside) = (Inr p, os')"
    by (simp add: demo_outside_def demo_args_def)
  have "session_input demo_args demo_outside = concat (map encode [DwInitReq 0x42])"
    by (simp add: session_input_def demo_args_def demo_outside_def encode_def opcode_byte.simps)
  moreover have "keeps_up demo_args demo_outside" "[] \<notin> snd ` set (o_line demo_outside)"
    by (simp_all add: keeps_up_def demo_args_def demo_outside_def Let_def)
  ultimately show ?thesis
    using serve_serial_end_to_end [OF _ _ _ opened, of demo_fs "mount 2 demo_disk server_new" demo_fs "[DwInitReq 0x42]"]
      demo_mounts by (simp add: demo_args_def)
qed

text \<open>
  C37: the verdict of \<open>probe\<close>.  When bytes arrive, it succeeds exactly if the first one is
  the code of a named opcode.  For \<open>DWINIT\<close> it consumes the driver byte and answers as
  the server itself would; and although the server accepts the sixteen fast-write codes,
  \<open>probe\<close> reports them as foreign data.
\<close>

theorem probe_verdict:
  assumes "rx t = b # d # rest" "tx_fault t = None" "tr w = t\<lparr>rx := d # rest\<rparr>" "unat ch < 16"
  shows "fst (probe_guest False t) =
      (if \<exists>opc. b = opcode_byte opc then Inr () else Inl (Bail (lit ''non-DW data on the wire''))) \<and>
    (b = opcode_byte DwInit \<longrightarrow> tr (snd (dispatch c (from_byte b) w)) = snd (probe_guest False t) \<and>
       tx (snd (probe_guest False t)) = tx t @ [0x04]) \<and>
    (b = 0x80 + ch \<longrightarrow> from_byte b = FastWrite ch \<and> fst (probe_guest False t) \<noteq> Inr ())"
proof -
  have dw: "opcode_byte DwInit = 0x5A" by (simp add: opcode_byte.simps)
  have named: "(\<exists>opc. b = opcode_byte opc) \<longleftrightarrow> (\<exists>opc. opcode_try_from b = Inr opc)"
    by (metis opcode_try_from_Inr opcode_try_from_byte)
  have fst: "fst (probe_guest False t) =
      (if \<exists>opc. b = opcode_byte opc then Inr () else Inl (Bail (lit ''non-DW data on the wire'')))"
  proof (cases "b = 0x5A")
    case True
    with dw have "\<exists>opc. b = opcode_byte opc" by metis
    with True assms show ?thesis by (simp add: probe_guest_def t_read_exact_def t_write_all_def)
  next
    case False
    with assms show ?thesis
      unfolding named by (auto simp: probe_guest_def t_read_exact_def split: sum.splits)
  qed
  moreover have "tr (snd (dispatch c (from_byte b) w)) = snd (probe_guest False t) \<and>
      tx (snd (probe_guest False t)) = tx t @ [0x04]" if "b = opcode_byte DwInit"
    using that assms
    by (simp add: dispatch_def handle_dwinit_def DWINIT_RESPONSE_def exec_defs probe_guest_def) (simp add: dw)
  moreover have "\<nexists>opc. b = opcode_byte opc" if "b = 0x80 + ch"
    using that assms(4) from_byte_fast [of ch] by (metis decoded.distinct(1) from_byte_opcode_byte)
  ultimately show ?thesis using assms(4) by auto
qed

theorem probe_verdict_witness:
  "fst (probe_guest False (closing [0x5A, 0x42])) = Inr () \<and> tx (snd (probe_guest False (closing [0x5A, 0x42]))) = [0x04]"
proof -
  have dw: "opcode_byte DwInit = 0x5A" by (simp add: opcode_byte.simps)
  then have "\<exists>opc. (0x5A :: u8) = opcode_byte opc" by metis
  with probe_verdict [of "closing [0x5A, 0x42]" "0x5A" "0x42" "[]" "demo_world [0x42]" 0 demo_clock] dw
  show ?thesis by (simp add: demo_world_def closing_def)
qed

end
