(* ===== verification/Listeners.thy ===== *)
theory Listeners
  imports Serve Attach
begin

text \<open>
  The Unix-domain sockets of the daemon (\<open>run_attach_listener\<close>, \<open>run_control_listener\<close>)
  and the TCP helpers of the transport crate.  The name space of the sockets is part of
  the kernel: a path leads to nothing, to the socket of a listener or to another file;
  removing, binding and connecting behave as documented for Unix.
\<close>

section \<open>Names of sockets\<close>

datatype sock_entry = SocketOf nat | PlainFile | Directory

text \<open>
  Listeners are numbered in the order of their binding.  \<open>k_refuse\<close> are the paths at which
  the kernel lets the process neither remove nor create anything.
\<close>

record sockets =
  k_entries :: "(str \<times> sock_entry) list"
  k_live :: "nat list"
  k_next :: nat
  k_refuse :: "str \<Rightarrow> io_error option"

definition addr_in_use :: io_error where
  "addr_in_use = \<lparr>kind = OtherKind 98, message = lit ''Address already in use (os error 98)''\<rparr>"

definition refused :: io_error where
  "refused = \<lparr>kind = OtherKind 111, message = lit ''Connection refused (os error 111)''\<rparr>"

definition no_entry :: io_error where
  "no_entry = \<lparr>kind = NotFound, message = lit ''No such file or directory (os error 2)''\<rparr>"

definition is_dir :: io_error where
  "is_dir = \<lparr>kind = OtherKind 21, message = lit ''Is a directory (os error 21)''\<rparr>"

definition remove_file :: "str \<Rightarrow> (sockets, io_error, unit) sx" where
  "remove_file p u =
    (case k_refuse u p of
       Some e \<Rightarrow> (Inl e, u)
     | None \<Rightarrow>
         (case map_of (k_entries u) p of
            None \<Rightarrow> (Inl no_entry, u)
          | Some Directory \<Rightarrow> (Inl is_dir, u)
          | Some _ \<Rightarrow> (Inr (), u\<lparr>k_entries := AList.delete p (k_entries u)\<rparr>)))"

definition unix_bind :: "str \<Rightarrow> (sockets, io_error, nat) sx" where
  "unix_bind p u =
    (case k_refuse u p of
       Some e \<Rightarrow> (Inl e, u)
     | None \<Rightarrow>
         (case map_of (k_entries u) p of
            Some _ \<Rightarrow> (Inl addr_in_use, u)
          | None \<Rightarrow> (Inr (k_next u), u\<lparr>k_entries := (p, SocketOf (k_next u)) # k_entries u,
              k_live := k_next u # k_live u, k_next := Suc (k_next u)\<rparr>)))"

text \<open>Which listener a client reaches.\<close>

definition unix_connect :: "str \<Rightarrow> sockets \<Rightarrow> io_error + nat" where
  "unix_connect p u =
    (case map_of (k_entries u) p of
       None \<Rightarrow> Inl no_entry
     | Some (SocketOf l) \<Rightarrow> if l \<in> set (k_live u) then Inr l else Inl refused
     | Some _ \<Rightarrow> Inl refused)"

definition close_listener :: "nat \<Rightarrow> sockets \<Rightarrow> sockets" where
  "close_listener l u = u\<lparr>k_live := removeAll l (k_live u)\<rparr>"

section \<open>The listeners\<close>

text \<open>The result of removing is ignored; the result of binding is not.\<close>

definition start_listener :: "str \<Rightarrow> (sockets, io_error, nat) sx" where
  "start_listener p u = (case remove_file p u of (_, u') \<Rightarrow> unix_bind p u')"

text \<open>The connections up to the first failure of \<open>accept\<close>, which ends the listener.\<close>

fun accept_streams :: "(io_error + transport) list \<Rightarrow> io_error option \<times> transport list" where
  "accept_streams [] = (None, [])"
| "accept_streams (Inl e # _) = (Some e, [])"
| "accept_streams (Inr stream # rest) = (let (r, ss) = accept_streams rest in (r, stream # ss))"

definition run_listener :: "str \<Rightarrow> (io_error + transport) list \<Rightarrow> sockets \<Rightarrow> io_error option \<times> transport list \<times> sockets" where
  "run_listener p accepts u =
    (case start_listener p u of
       (Inl e, u') \<Rightarrow> (Some e, [], u')
     | (Inr l, u') \<Rightarrow>
         (case accept_streams accepts of
            (Some e, ss) \<Rightarrow> (Some e, ss, close_listener l u')
          | (None, ss) \<Rightarrow> (None, ss, u')))"

text \<open>The task of a connection: the channel is its first byte, the rest is the pipe.\<close>

definition attach_task :: "transport \<Rightarrow> (u8 \<times> transport) option" where
  "attach_task stream =
    (case t_read_exact 1 stream of
       (Inl _, _) \<Rightarrow> None
     | (Inr ch_byte, stream') \<Rightarrow> Some (ch_byte ! 0, stream'))"

definition run_attach_listener ::
  "str \<Rightarrow> (io_error + transport) list \<Rightarrow> sockets \<Rightarrow> io_error option \<times> (u8 \<times> transport) option list \<times> sockets" where
  "run_attach_listener p accepts u =
    (case run_listener p accepts u of (r, ss, u') \<Rightarrow> (r, map attach_task ss, u'))"

text \<open>The task of a control connection is a session on the shared server.\<close>

definition run_control_listener ::
  "(uchar \<Rightarrow> bool) \<Rightarrow> str \<Rightarrow> (io_error + transport) list \<Rightarrow> sockets \<Rightarrow>
    io_error option \<times> (shared \<Rightarrow> (io_error + unit) \<times> shared \<times> transport) list \<times> sockets" where
  "run_control_listener up p accepts u =
    (case run_listener p accepts u of (r, ss, u') \<Rightarrow> (r, map (\<lambda>stream sf. handle_control up (sf, stream)) ss, u'))"

section \<open>Well-formed name spaces\<close>

text \<open>Every listener is bound at one path at most, and the numbers to come are new.\<close>

definition sockets_wf :: "sockets \<Rightarrow> bool" where
  "sockets_wf u \<longleftrightarrow> (\<forall>l \<in> set (k_live u). l < k_next u) \<and>
     (\<forall>p l. (p, SocketOf l) \<in> set (k_entries u) \<longrightarrow> l < k_next u) \<and>
     (\<forall>p q l. (p, SocketOf l) \<in> set (k_entries u) \<longrightarrow> (q, SocketOf l) \<in> set (k_entries u) \<longrightarrow> p = q)"

text \<open>What a started listener leaves.\<close>

definition rebound :: "str \<Rightarrow> sockets \<Rightarrow> sockets" where
  "rebound p u = u\<lparr>k_entries := (p, SocketOf (k_next u)) # AList.delete p (k_entries u),
     k_live := k_next u # k_live u, k_next := Suc (k_next u)\<rparr>"

lemma start_listener_cases:
  "start_listener p u =
    (case k_refuse u p of
       Some e \<Rightarrow> (Inl e, u)
     | None \<Rightarrow> if map_of (k_entries u) p = Some Directory then (Inl addr_in_use, u) else (Inr (k_next u), rebound p u))"
proof (cases "map_of (k_entries u) p")
  case None
  then have "AList.delete p (k_entries u) = k_entries u" by (simp add: delete_id map_of_eq_None_iff)
  with None show ?thesis by (simp add: start_listener_def remove_file_def unix_bind_def rebound_def split: option.split)
next
  case (Some e)
  then show ?thesis
    by (cases e) (simp_all add: start_listener_def remove_file_def unix_bind_def rebound_def delete_conv' split: option.split)
qed

lemma sockets_wf_rebound:
  assumes "sockets_wf u"
  shows "sockets_wf (rebound p u)"
proof -
  have "set (AList.delete p (k_entries u)) \<subseteq> set (k_entries u)" by (auto simp: AList.delete_eq)
  with assms show ?thesis unfolding sockets_wf_def rebound_def by (fastforce simp: less_Suc_eq)
qed

lemma connect_rebound:
  assumes "sockets_wf u"
  shows "unix_connect p (rebound p u) = Inr (k_next u)" "q \<noteq> p \<Longrightarrow> unix_connect q (rebound p u) = unix_connect q u"
proof -
  show "unix_connect p (rebound p u) = Inr (k_next u)" by (simp add: unix_connect_def rebound_def)
  assume q: "q \<noteq> p"
  show "unix_connect q (rebound p u) = unix_connect q u"
  proof (cases "map_of (k_entries u) q")
    case (Some e)
    have "l < k_next u" if "e = SocketOf l" for l
      using assms map_of_SomeD [OF Some] that by (auto simp: sockets_wf_def)
    with q Some show ?thesis by (cases e) (auto simp: unix_connect_def rebound_def delete_conv')
  qed (use q in \<open>simp add: unix_connect_def rebound_def delete_conv'\<close>)
qed

lemma connect_socket: "unix_connect p u = Inr l \<longleftrightarrow> map_of (k_entries u) p = Some (SocketOf l) \<and> l \<in> set (k_live u)"
  by (auto simp: unix_connect_def split: option.splits sock_entry.splits)

lemma accept_streams_all: "\<forall>a \<in> set as. \<not> isl a \<Longrightarrow> accept_streams as = (None, map projr as)"
  by (induction as rule: accept_streams.induct) auto

text \<open>
  C38: a listener can be reached.  Unless the kernel refuses the path or it is a directory,
  in which case the listener returns at once with the error and nothing has changed, it
  replaces whatever was at its path; from then on clients of that path reach it and no
  other listener, clients of all other paths reach what they reached before, and every
  accepted connection has a task that serves the channel named by its first byte.
\<close>

theorem attach_listener_reachable:
  assumes "sockets_wf u" "\<forall>a \<in> set accepts. \<not> isl a" "run_attach_listener p accepts u = (r, tasks, u')"
  shows "if k_refuse u p \<noteq> None \<or> map_of (k_entries u) p = Some Directory
    then r \<noteq> None \<and> tasks = [] \<and> u' = u
    else r = None \<and> unix_connect p u' = Inr (k_next u) \<and>
      (\<forall>q. q \<noteq> p \<longrightarrow> unix_connect q u' = unix_connect q u) \<and>
      tasks = map (\<lambda>a. case rx (projr a) of [] \<Rightarrow> None | ch # bs \<Rightarrow> Some (ch, (projr a)\<lparr>rx := bs\<rparr>)) accepts"
proof -
  have task: "attach_task t = (case rx t of [] \<Rightarrow> None | ch # bs \<Rightarrow> Some (ch, t\<lparr>rx := bs\<rparr>))" for t
    by (simp add: attach_task_def t_read_exact_def split: list.split)
  note run = run_attach_listener_def run_listener_def start_listener_cases accept_streams_all [OF assms(2)]
  show ?thesis
  proof (cases "k_refuse u p")
    case None
    with assms(3) show ?thesis
      by (auto simp: run task connect_rebound [OF assms(1)] split: if_splits)
  next
    case (Some e)
    with assms(3) have "r = Some e \<and> tasks = [] \<and> u' = u" by (auto simp: run)
    with Some show ?thesis by simp
  qed
qed

text \<open>
  A second daemon takes the sockets of the first.  Starting a listener removes the
  socket at its path even when a living listener is bound there: the new one starts
  without an error, the old one goes on and can be reached by no path any more.
\<close>

theorem second_daemon_takes_socket:
  assumes "sockets_wf u" "unix_connect p u = Inr l" "k_refuse u p = None"
  shows "\<exists>l' u'. start_listener p u = (Inr l', u') \<and> unix_connect p u' = Inr l' \<and> l' \<noteq> l \<and>
    l \<in> set (k_live u') \<and> (\<forall>q. unix_connect q u' \<noteq> Inr l)"
proof (intro exI conjI allI)
  have e: "map_of (k_entries u) p = Some (SocketOf l)" "l \<in> set (k_live u)"
    using assms(2) by (simp_all add: connect_socket)
  have new: "l < k_next u" using assms(1) e(2) by (simp add: sockets_wf_def)
  show "start_listener p u = (Inr (k_next u), rebound p u)" using e assms(3) by (simp add: start_listener_cases)
  show "unix_connect p (rebound p u) = Inr (k_next u)" by (rule connect_rebound [OF assms(1)])
  show "k_next u \<noteq> l" using new by simp
  show "l \<in> set (k_live (rebound p u))" using e(2) by (simp add: rebound_def)
  show "unix_connect q (rebound p u) \<noteq> Inr l" for q
  proof (cases "q = p")
    case False
    then have "unix_connect q (rebound p u) = unix_connect q u" by (rule connect_rebound [OF assms(1)])
    moreover have "map_of (k_entries u) q \<noteq> Some (SocketOf l)"
      using assms(1) map_of_SomeD [OF e(1)] map_of_SomeD [of "k_entries u" q] False
      unfolding sockets_wf_def by blast
    ultimately show ?thesis by (simp add: connect_socket)
  qed (use connect_rebound(1) [OF assms(1)] new in simp)
qed

text \<open>Witnesses: one daemon on the default path of its attach socket.\<close>

definition demo_path :: str where
  "demo_path = lit ''/tmp/drivewire.sock''"

definition no_sockets :: sockets where
  "no_sockets = \<lparr>k_entries = [], k_live = [], k_next = 0, k_refuse = (\<lambda>_. None)\<rparr>"

theorem attach_listener_reachable_witness:
  "\<exists>u. run_attach_listener demo_path [Inr (closing [1, 65]), Inr (closing [])] no_sockets =
      (None, [Some (1, closing [65]), None], u) \<and> unix_connect demo_path u = Inr 0"
proof -
  obtain r ts u where run: "run_attach_listener demo_path [Inr (closing [1, 65]), Inr (closing [])] no_sockets = (r, ts, u)"
    by (metis prod_cases3)
  have "sockets_wf no_sockets" by (simp add: sockets_wf_def no_sockets_def)
  from attach_listener_reachable [OF this _ run] run show ?thesis
    by (simp add: no_sockets_def closing_def)
qed

theorem second_daemon_takes_socket_witness:
  "\<exists>l' u'. start_listener demo_path (rebound demo_path no_sockets) = (Inr l', u') \<and> l' \<noteq> 0 \<and>
     0 \<in> set (k_live u') \<and> (\<forall>q. unix_connect q u' \<noteq> Inr 0)"
proof -
  have w: "sockets_wf no_sockets" by (simp add: sockets_wf_def no_sockets_def)
  have "unix_connect demo_path (rebound demo_path no_sockets) = Inr 0"
    using connect_rebound(1) [OF w] by (simp add: no_sockets_def)
  from second_daemon_takes_socket [OF sockets_wf_rebound [OF w] this] show ?thesis
    by (auto simp: rebound_def no_sockets_def)
qed

end
