(* ===== verification/Echo_Guest.thy ===== *)
theory Echo_Guest
  imports Vserial
begin

text \<open>
  The synthetic guest of the example \<open>echo-guest\<close>, run against the server.  The guest
  writes whole requests, so the session it talks to has always handled everything
  written before the guest reads: \<open>guest_write\<close> runs the session loop over the bytes
  written, and the replies wait until \<open>guest_read\<close> takes them.  A read for which there are
  not enough bytes blocks, which is the value \<open>None\<close>.  Connecting, messages and the
  pause of an idle guest are left out.
\<close>

section \<open>The guest program\<close>

record link =
  l_shared :: shared
  l_replies :: bytes

definition guest_write :: "(nat \<Rightarrow> clock) \<Rightarrow> bytes \<Rightarrow> link \<Rightarrow> link" where
  "guest_write clk bs k =
    (case run clk 0 \<lparr>srv = fst (l_shared k), fs = snd (l_shared k), tr = closing bs\<rparr> of
       (_, w) \<Rightarrow> \<lparr>l_shared = (srv w, fs w), l_replies = l_replies k @ tx (tr w)\<rparr>)"

definition guest_read :: "nat \<Rightarrow> link \<Rightarrow> (bytes \<times> link) option" where
  "guest_read n k =
    (if n \<le> length (l_replies k) then Some (take n (l_replies k), k\<lparr>l_replies := drop n (l_replies k)\<rparr>) else None)"

definition OP_DWINIT :: u8 where "OP_DWINIT = 0x5A"

definition OP_SERREAD :: u8 where "OP_SERREAD = 0x43"

definition OP_SERREADM :: u8 where "OP_SERREADM = 0x63"

definition OP_FASTWRITE_BASE :: u8 where "OP_FASTWRITE_BASE = 0x80"

definition echo_frame :: "u8 \<Rightarrow> bytes \<Rightarrow> bytes" where
  "echo_frame channel bs = (let opc = OP_FASTWRITE_BASE + channel in concat (map (\<lambda>b. [opc, b]) bs))"

definition echo_back :: "(nat \<Rightarrow> clock) \<Rightarrow> u8 \<Rightarrow> bytes \<Rightarrow> link \<Rightarrow> link" where
  "echo_back clk channel bs k = guest_write clk (echo_frame channel bs) k"

text \<open>One turn of the main loop.\<close>

definition echo_step :: "(nat \<Rightarrow> clock) \<Rightarrow> link \<Rightarrow> link option" where
  "echo_step clk k =
    (case guest_read 2 (guest_write clk [OP_SERREAD] k) of
       None \<Rightarrow> None
     | Some (resp, k1) \<Rightarrow>
         (let code = resp ! 0 in
          if code = 0x00 then Some k1
          else if 0x01 \<le> code \<and> code \<le> 0x0F then
            (let channel = code - 0x01; byte = resp ! 1 in Some (echo_back clk channel [byte] k1))
          else if code = 0x10 then Some k1
          else if 0x11 \<le> code \<and> code \<le> 0x1F then
            (let channel = code - 0x11; cnt = resp ! 1 in
             case guest_read (unat cnt) (guest_write clk [OP_SERREADM, channel, cnt] k1) of
               None \<Rightarrow> None
             | Some (buf, k2) \<Rightarrow> Some (echo_back clk channel buf k2))
          else Some k1))"

fun echo_turns :: "(nat \<Rightarrow> clock) \<Rightarrow> nat \<Rightarrow> link \<Rightarrow> link option" where
  "echo_turns clk 0 k = Some k"
| "echo_turns clk (Suc n) k = (case echo_step clk k of None \<Rightarrow> None | Some k' \<Rightarrow> echo_turns clk n k')"

text \<open>The program up to its \<open>n\<close>-th turn.\<close>

definition echo_guest :: "(nat \<Rightarrow> clock) \<Rightarrow> nat \<Rightarrow> link \<Rightarrow> link option" where
  "echo_guest clk n k =
    (case guest_read 1 (guest_write clk [OP_DWINIT, 0x42] k) of
       None \<Rightarrow> None
     | Some (srv_caps, k1) \<Rightarrow> echo_turns clk n k1)"

section \<open>Requests and replies\<close>

abbreviation abs_link :: "link \<Rightarrow> astate" where
  "abs_link k \<equiv> abs_st (fst (l_shared k)) (snd (l_shared k))"

lemma guest_write_requests:
  assumes "\<forall>r \<in> set rs. wf_request r" "server_wf (fst (l_shared k))" "bs = concat (map encode rs)"
    and "guest_write clk bs k = k'"
  shows "l_replies k' = l_replies k @ fst (spec_run clk 0 rs (abs_link k)) \<and>
    abs_link k' = snd (spec_run clk 0 rs (abs_link k)) \<and> server_wf (fst (l_shared k'))"
proof -
  let ?w = "\<lparr>srv = fst (l_shared k), fs = snd (l_shared k), tr = closing bs\<rparr>"
  obtain w' where w': "run clk 0 ?w = run clk (length rs) w'"
      "tr w' = (closing bs)\<lparr>rx := [], tx := fst (spec_run clk 0 rs (abs_link k))\<rparr>"
      "abs_of w' = snd (spec_run clk 0 rs (abs_link k))" "server_wf (srv w')"
    using run_requests [of rs ?w "[]" clk 0] assms by (auto simp: closing_def)
  then have "run clk 0 ?w = (Inl Eof, w')"
    by (simp add: run_end closing_def early_eof_def)
  with w'(2-) assms(4) show ?thesis by (auto simp: guest_write_def)
qed

lemma spec_run_fast:
  assumes "ch \<in> set channels"
  shows "fst (spec_run clk n (map (FastWriteReq ch) bs) a) = [] \<and>
    a_inbox (snd (spec_run clk n (map (FastWriteReq ch) bs) a)) = (a_inbox a)(ch := a_inbox a ch @ bs) \<and>
    a_outbox (snd (spec_run clk n (map (FastWriteReq ch) bs) a)) = a_outbox a"
proof (induction bs arbitrary: n a)
  case (Cons b bs)
  define a1 where "a1 = a_notify ch (a_receive ch [b] a)"
  then have "a_inbox a1 = (a_inbox a)(ch := a_inbox a ch @ [b])" "a_outbox a1 = a_outbox a"
    using assms by (simp_all add: a_receive_def)
  moreover have "spec_step (clk n) (FastWriteReq ch b) a = ([], a1)" by (simp add: a1_def)
  ultimately show ?case using Cons.IH [of "Suc n" a1]
    by (simp add: case_prod_beta' Let_def fun_eq_iff del: spec_step.simps)
qed simp

text \<open>What one turn does to the queues: the guest has taken \<open>bs\<close> from \<open>ch\<close> and echoes it.\<close>

lemma echo_back_queues:
  assumes "server_wf (fst (l_shared k))" "unat ch < 16" "l_replies k = []" "echo_back clk ch bs k = k'"
  shows "l_replies k' = [] \<and> server_wf (fst (l_shared k')) \<and>
    a_inbox (abs_link k') = (a_inbox (abs_link k))(ch := a_inbox (abs_link k) ch @ bs) \<and>
    a_outbox (abs_link k') = a_outbox (abs_link k)"
proof -
  have ch: "ch \<in> set channels" using assms(2) by (simp add: set_channels VSERIAL_CHANNELS_def)
  have frame: "echo_frame ch bs = concat (map encode (map (FastWriteReq ch) bs))"
    by (simp add: echo_frame_def encode_def OP_FASTWRITE_BASE_def comp_def)
  have "\<forall>r \<in> set (map (FastWriteReq ch) bs). wf_request r" using assms(2) by auto
  from guest_write_requests [OF this assms(1) frame assms(4) [unfolded echo_back_def]]
    spec_run_fast [OF ch, of clk 0 bs "abs_link k"] assms(3) show ?thesis by simp
qed

definition waiting :: "link \<Rightarrow> nat" where
  "waiting k = sum_list (map (\<lambda>ch. length (a_outbox (abs_link k) ch)) channels)"

definition echo_inv :: "link \<Rightarrow> bool" where
  "echo_inv k \<longleftrightarrow> server_wf (fst (l_shared k)) \<and> l_replies k = [] \<and> a_outbox (abs_link k) 15 = []"

definition same_total :: "link \<Rightarrow> link \<Rightarrow> bool" where
  "same_total k k' \<longleftrightarrow> (\<forall>ch \<in> set channels.
     a_inbox (abs_link k') ch @ a_outbox (abs_link k') ch = a_inbox (abs_link k) ch @ a_outbox (abs_link k) ch)"

lemma sum_shorter_queue:
  assumes "ch \<in> set cs" "length q < length (g ch)" "distinct cs"
  shows "sum_list (map (\<lambda>c. length ((g(ch := q)) c)) cs) < sum_list (map (\<lambda>c. length (g c)) cs)"
proof -
  obtain xs ys where split: "cs = xs @ ch # ys" using assms(1) by (meson split_list)
  with assms(3) have "ch \<notin> set xs" "ch \<notin> set ys" by auto
  then have "map (\<lambda>c. length ((g(ch := q)) c)) xs = map (\<lambda>c. length (g c)) xs"
      "map (\<lambda>c. length ((g(ch := q)) c)) ys = map (\<lambda>c. length (g c)) ys"
    by auto
  then show ?thesis unfolding split using assms(2) by (simp only: map_append sum_list.append list.map sum_list.Cons fun_upd_same)
qed

lemma waiting_channel:
  assumes "ch \<in> set channels" "a_outbox (abs_link k') = (a_outbox (abs_link k))(ch := q)"
    and "length q < length (a_outbox (abs_link k) ch)"
  shows "waiting k' < waiting k"
proof -
  have "distinct channels" by (simp add: channels_def upt_rec)
  from sum_shorter_queue [of ch channels q "a_outbox (abs_link k)", OF assms(1,3) this]
  show ?thesis unfolding waiting_def assms(2) .
qed

text \<open>A turn in which the guest took \<open>bs\<close> from the front of the queue of \<open>ch\<close>.\<close>

lemma echo_taken:
  assumes "echo_inv k" "unat ch < 15" "server_wf (fst (l_shared k1))" "l_replies k1 = []"
    and "a_inbox (abs_link k1) = a_inbox (abs_link k)"
    and "a_outbox (abs_link k1) = (a_outbox (abs_link k))(ch := q)"
    and "a_outbox (abs_link k) ch = bs @ q" "bs \<noteq> []"
  shows "let k' = echo_back clk ch bs k1 in echo_inv k' \<and> same_total k k' \<and> waiting k' < waiting k"
proof -
  define k' where "k' = echo_back clk ch bs k1"
  have "ch \<in> set channels" using assms(2) by (simp add: set_channels VSERIAL_CHANNELS_def)
  have "unat (15 :: u8) = 15" by simp
  then have "ch \<noteq> 15" using assms(2) by auto
  have "unat ch < 16" using assms(2) by simp
  from echo_back_queues [OF assms(3) this assms(4) k'_def [symmetric]]
  have q: "l_replies k' = []" "server_wf (fst (l_shared k'))"
    "a_inbox (abs_link k') = (a_inbox (abs_link k))(ch := a_inbox (abs_link k) ch @ bs)"
    "a_outbox (abs_link k') = (a_outbox (abs_link k))(ch := q)"
    using assms(5,6) by simp_all
  have "echo_inv k'" using q assms(1) \<open>ch \<noteq> 15\<close> by (simp add: echo_inv_def)
  moreover have "same_total k k'" using q(3,4) assms(7) by (simp add: same_total_def)
  moreover have "waiting k' < waiting k"
    using waiting_channel [OF \<open>ch \<in> set channels\<close> q(4)] assms(7,8) by simp
  ultimately show ?thesis by (simp add: k'_def)
qed

lemma channel_codes:
  assumes "unat (ch :: u8) < 15"
  shows "1 + ch \<noteq> 0 \<and> 1 \<le> 1 + ch \<and> 1 + ch \<le> 0x0F" "1 + ch - 1 = ch"
    "17 + ch \<noteq> 0 \<and> \<not> (17 + ch \<le> 0x0F) \<and> 17 + ch \<noteq> 16 \<and> 17 \<le> 17 + ch \<and> 17 + ch \<le> 0x1F" "17 + ch - 17 = ch"
proof -
  have u: "unat (1 + ch) = 1 + unat ch" "unat (17 + ch) = 17 + unat ch"
    using assms by (simp_all add: unat_word_ariths)
  then have "1 + ch \<noteq> 0" "17 + ch \<noteq> 0" by (metis unat_0 add_eq_0_iff_both_eq_0 zero_neq_numeral zero_neq_one)+
  moreover have "17 + ch \<noteq> 16"
  proof
    assume "17 + ch = 16"
    then have "unat (17 + ch) = unat (16 :: u8)" by (rule arg_cong)
    with u(2) show False by simp
  qed
  ultimately show "1 + ch \<noteq> 0 \<and> 1 \<le> 1 + ch \<and> 1 + ch \<le> 0x0F"
    "17 + ch \<noteq> 0 \<and> \<not> (17 + ch \<le> 0x0F) \<and> 17 + ch \<noteq> 16 \<and> 17 \<le> 17 + ch \<and> 17 + ch \<le> 0x1F"
    using u assms by (simp_all add: word_le_nat_alt)
qed simp_all

lemma poll_written:
  assumes "server_wf (fst (l_shared k))" "l_replies k = []" "k1 = guest_write clk [OP_SERREAD] k"
  shows "l_replies k1 = fst (a_poll (abs_link k)) \<and> abs_link k1 = snd (a_poll (abs_link k)) \<and>
    server_wf (fst (l_shared k1))"
  using guest_write_requests [of "[Bare SerRead]" k "[OP_SERREAD]" clk k1] assms
  by (simp add: bare_opcodes_def encode_def OP_SERREAD_def opcode_byte.simps case_prod_beta' Let_def)

lemma fetch_written:
  assumes "server_wf (fst (l_shared k))" "l_replies k = []" "k1 = guest_write clk [OP_SERREADM, ch, n] k"
  shows "l_replies k1 = fst (a_fetch ch (unat n) (abs_link k)) \<and> abs_link k1 = snd (a_fetch ch (unat n) (abs_link k)) \<and>
    server_wf (fst (l_shared k1))"
  using guest_write_requests [of "[SerReadMReq ch n]" k "[OP_SERREADM, ch, n]" clk k1] assms
  by (simp add: encode_def OP_SERREADM_def opcode_byte.simps case_prod_beta' Let_def)

lemma echo_step_progress:
  assumes "echo_inv k"
  shows "\<exists>k'. echo_step clk k = Some k' \<and> echo_inv k' \<and> same_total k k' \<and>
    (waiting k' < waiting k \<or> waiting k' = 0)"
proof -
  define k1 where "k1 = guest_write clk [OP_SERREAD] k"
  have inv: "server_wf (fst (l_shared k))" "l_replies k = []" "a_outbox (abs_link k) 15 = []"
    using assms by (simp_all add: echo_inv_def)
  note p = poll_written [OF inv(1,2) k1_def]
  show ?thesis
  proof (cases "find (\<lambda>ch. a_outbox (abs_link k) ch \<noteq> []) channels")
    case None
    then have "waiting k = 0" by (auto simp: waiting_def find_None_iff sum_list_eq_0_iff)
    from None p have r: "l_replies k1 = [0, 0]" "abs_link k1 = abs_link k" by (simp_all add: a_poll_def)
    let ?k = "k1\<lparr>l_replies := []\<rparr>"
    have "echo_step clk k = Some ?k"
      using r(1) by (simp add: echo_step_def guest_read_def k1_def [symmetric])
    moreover have "echo_inv ?k" "same_total k ?k" "waiting ?k = 0"
      using p inv r(2) \<open>waiting k = 0\<close> by (simp_all add: echo_inv_def same_total_def waiting_def)
    ultimately show ?thesis by blast
  next
    case (Some ch)
    let ?q = "a_outbox (abs_link k) ch"
    from first_channel [OF Some] have ch: "unat ch < 16" "?q \<noteq> []" by auto
    have "unat ch \<noteq> 15"
    proof
      assume "unat ch = 15"
      then have "ch = 15" by (simp add: word_unat_eq_iff)
      with ch(2) inv(3) show False by simp
    qed
    with ch(1) have ch15: "unat ch < 15" by simp
    note code = channel_codes [OF ch15]
    show ?thesis
    proof (cases "length ?q < 3")
      case True
      with p Some have r: "l_replies k1 = [1 + ch, hd ?q]"
          "a_outbox (abs_link k1) = (a_outbox (abs_link k))(ch := tl ?q)" "a_inbox (abs_link k1) = a_inbox (abs_link k)"
        by (simp_all add: a_poll_def Let_def)
      let ?k = "k1\<lparr>l_replies := []\<rparr>"
      have "echo_step clk k = Some (echo_back clk ch [hd ?q] ?k)"
        using r(1) code by (simp add: echo_step_def guest_read_def k1_def [symmetric] Let_def)
      moreover have "?q = [hd ?q] @ tl ?q" using ch(2) by simp
      ultimately show ?thesis
        using echo_taken [OF assms ch15, of ?k "tl ?q" "[hd ?q]" clk] p r by (simp add: Let_def)
    next
      case False
      define n :: u8 where "n = word_of_nat (min 255 (length ?q))"
      have un: "unat n = min 255 (length ?q)" by (simp add: n_def unsigned_of_nat take_bit_eq_mod)
      from p Some False have r: "l_replies k1 = [17 + ch, n]" "abs_link k1 = abs_link k"
        by (simp_all add: a_poll_def Let_def n_def)
      let ?k = "k1\<lparr>l_replies := []\<rparr>"
      define k2 where "k2 = guest_write clk [OP_SERREADM, ch, n] ?k"
      have f: "l_replies k2 = take (unat n) ?q" "a_outbox (abs_link k2) = (a_outbox (abs_link k))(ch := drop (unat n) ?q)"
          "a_inbox (abs_link k2) = a_inbox (abs_link k)" "server_wf (fst (l_shared k2))"
        using fetch_written [of ?k k2 clk ch n] p r(2) un by (simp_all add: k2_def a_fetch_def Let_def)
      have "echo_step clk k = Some (echo_back clk ch (take (unat n) ?q) (k2\<lparr>l_replies := []\<rparr>))"
        using r(1) code f(1) un by (simp add: echo_step_def guest_read_def k1_def [symmetric] k2_def [symmetric] Let_def)
      moreover have "?q = take (unat n) ?q @ drop (unat n) ?q" "take (unat n) ?q \<noteq> []"
        using ch(2) un by simp_all
      ultimately show ?thesis
        using echo_taken [OF assms ch15, of "k2\<lparr>l_replies := []\<rparr>" "drop (unat n) ?q" "take (unat n) ?q" clk] f
        by (simp add: Let_def)
    qed
  qed
qed

lemma same_total_trans: "same_total k k' \<Longrightarrow> same_total k' k'' \<Longrightarrow> same_total k k''"
  by (simp add: same_total_def)

lemma echo_turns_total:
  "echo_inv k \<Longrightarrow> waiting k \<le> n \<Longrightarrow>
    \<exists>k'. echo_turns clk n k = Some k' \<and> echo_inv k' \<and> same_total k k' \<and> waiting k' = 0"
proof (induction n arbitrary: k)
  case (Suc n)
  obtain k' where k': "echo_step clk k = Some k'" "echo_inv k'" "same_total k k'"
      "waiting k' < waiting k \<or> waiting k' = 0"
    using echo_step_progress [OF Suc.prems(1)] by blast
  with Suc.prems(2) have "waiting k' \<le> n" by auto
  from Suc.IH [OF k'(2) this] k' same_total_trans show ?case by fastforce
qed (auto simp: same_total_def)

lemma echo_guest_total:
  assumes "server_wf s" "outbox_of 15 s = []" "sum_list (map (\<lambda>ch. length (outbox_of ch s)) channels) \<le> n"
  shows "\<exists>k'. echo_guest clk n \<lparr>l_shared = (s, f), l_replies = []\<rparr> = Some k' \<and> l_replies k' = [] \<and>
    server_wf (fst (l_shared k')) \<and>
    (\<forall>ch. valid_channel ch \<longrightarrow> outbox_of ch (fst (l_shared k')) = [] \<and>
      inbox_of ch (fst (l_shared k')) = inbox_of ch s @ outbox_of ch s)"
proof -
  let ?k = "\<lparr>l_shared = (s, f), l_replies = []\<rparr>"
  define k1 where "k1 = guest_write clk [OP_DWINIT, 0x42] ?k"
  have "l_replies k1 = [4] \<and> abs_link k1 = abs_link ?k \<and> server_wf (fst (l_shared k1))"
    using guest_write_requests [of "[DwInitReq 0x42]" ?k "[OP_DWINIT, 0x42]" clk k1] assms(1)
    by (simp add: k1_def encode_def OP_DWINIT_def opcode_byte.simps)
  then have k1: "l_replies k1 = [4]" "abs_link k1 = abs_link ?k" "server_wf (fst (l_shared k1))" by auto
  let ?k1 = "k1\<lparr>l_replies := []\<rparr>"
  have guest: "echo_guest clk n ?k = echo_turns clk n ?k1"
    using k1(1) by (simp add: echo_guest_def guest_read_def k1_def [symmetric])
  have "echo_inv ?k1" "waiting ?k1 \<le> n"
    using k1 assms by (simp_all add: echo_inv_def waiting_def)
  then obtain k' where k': "echo_turns clk n ?k1 = Some k'" "echo_inv k'" "same_total ?k1 k'" "waiting k' = 0"
    using echo_turns_total by blast
  have "outbox_of ch (fst (l_shared k')) = [] \<and> inbox_of ch (fst (l_shared k')) = inbox_of ch s @ outbox_of ch s"
    if "valid_channel ch" for ch
  proof -
    have ch: "ch \<in> set channels" using that by (simp add: set_channels)
    have o: "a_outbox (abs_link k') ch = []" using k'(4) ch by (auto simp: waiting_def sum_list_eq_0_iff)
    from k'(3) ch have "a_inbox (abs_link k') ch @ a_outbox (abs_link k') ch =
        a_inbox (abs_link ?k1) ch @ a_outbox (abs_link ?k1) ch"
      unfolding same_total_def by blast
    also have "abs_link ?k1 = abs_link ?k" using k1(2) by simp
    finally show ?thesis using o by simp
  qed
  with k' guest show ?thesis by (auto simp: echo_inv_def)
qed

text \<open>
  C17: the echo guest echoes.  Whatever the host has queued on the channels 0 to 14, the
  guest never blocks in a read, and after at most as many turns as there are bytes
  queued every byte has come back: on every channel the outbox is empty and the inbox has
  grown by exactly the bytes that were queued, in their order.  (Channel 15 is outside the
  range of the guest: the code of its single bytes means to it that a channel closes.)
\<close>

theorem echo_guest_echoes:
  assumes "server_wf s" "outbox_of 15 s = []" "sum_list (map (\<lambda>ch. length (outbox_of ch s)) channels) \<le> n"
  shows "\<exists>k'. echo_guest clk n \<lparr>l_shared = (s, f), l_replies = []\<rparr> = Some k' \<and> l_replies k' = [] \<and>
    server_wf (fst (l_shared k')) \<and>
    (\<forall>ch. valid_channel ch \<longrightarrow> outbox_of ch (fst (l_shared k')) = [] \<and>
      inbox_of ch (fst (l_shared k')) = inbox_of ch s @ outbox_of ch s)"
  using assms by (rule echo_guest_total)

theorem echo_guest_echoes_witness:
  "\<exists>k'. echo_guest (\<lambda>_. demo_clock) 4 \<lparr>l_shared = (send_to_vserial 2 [65, 66, 67, 68] server_new, demo_fs), l_replies = []\<rparr> = Some k' \<and>
    inbox_of 2 (fst (l_shared k')) = [65, 66, 67, 68]"
proof -
  let ?s = "send_to_vserial 2 [65, 66, 67, 68] server_new"
  have q: "outbox_of ch ?s = (if ch = 2 then [65, 66, 67, 68] else [])" "inbox_of ch ?s = []" for ch
    by (auto simp: queue_simps VSERIAL_CHANNELS_def)
  have "server_wf ?s" by (simp add: wf_intros)
  from echo_guest_echoes [OF this, of 4 "\<lambda>_. demo_clock" demo_fs] show ?thesis
    by (auto simp: q channels_def upt_rec VSERIAL_CHANNELS_def dest!: spec [of _ 2])
qed

end
