(* ===== verification/Attach_Command.thy ===== *)
theory Attach_Command
  imports Terminal Listeners Echo_Guest
begin

text \<open>
  The command \<open>dw attach\<close> and the way of a keystroke through the whole system: terminal,
  attach client, socket listener, attached connection, guest, and back to the screen.
\<close>

section \<open>The command\<close>

record attach_args =
  at_channel :: u8
  at_socket :: str
  at_raw :: bool

text \<open>
  What the command finds outside: the result of connecting, of switching the terminal to
  raw mode and back, and the reads of its two tasks in the order in which they complete.
  A read of nothing is the end of the stream or an error, which the tasks do not
  distinguish.
\<close>

datatype attach_read = StdinRead bytes | SockRead bytes

record attach_env =
  e_connect :: "io_error + transport"
  e_enable :: "io_error option"
  e_disable :: "io_error option"
  e_reads :: "attach_read list"
  e_stdout :: transport

text \<open>
  What it leaves: the socket, if there was one, with what was sent over it, standard
  output, and the mode of the terminal.
\<close>

record attached =
  x_sock :: "transport option"
  x_stdout :: transport
  x_raw_mode :: bool

text \<open>The guard \<open>RawMode\<close>: a failing switch leaves the mode as it is.\<close>

definition enable_raw_mode :: "io_error option \<Rightarrow> (bool, io_error, unit) sx" where
  "enable_raw_mode fails raw = (case fails of Some e \<Rightarrow> (Inl e, raw) | None \<Rightarrow> (Inr (), True))"

definition drop_raw_mode :: "io_error option \<Rightarrow> bool \<Rightarrow> bool" where
  "drop_raw_mode fails raw = (case fails of Some e \<Rightarrow> raw | None \<Rightarrow> False)"

text \<open>
  The two tasks side by side, each with the bit it carries from read to read.  A turn is
  one read and the write that follows it, which no turn of the other task disturbs, since
  each task has its own ends.  The flag says whether the task has ended.
\<close>

record attach_tasks =
  k_armed :: bool
  k_had_cr :: bool
  k_sock :: transport
  k_stdout :: transport

fun attach_turn :: "bool \<Rightarrow> attach_read \<Rightarrow> attach_tasks \<Rightarrow> bool \<times> attach_tasks" where
  "attach_turn translate (StdinRead buf) k =
    (if buf = [] then (True, k)
     else
       (case stdin_turn buf (k_armed k) (k_sock k) of
          (ended, armed', t') \<Rightarrow> (case ended of Some _ \<Rightarrow> True | None \<Rightarrow> False, k\<lparr>k_armed := armed', k_sock := t'\<rparr>)))"
| "attach_turn translate (SockRead buf) k =
    (if buf = [] then (True, k)
     else
       (case sock_turn translate buf (k_had_cr k) (k_stdout k) of
          (ended, had_cr', t') \<Rightarrow> (ended, k\<lparr>k_had_cr := had_cr', k_stdout := t'\<rparr>)))"

text \<open>
  \<open>tokio::select!\<close>: over as soon as one task has ended; later reads are not looked at.  (The
  other task is not stopped, only abandoned; what it might still do before the process
  exits is left out.)
\<close>

fun attach_select :: "bool \<Rightarrow> attach_read list \<Rightarrow> attach_tasks \<Rightarrow> bool \<times> attach_tasks" where
  "attach_select translate [] k = (False, k)"
| "attach_select translate (r # rs) k =
    (case attach_turn translate r k of
       (True, k') \<Rightarrow> (True, k')
     | (False, k') \<Rightarrow> attach_select translate rs k')"

text \<open>The whole command; its result is \<open>None\<close> while both tasks wait for more to read.\<close>

definition attach :: "attach_args \<Rightarrow> attach_env \<Rightarrow> bool \<Rightarrow> (cli_error + unit) option \<times> attached" where
  "attach args env raw =
    (case e_connect env of
       Inl e \<Rightarrow> (Some (Inl (CliIo e)), \<lparr>x_sock = None, x_stdout = e_stdout env, x_raw_mode = raw\<rparr>)
     | Inr stream \<Rightarrow>
         (case t_write_all [at_channel args] stream of
            (Inl e, stream') \<Rightarrow>
              (Some (Inl (CliIo e)), \<lparr>x_sock = Some stream', x_stdout = e_stdout env, x_raw_mode = raw\<rparr>)
          | (Inr _, stream') \<Rightarrow>
              (case enable_raw_mode (e_enable env) raw of
                 (Inl e, raw') \<Rightarrow>
                   (Some (Inl (CliIo e)), \<lparr>x_sock = Some stream', x_stdout = e_stdout env, x_raw_mode = raw'\<rparr>)
               | (Inr _, raw') \<Rightarrow>
                   (case attach_select (\<not> at_raw args) (e_reads env)
                       \<lparr>k_armed = False, k_had_cr = False, k_sock = stream', k_stdout = e_stdout env\<rparr> of
                      (ended, k) \<Rightarrow>
                        (if ended then Some (Inr ()) else None,
                         \<lparr>x_sock = Some (k_sock k), x_stdout = k_stdout k,
                          x_raw_mode = if ended then drop_raw_mode (e_disable env) raw' else raw'\<rparr>)))))"

text \<open>What a schedule lets each task read, and the two tasks of a schedule run on their own.\<close>

fun stdin_reads :: "attach_read list \<Rightarrow> bytes list" where
  "stdin_reads [] = []"
| "stdin_reads (StdinRead buf # rs) = buf # stdin_reads rs"
| "stdin_reads (SockRead buf # rs) = stdin_reads rs"

fun sock_reads :: "attach_read list \<Rightarrow> bytes list" where
  "sock_reads [] = []"
| "sock_reads (SockRead buf # rs) = buf # sock_reads rs"
| "sock_reads (StdinRead buf # rs) = sock_reads rs"

lemma escape_filter_append:
  assumes "escape_filter (Some armed) (xs @ ys) = (out, Some a)"
  obtains o1 a1 o2 where "escape_filter (Some armed) xs = (o1, Some a1)" "escape_filter (Some a1) ys = (o2, Some a)"
    "out = o1 @ o2"
proof -
  obtain o1 st where x: "escape_filter (Some armed) xs = (o1, st)" by fastforce
  obtain o2 st' where y: "escape_filter st ys = (o2, st')" by fastforce
  from assms x y have "out = o1 @ o2" "st' = Some a" by (simp_all add: esc.f_append)
  moreover from y this(2) obtain a1 where "st = Some a1" by (cases st) (auto simp: escape_left)
  ultimately show thesis using that x y by blast
qed

lemma select_both:
  assumes "tx_fault (k_sock k) = None" "tx_fault (k_stdout k) = None" "[] \<notin> set (stdin_reads rs) \<union> set (sock_reads rs)"
    and "escape_filter (Some (k_armed k)) (concat (stdin_reads rs)) = (out, Some a)"
    and "normalize_line_endings (k_had_cr k) (concat (sock_reads rs)) = (shown, h)"
  shows "attach_select True (rs @ later) k = attach_select True later
    \<lparr>k_armed = a, k_had_cr = h, k_sock = (k_sock k)\<lparr>tx := tx (k_sock k) @ out\<rparr>,
     k_stdout = (k_stdout k)\<lparr>tx := tx (k_stdout k) @ shown\<rparr>\<rparr>"
  using assms
proof (induction rs arbitrary: k out shown)
  case Nil
  then show ?case by (cases k) (auto simp: esc.f_Nil)
next
  case (Cons r rs)
  show ?case
  proof (cases r)
    case (StdinRead buf)
    with Cons.prems(4) obtain o1 a1 o2 where o: "escape_filter (Some (k_armed k)) buf = (o1, Some a1)"
        "escape_filter (Some a1) (concat (stdin_reads rs)) = (o2, Some a)" "out = o1 @ o2"
      by (auto elim: escape_filter_append)
    let ?k = "k\<lparr>k_armed := a1, k_sock := (k_sock k)\<lparr>tx := tx (k_sock k) @ o1\<rparr>\<rparr>"
    have "attach_turn True r k = (False, ?k)"
      using stdin_turn_filter [OF Cons.prems(1) o(1)] Cons.prems(3) StdinRead by auto
    moreover have "attach_select True (rs @ later) ?k = attach_select True later
      \<lparr>k_armed = a, k_had_cr = h, k_sock = (k_sock ?k)\<lparr>tx := tx (k_sock ?k) @ o2\<rparr>,
       k_stdout = (k_stdout ?k)\<lparr>tx := tx (k_stdout ?k) @ shown\<rparr>\<rparr>"
      by (rule Cons.IH) (use Cons.prems o StdinRead in auto)
    ultimately show ?thesis by (simp add: o(3))
  next
    case (SockRead buf)
    obtain p1 h1 where p: "normalize_line_endings (k_had_cr k) buf = (p1, h1)" by fastforce
    obtain p2 h2 where p2: "normalize_line_endings h1 (concat (sock_reads rs)) = (p2, h2)" by fastforce
    from Cons.prems(5) SockRead p p2 have sh: "shown = p1 @ p2" "h2 = h" by (simp_all add: crlf.f_append)
    let ?k = "k\<lparr>k_had_cr := h1, k_stdout := (k_stdout k)\<lparr>tx := tx (k_stdout k) @ p1\<rparr>\<rparr>"
    have "attach_turn True r k = (False, ?k)"
      using Cons.prems(2,3) SockRead p by (auto simp: sock_turn_def t_write_all_def)
    moreover have "attach_select True (rs @ later) ?k = attach_select True later
      \<lparr>k_armed = a, k_had_cr = h, k_sock = (k_sock ?k)\<lparr>tx := tx (k_sock ?k) @ out\<rparr>,
       k_stdout = (k_stdout ?k)\<lparr>tx := tx (k_stdout ?k) @ p2\<rparr>\<rparr>"
      by (rule Cons.IH) (use Cons.prems p2 sh SockRead in auto)
    ultimately show ?thesis by (simp add: sh)
  qed
qed

section \<open>The client's bytes reach the outbox\<close>

fun inbound_run :: "nat list \<Rightarrow> conn \<times> server \<Rightarrow> conn \<times> server" where
  "inbound_run [] cs = cs"
| "inbound_run (k # ks) (c, s) =
    (case inbound_step k c s of None \<Rightarrow> (c, s) | Some cs' \<Rightarrow> inbound_run ks cs')"

lemma inbound_read:
  assumes "c_inbound c = InRead" "c_in c \<noteq> []"
  shows "inbound_run (k1 # k2 # ks) (c, s) = inbound_run ks
    (c\<lparr>c_in := drop (max 1 (min k1 1024)) (c_in c), c_inbound := InRead\<rparr>,
     send_to_vserial (c_channel c) (take (max 1 (min k1 1024)) (c_in c)) s)"
  using assms by (simp add: inbound_step_def Let_def)

text \<open>
  However the reads are cut, two steps per byte are enough for the inbound task to put
  everything the client has sent into the outbox of its channel and wait for more.
\<close>

lemma inbound_delivers:
  assumes "c_inbound c = InRead" "c_in_end c = Pending" "server_wf s" "valid_channel (c_channel c)"
    and "2 * length (c_in c) \<le> length ks" "inbound_run ks (c, s) = (c', s')"
  shows "c' = c\<lparr>c_in := []\<rparr> \<and> server_wf s' \<and>
    outbox_of ch s' = outbox_of ch s @ (if ch = c_channel c then c_in c else []) \<and>
    inbox_of ch s' = inbox_of ch s"
  using assms
proof (induction "length (c_in c)" arbitrary: c s ks rule: less_induct)
  case less
  show ?case
  proof (cases "c_in c = []")
    case True
    with less.prems show ?thesis by (cases ks) (auto simp: inbound_step_def)
  next
    case False
    then obtain k1 k2 rest where ks: "ks = k1 # k2 # rest"
      using False less.prems(5) by (cases "c_in c"; cases ks; cases "tl ks") auto
    define n where "n = max 1 (min k1 1024)"
    let ?c = "c\<lparr>c_in := drop n (c_in c), c_inbound := InRead\<rparr>" and ?s = "send_to_vserial (c_channel c) (take n (c_in c)) s"
    have n: "0 < n" by (simp add: n_def)
    have run: "inbound_run rest (?c, ?s) = (c', s')"
      using inbound_read [OF less.prems(1) False] less.prems(6) by (simp add: ks n_def)
    have "length (c_in ?c) < length (c_in c)" "2 * length (c_in ?c) \<le> length rest"
      using n False less.prems(5) by (auto simp: ks)
    from less.hyps [OF this(1) _ _ _ _ this(2) run] less.prems show ?thesis
      by (auto simp: queue_simps wf_intros)
  qed
qed

section \<open>From the keyboard to the screen\<close>

text \<open>However the command ends, the terminal is left in the mode in which it was found.\<close>

lemma attach_mode:
  assumes "attach args env False = (Some r, x)" "e_disable env = None"
  shows "\<not> x_raw_mode x \<and> (r \<noteq> Inr () \<longrightarrow> x_stdout x = e_stdout env)"
  using assms
  by (auto simp: attach_def enable_raw_mode_def drop_raw_mode_def
      split: sum.splits prod.splits option.splits if_splits)

text \<open>A connection on which nothing fails, and a terminal that can be switched.\<close>

definition attach_ok :: "attach_env \<Rightarrow> bool" where
  "attach_ok env \<longleftrightarrow> e_enable env = None \<and> e_disable env = None \<and> tx_fault (e_stdout env) = None \<and>
     (case e_connect env of Inl e \<Rightarrow> False | Inr t \<Rightarrow> tx t = [] \<and> tx_fault t = None)"

lemma escape_keys: "q = 0x71 \<or> q = 0x51 \<Longrightarrow> escape_filter (Some False) [CTRL_A, q] = ([], None)"
  by (auto simp: escape_filter_def process_input_byte_def CTRL_A_def)

lemma attach_typed:
  assumes "attach_ok env" "\<not> at_raw args" "e_reads env = es @ StdinRead [CTRL_A, q] # rest" "q = 0x71 \<or> q = 0x51"
    and "[] \<notin> set (stdin_reads es) \<union> set (sock_reads es)" "concat (stdin_reads es) = typed bs"
  shows "\<exists>x t. attach args env False = (Some (Inr ()), x) \<and> \<not> x_raw_mode x \<and> x_sock x = Some t \<and>
    tx t = at_channel args # bs \<and>
    tx (x_stdout x) = tx (e_stdout env) @ fst (normalize_line_endings False (concat (sock_reads es)))"
proof -
  obtain t where t: "e_connect env = Inr t" "tx t = []" "tx_fault t = None" "e_enable env = None" "e_disable env = None"
    using assms(1) by (auto simp: attach_ok_def split: sum.splits)
  obtain shown h where n: "normalize_line_endings False (concat (sock_reads es)) = (shown, h)" by fastforce
  let ?k = "\<lparr>k_armed = False, k_had_cr = False, k_sock = t\<lparr>tx := [at_channel args]\<rparr>, k_stdout = e_stdout env\<rparr>"
  let ?k' = "\<lparr>k_armed = False, k_had_cr = h, k_sock = t\<lparr>tx := [at_channel args] @ bs\<rparr>,
    k_stdout = (e_stdout env)\<lparr>tx := tx (e_stdout env) @ shown\<rparr>\<rparr>"
  have "escape_filter (Some False) (concat (stdin_reads es)) = (bs, Some False)"
    using escape_typed [of bs "[]"] by (simp add: assms(6) esc.f_Nil)
  then have "attach_select True (e_reads env) ?k = attach_select True (StdinRead [CTRL_A, q] # rest) ?k'"
    using select_both [of ?k es bs False shown h "StdinRead [CTRL_A, q] # rest"] assms(1,3,5) t(3) n
    by (simp add: attach_ok_def del: attach_select.simps)
  moreover obtain a where "stdin_turn [CTRL_A, q] False (k_sock ?k') = (Some True, a, k_sock ?k')"
    using stdin_turn_filter [OF _ escape_keys [OF assms(4)], of "k_sock ?k'"] t(3) by auto
  ultimately show ?thesis using t assms(2) n
    by (auto simp: attach_def t_write_all_def enable_raw_mode_def drop_raw_mode_def)
qed

lemma attach_task_sent: "attach_task (closing (ch # bs)) = Some (ch, closing bs)"
  by (simp add: attach_task_def t_read_exact_def closing_def)

text \<open>The queues of a server on which nothing is under way.\<close>

definition drained :: "server \<Rightarrow> bool" where
  "drained s \<longleftrightarrow> server_wf s \<and> (\<forall>ch. valid_channel ch \<longrightarrow> outbox_of ch s = [] \<and> inbox_of ch s = [])"

lemma distinct_channels: "distinct channels"
  by (simp add: channels_def upt_rec)

lemma waiting_bytes:
  assumes "\<And>c. valid_channel c \<Longrightarrow> outbox_of c s = (if c = ch then bs else [])" "valid_channel ch"
  shows "sum_list (map (\<lambda>c. length (outbox_of c s)) channels) = length bs"
proof -
  have "(\<Sum>c\<leftarrow>channels. length (outbox_of c s)) = (\<Sum>c\<leftarrow>channels. if c = ch then length bs else 0)"
    using assms(1) by (intro arg_cong [where f = sum_list] map_cong) (auto simp: set_channels)
  also have "\<dots> = sum (\<lambda>c. if c = ch then length bs else 0) (set channels)"
    by (simp add: sum_list_distinct_conv_sum_set distinct_channels)
  also have "\<dots> = length bs" using assms(2) by (simp add: set_channels)
  finally show ?thesis .
qed

text \<open>The outbound task on its own neither loses, repeats nor reorders anything.\<close>

lemma outbound_run_conserves:
  assumes "outbound_run n i (c, s) = (c', s')" "server_wf s" "c_room c = None"
  shows "c_out c' @ out_flight (c_outbound c') @ inbox_of (c_channel c) s' =
      c_out c @ out_flight (c_outbound c) @ inbox_of (c_channel c) s \<and>
    (out_flight (c_outbound c) @ inbox_of (c_channel c) s = [] \<longrightarrow>
       out_flight (c_outbound c') @ inbox_of (c_channel c) s' = [])"
  using assms
proof (induction n arbitrary: c s)
  case (Suc n)
  show ?case
  proof (cases "outbound_step i c s")
    case None
    with Suc.prems show ?thesis by auto
  next
    case (Some cs1)
    obtain c1 s1 where cs1: "cs1 = (c1, s1)" by (cases cs1)
    have room: "c_room c1 = None"
      using Some Suc.prems(3) unfolding cs1
      by (cases rule: outbound_cases) (auto simp: client_write_def)
    note laws = outbound_laws [OF Some [unfolded cs1] Suc.prems(2)]
    have keep: "c_out c1 @ out_flight (c_outbound c1) @ inbox_of (c_channel c) s1 =
        c_out c @ out_flight (c_outbound c) @ inbox_of (c_channel c) s" "server_wf s1" "c_channel c1 = c_channel c"
      using laws room by blast+
    have "out_flight (c_outbound c1) @ inbox_of (c_channel c) s1 = []"
      if "out_flight (c_outbound c) @ inbox_of (c_channel c) s = []"
      using Some that Suc.prems(2) unfolding cs1
      by (cases rule: outbound_cases) (auto simp: queue_simps client_write_def split: option.splits)
    with keep Suc.IH [of c1 s1] Suc.prems(1) Some cs1 room show ?thesis by simp
  qed
qed auto

lemma outbound_run_add: "outbound_run (n + m) i cs = outbound_run m i (outbound_run n i cs)"
proof (induction n arbitrary: cs)
  case (Suc n)
  obtain c s where "cs = (c, s)" by (cases cs)
  moreover have "outbound_step i c s = None \<Longrightarrow> outbound_run m i (c, s) = (c, s)" by (cases m) simp_all
  ultimately show ?case using Suc by (auto split: option.split)
qed simp

text \<open>Two steps are enough for the outbound task to write out everything; more change nothing.\<close>

lemma two_steps_deliver:
  assumes "c_outbound c = OutDrain" "c_room c = None" "server_wf s" "2 \<le> n"
  shows "c_out (fst (outbound_run n i (c, s))) = c_out c @ inbox_of (c_channel c) s"
proof -
  let ?o = "c_out c @ inbox_of (c_channel c) s"
  obtain c2 s2 where two: "outbound_run 2 i (c, s) = (c2, s2)" by fastforce
  have "out_flight (c_outbound c2) @ inbox_of (c_channel c) s2 = [] \<and> server_wf s2 \<and> c_room c2 = None \<and> c_channel c2 = c_channel c"
  proof (cases "inbox_of (c_channel c) s = []")
    case True
    have "outbound_step i c s = Some (c\<lparr>c_outbound := OutWait\<rparr>, snd (drain_vserial (c_channel c) s))"
      using True assms(1) by (simp add: outbound_step_def case_prod_beta' Let_def queue_simps)
    then have "outbound_run 2 i (c, s) = outbound_run 1 i (c\<lparr>c_outbound := OutWait\<rparr>, snd (drain_vserial (c_channel c) s))"
      by (simp add: numeral_2_eq_2)
    with two assms show ?thesis
      by (auto simp: outbound_step_def case_prod_beta' queue_simps wf_intros)
  next
    case False
    then have "outbound_run 2 i (c, s) = (c\<lparr>c_out := ?o, c_outbound := OutDrain\<rparr>, snd (drain_vserial (c_channel c) s))"
      using assms(1,2) by (simp add: numeral_2_eq_2 outbound_step_def case_prod_beta' Let_def queue_simps client_write_def)
    with two assms show ?thesis by (auto simp: queue_simps wf_intros)
  qed
  moreover have "c_out c2 @ out_flight (c_outbound c2) @ inbox_of (c_channel c) s2 = ?o"
    using outbound_run_conserves [OF two assms(3,2)] assms(1) by simp
  ultimately have c2: "c_out c2 = ?o" "out_flight (c_outbound c2) @ inbox_of (c_channel c2) s2 = []" "server_wf s2"
      "c_room c2 = None" by simp_all
  obtain c' s' where r: "outbound_run (n - 2) i (c2, s2) = (c', s')" by fastforce
  from outbound_run_conserves [OF r c2(3,4)] c2 have "c_out c' = ?o" by auto
  moreover have "outbound_run n i (c, s) = (c', s')"
    using outbound_run_add [of 2 "n - 2" i "(c, s)"] two r assms(4)
    by (simp only: le_add_diff_inverse prod.case)
  ultimately show ?thesis by simp
qed

text \<open>
  C5: what is typed comes back to the screen.  A user attached to one of the channels 0 to
  14 types text, every Ctrl-A doubled, reads the answer, and leaves with Ctrl-A \<open>q\<close>; the
  keystrokes and the answer come in reads cut and interleaved in any way.  The attach
  client sends the channel and exactly that text; the listener's task serves that channel
  and finds the text on the connection; the inbound task, however its reads are cut, puts
  it into the outbox; the echo guest answers; the outbound task, run for two or more
  steps, has written exactly the typed text back to the client; and the screen shows that
  text with its line ends as CR LF (that of a final CR is held back).  The command ends
  without an error and the terminal is back in its old mode.
\<close>

theorem typing_is_echoed:
  assumes "attach_ok env" "\<not> at_raw args" "unat (at_channel args) < 15"
    and "e_reads env = es @ StdinRead [CTRL_A, q] # rest" "q = 0x71 \<or> q = 0x51"
    and "[] \<notin> set (stdin_reads es) \<union> set (sock_reads es)"
    and "concat (stdin_reads es) = typed bs" "concat (sock_reads es) = bs"
    and "drained s" "2 * length bs \<le> length ks" "length bs \<le> n" "2 \<le> m"
    and "inbound_run ks ((attach_new (at_channel args))\<lparr>c_in := bs\<rparr>, s) = (c1, s1)"
  shows "\<exists>x t k. attach args env False = (Some (Inr ()), x) \<and> \<not> x_raw_mode x \<and> x_sock x = Some t \<and>
    attach_task (closing (tx t)) = Some (at_channel args, closing bs) \<and>
    echo_guest clk n \<lparr>l_shared = (s1, f), l_replies = []\<rparr> = Some k \<and>
    c_out (fst (outbound_run m i (c1, fst (l_shared k)))) = bs \<and>
    tx (x_stdout x) @ pending_line_end bs = tx (e_stdout env) @ crlf_text bs"
proof -
  let ?ch = "at_channel args"
  let ?c = "(attach_new ?ch)\<lparr>c_in := bs\<rparr>"
  have valid: "valid_channel ?ch" using assms(3) by (simp add: VSERIAL_CHANNELS_def)
  obtain x t where x: "attach args env False = (Some (Inr ()), x)" "\<not> x_raw_mode x" "x_sock x = Some t" "tx t = ?ch # bs"
      "tx (x_stdout x) = tx (e_stdout env) @ fst (normalize_line_endings False bs)"
    using attach_typed [OF assms(1,2,4-7)] assms(8) by blast
  have s1: "c1 = ?c\<lparr>c_in := []\<rparr>" "server_wf s1"
      "valid_channel c \<Longrightarrow> outbox_of c s1 = (if c = ?ch then bs else [])" "valid_channel c \<Longrightarrow> inbox_of c s1 = []" for c
    using inbound_delivers [OF _ _ _ _ _ assms(13), of c] assms(9,10) valid by (auto simp: attach_new_def drained_def)
  have "outbox_of 15 s1 = []" using s1(3) [of 15] assms(3) by (auto simp: VSERIAL_CHANNELS_def)
  moreover have "sum_list (map (\<lambda>ch. length (outbox_of ch s1)) channels) \<le> n"
    using waiting_bytes [OF s1(3) valid] assms(11) by simp
  ultimately obtain k where k: "echo_guest clk n \<lparr>l_shared = (s1, f), l_replies = []\<rparr> = Some k"
      "server_wf (fst (l_shared k))" "inbox_of ?ch (fst (l_shared k)) = bs"
    using echo_guest_total [OF s1(2)] s1(3,4) valid by fastforce
  have "c_outbound c1 = OutDrain" "c_room c1 = None" "c_channel c1 = ?ch" "c_out c1 = []"
    using s1(1) by (simp_all add: attach_new_def)
  with two_steps_deliver [of c1 "fst (l_shared k)" m i] k(2,3) assms(12)
  have "c_out (fst (outbound_run m i (c1, fst (l_shared k)))) = bs" by simp
  moreover have "tx (x_stdout x) @ pending_line_end bs = tx (e_stdout env) @ crlf_text bs"
    using normalize_pending [of bs] x(5) by simp
  ultimately show ?thesis using x(1-4) k(1) attach_task_sent by metis
qed

text \<open>Typing \<open>hi\<close> and return on channel 3; the answer arrives in two reads.\<close>

definition demo_reads :: "attach_read list" where
  "demo_reads = [StdinRead [0x68], SockRead [0x68], StdinRead [0x69, 0x0D], SockRead [0x69, 0x0D]]"

definition demo_env :: attach_env where
  "demo_env = \<lparr>e_connect = Inr (closing []), e_enable = None, e_disable = None,
     e_reads = demo_reads @ [StdinRead [0x01, 0x71], SockRead [0x21]], e_stdout = closing []\<rparr>"

definition demo_attach :: attach_args where
  "demo_attach = \<lparr>at_channel = 3, at_socket = demo_path, at_raw = False\<rparr>"

theorem typing_is_echoed_witness:
  "\<exists>x t k. attach demo_attach demo_env False = (Some (Inr ()), x) \<and> x_sock x = Some t \<and>
     attach_task (closing (tx t)) = Some (3, closing [0x68, 0x69, 0x0D]) \<and> tx (x_stdout x) = [0x68, 0x69] \<and>
     (case inbound_run [1, 1, 1, 1, 1, 1] ((attach_new 3)\<lparr>c_in := [0x68, 0x69, 0x0D]\<rparr>, server_new) of
        (c1, s1) \<Rightarrow> echo_guest (\<lambda>_. demo_clock) 3 \<lparr>l_shared = (s1, demo_fs), l_replies = []\<rparr> = Some k \<and>
          c_out (fst (outbound_run 2 0 (c1, fst (l_shared k)))) = [0x68, 0x69, 0x0D])"
proof -
  have env: "attach_ok demo_env" "e_reads demo_env = demo_reads @ StdinRead [CTRL_A, 0x71] # [SockRead [0x21]]"
    "[] \<notin> set (stdin_reads demo_reads) \<union> set (sock_reads demo_reads)"
    "concat (stdin_reads demo_reads) = typed [0x68, 0x69, 0x0D]" "concat (sock_reads demo_reads) = [0x68, 0x69, 0x0D]"
    by (simp_all add: attach_ok_def demo_env_def demo_reads_def closing_def typed_def CTRL_A_def)
  have dr: "drained server_new" by (simp add: drained_def queue_simps)
  obtain c1 s1 where i: "inbound_run [1, 1, 1, 1, 1, 1] ((attach_new 3)\<lparr>c_in := [0x68, 0x69, 0x0D]\<rparr>, server_new) = (c1, s1)"
    by fastforce
  have arg: "\<not> at_raw demo_attach" "at_channel demo_attach = 3" by (simp_all add: demo_attach_def)
  from typing_is_echoed [OF env(1) arg(1) _ env(2) _ env(3-5) dr, of "[1, 1, 1, 1, 1, 1]" 3 2 c1 s1
      "\<lambda>_. demo_clock" demo_fs 0] i arg(2)
  obtain x t k where r: "attach demo_attach demo_env False = (Some (Inr ()), x)" "x_sock x = Some t"
    "attach_task (closing (tx t)) = Some (3, closing [0x68, 0x69, 0x0D])"
    "echo_guest (\<lambda>_. demo_clock) 3 \<lparr>l_shared = (s1, demo_fs), l_replies = []\<rparr> = Some k"
    "c_out (fst (outbound_run 2 0 (c1, fst (l_shared k)))) = [0x68, 0x69, 0x0D]"
    "tx (x_stdout x) @ pending_line_end [0x68, 0x69, 0x0D] = tx (e_stdout demo_env) @ crlf_text [0x68, 0x69, 0x0D]"
    by auto
  from r(6) have "tx (x_stdout x) = [0x68, 0x69]"
    by (simp add: pending_line_end_def demo_env_def closing_def crlf_text.simps(2))
  with r i show ?thesis by (simp del: inbound_run.simps)
qed

section \<open>A channel that does not exist\<close>

text \<open>
  The client takes any channel number.  On one from 16 on, everything the user types is
  read and thrown away, nothing ever arrives, and neither side reports an error.
\<close>

lemma inbound_discards:
  assumes "c_inbound c \<noteq> InDone" "c_in_end c = Pending" "\<not> valid_channel (c_channel c)"
    and "inbound_run ks (c, s) = (c', s')"
  shows "s' = s \<and> c_inbound c' \<noteq> InDone"
  using assms
proof (induction ks arbitrary: c)
  case (Cons k ks)
  show ?case
  proof (cases "inbound_step k c s")
    case None
    with Cons.prems show ?thesis by simp
  next
    case (Some cs)
    then obtain c1 where c1: "cs = (c1, s)" "c_inbound c1 \<noteq> InDone" "c_in_end c1 = Pending" "c_channel c1 = c_channel c"
      using Cons.prems(1-3)
      by (auto simp: inbound_step_def send_to_vserial_def Let_def split: in_task.splits if_splits read_end.splits)
    with Some Cons.prems Cons.IH [of c1] show ?thesis by simp
  qed
qed simp

theorem invalid_channel_swallows:
  assumes "\<not> valid_channel ch" "inbound_run ks ((attach_new ch)\<lparr>c_in := bs\<rparr>, s) = (c', s')"
    and "outbound_run n i (attach_new ch, s) = (c2, s2)"
  shows "s' = s \<and> \<not> attach_returned c' \<and> s2 = s \<and> c_out c2 = [] \<and> \<not> attach_returned c2"
proof -
  have out: "c_outbound (fst (inbound_run ks (c, s))) = c_outbound c" for c s
  proof (induction ks arbitrary: c s)
    case (Cons k ks)
    show ?case
    proof (cases "inbound_step k c s")
      case (Some cs)
      obtain c1 s1 where "cs = (c1, s1)" by (cases cs)
      with Some Cons.IH [of c1 s1] show ?thesis
        by (auto simp: inbound_step_def Let_def split: in_task.splits if_splits read_end.splits)
    qed simp
  qed simp
  have "s' = s \<and> c_inbound c' \<noteq> InDone"
    using inbound_discards [OF _ _ _ assms(2)] assms(1) by (simp add: attach_new_def)
  moreover have "c_outbound c' = OutDrain"
    using out [of "(attach_new ch)\<lparr>c_in := bs\<rparr>" s] assms(2) by (simp add: attach_new_def)
  moreover have "s2 = s \<and> c_out c2 = [] \<and> \<not> attach_returned c2"
  proof -
    have step: "s' = s \<and> c_channel c' = ch \<and> c_out c' = c_out c \<and> c_inbound c' = c_inbound c \<and>
        c_outbound c' \<in> {OutDrain, OutWait, OutSleep}"
      if "outbound_step i c s = Some (c', s')" "c_channel c = ch" "c_outbound c \<in> {OutDrain, OutWait, OutSleep}" for c c' s'
      using that assms(1)
      by (auto simp: outbound_step_def drain_vserial_def wait_vserial_inbox_def wake_vserial_inbox_def Let_def)
    have inv: "snd (outbound_run n i (c, s)) = s \<and> c_out (fst (outbound_run n i (c, s))) = c_out c \<and>
        c_inbound (fst (outbound_run n i (c, s))) = c_inbound c \<and>
        c_outbound (fst (outbound_run n i (c, s))) \<in> {OutDrain, OutWait, OutSleep}"
      if "c_channel c = ch" "c_outbound c \<in> {OutDrain, OutWait, OutSleep}" for n c
      using that
    proof (induction n arbitrary: c)
      case (Suc n)
      show ?case
      proof (cases "outbound_step i c s")
        case (Some cs)
        then obtain c1 s1 where "cs = (c1, s1)" by (cases cs)
        with Some step [of c c1 s1] Suc.IH [of c1] Suc.prems show ?thesis by auto
      qed (use Suc.prems in simp)
    qed simp
    from inv [of "attach_new ch" n] assms(3) show ?thesis by (auto simp: attach_new_def attach_returned_def)
  qed
  ultimately show ?thesis by (auto simp: attach_returned_def)
qed

end
