(* ===== verification/Conformance.thy ===== *)
theory Conformance
  imports Attach_Command Programs
begin

text \<open>
  The repository's own unit tests, run on the model.  Every test function is a definition
  of the same name that performs the calls of the test on the modelled functions and
  returns whether all of its assertions hold.  A test that talks to \<open>Server::run\<close> over a
  duplex stream does so interactively: it writes, reads and looks at the server in the order
  of the source, and the server gets no byte before the test has written it.  The clock, the
  file system and the classification of characters it runs with are parameters.  This is
  a check that the definitions mean what the authors of the program expect of it.
\<close>

section \<open>drivewire-proto\<close>

definition empty_is_zero :: bool where
  "empty_is_zero \<longleftrightarrow> checksum16 [] = 0"

definition sums_bytes :: bool where
  "sums_bytes \<longleftrightarrow> checksum16 [1, 2, 3] = 6"

definition full_sector_of_aa :: bool where
  "full_sector_of_aa \<longleftrightarrow> (let dat = replicate 256 0xAA in checksum16 dat = 0xAA00)"

definition wraps_on_overflow :: bool where
  "wraps_on_overflow \<longleftrightarrow> (let bs = replicate 257 0xFF @ [0x01] in checksum16 bs = 0)"

definition decodes_known_opcodes :: bool where
  "decodes_known_opcodes \<longleftrightarrow> from_byte 0x52 = Op Read \<and> from_byte 0x57 = Op Write \<and>
     from_byte 0x5A = Op DwInit \<and> from_byte 0xFF = Op Reset1"

definition decodes_fastwrite_range :: bool where
  "decodes_fastwrite_range \<longleftrightarrow> from_byte 0x80 = FastWrite 0 \<and> from_byte 0x8F = FastWrite 15"

definition unknown_byte_is_unknown :: bool where
  "unknown_byte_is_unknown \<longleftrightarrow> from_byte 0x01 = Unknown 0x01"

definition lsn_roundtrip_test :: bool where
  "lsn_roundtrip_test \<longleftrightarrow>
     list_all (\<lambda>v. let l = Lsn v in from_be3 (to_be3 l) = l) [0, 1, 0xFF, 0x100, 0xFFFF, 0x123456, 0xFFFFFF]"

definition parses_big_endian :: bool where
  "parses_big_endian \<longleftrightarrow> from_be3 (0x12, 0x34, 0x56) = Lsn 0x123456"

section \<open>drivewire-cli\<close>

definition norm :: "bytes \<Rightarrow> bytes" where
  "norm s = fst (normalize_line_endings False s)"

fun feed_from :: "bytes \<Rightarrow> bool \<Rightarrow> bytes \<Rightarrow> bytes \<times> bool \<times> bool" where
  "feed_from [] armed out = (out, armed, False)"
| "feed_from (b # bs) armed out =
    (case process_input_byte b armed out of
       (Exit, armed', out') \<Rightarrow> (out', armed', True)
     | (Continue, armed', out') \<Rightarrow> feed_from bs armed' out')"

definition feed :: "bytes \<Rightarrow> bytes \<times> bool \<times> bool" where
  "feed bs = feed_from bs False []"

text \<open>Byte string literals.\<close>

definition byte_str :: "string \<Rightarrow> bytes" where
  "byte_str s = map of_char s"

definition plain_bytes_pass_through :: bool where
  "plain_bytes_pass_through \<longleftrightarrow> feed (byte_str ''hello'') = (byte_str ''hello'', False, False)"

definition ctrl_a_q_exits_and_consumes_both_bytes :: bool where
  "ctrl_a_q_exits_and_consumes_both_bytes \<longleftrightarrow>
     (case feed [0x01, 0x71] of (out, armed, exit) \<Rightarrow> exit \<and> \<not> armed \<and> out = [])"

definition ctrl_a_capital_q_also_exits :: bool where
  "ctrl_a_capital_q_also_exits \<longleftrightarrow> (case feed [0x01, 0x51] of (out, armed, exit) \<Rightarrow> exit)"

definition double_ctrl_a_sends_literal_ctrl_a :: bool where
  "double_ctrl_a_sends_literal_ctrl_a \<longleftrightarrow>
     (case feed [0x01, 0x01] of (out, armed, exit) \<Rightarrow> out = [0x01] \<and> \<not> armed \<and> \<not> exit)"

definition ctrl_a_then_other_byte_is_non_destructive :: bool where
  "ctrl_a_then_other_byte_is_non_destructive \<longleftrightarrow>
     (case feed [0x01, 0x78] of (out, armed, exit) \<Rightarrow> out = [0x01, 0x78] \<and> \<not> armed \<and> \<not> exit)"

definition escape_state_persists_across_reads :: bool where
  "escape_state_persists_across_reads \<longleftrightarrow>
    (case process_input_byte 0x01 False [] of
       (r1, armed, out) \<Rightarrow> r1 = Continue \<and> armed \<and> out = [] \<and>
         (case process_input_byte 0x71 armed out of (r2, _, _) \<Rightarrow> r2 = Exit))"

definition bare_cr_becomes_crlf :: bool where
  "bare_cr_becomes_crlf \<longleftrightarrow> norm (byte_str ''hi'' @ [13] @ byte_str ''there'') = byte_str ''hi'' @ [13, 10] @ byte_str ''there''"

definition existing_crlf_preserved :: bool where
  "existing_crlf_preserved \<longleftrightarrow> norm (byte_str ''hi'' @ [13, 10] @ byte_str ''there'') = byte_str ''hi'' @ [13, 10] @ byte_str ''there''"

definition bare_lf_becomes_crlf :: bool where
  "bare_lf_becomes_crlf \<longleftrightarrow> norm (byte_str ''hi'' @ [10] @ byte_str ''there'') = byte_str ''hi'' @ [13, 10] @ byte_str ''there''"

definition multiple_crs_each_become_crlf :: bool where
  "multiple_crs_each_become_crlf \<longleftrightarrow>
     norm (byte_str ''a'' @ [13, 13, 13, 10] @ byte_str ''b'') = byte_str ''a'' @ [13, 10, 13, 10, 13, 10] @ byte_str ''b''"

definition state_persists_across_chunks :: bool where
  "state_persists_across_chunks \<longleftrightarrow>
    (case normalize_line_endings False (byte_str ''end-of-chunk'' @ [13]) of
       (a, had_cr) \<Rightarrow> a = byte_str ''end-of-chunk'' \<and> had_cr \<and>
         (case normalize_line_endings had_cr (byte_str ''next'') of
            (a', had_cr') \<Rightarrow> a' = [13, 10] @ byte_str ''next'' \<and> \<not> had_cr'))"

definition pure_tests :: "bool list" where
  "pure_tests = [empty_is_zero, sums_bytes, full_sector_of_aa, wraps_on_overflow, decodes_known_opcodes,
     decodes_fastwrite_range, unknown_byte_is_unknown, lsn_roundtrip_test, parses_big_endian,
     plain_bytes_pass_through, ctrl_a_q_exits_and_consumes_both_bytes, ctrl_a_capital_q_also_exits,
     double_ctrl_a_sends_literal_ctrl_a, ctrl_a_then_other_byte_is_non_destructive, escape_state_persists_across_reads,
     bare_cr_becomes_crlf, existing_crlf_preserved, bare_lf_becomes_crlf, multiple_crs_each_become_crlf,
     state_persists_across_chunks]"

lemma pure_tests_pass: "list_all (\<lambda>t. t) pure_tests"
  by code_simp

section \<open>drivewire-server: sessions\<close>

text \<open>
  A session that a test is talking to: what is left of the handler that runs, the shared
  state, the bytes that the test has written and the server has not read, and those that
  the server has written and the test has not read.
\<close>

type_synonym live = "prog \<times> shared \<times> bytes \<times> bytes"

text \<open>A handler goes on until it ends or waits for more input than there is.\<close>

primrec advance :: "prog \<Rightarrow> shared \<times> bytes \<times> bytes \<Rightarrow> live" where
  "advance Done st = (Done, st)"
| "advance (ReadExact n k) st =
    (case st of (sf, inp, out) \<Rightarrow>
       if n \<le> length inp then advance (k (take n inp)) (sf, drop n inp, out) else (ReadExact n k, st))"
| "advance (WriteAll bs p) st = (case st of (sf, inp, out) \<Rightarrow> advance p (sf, inp, out @ bs))"
| "advance (Section u f k) st = (case st of (sf, inp, out) \<Rightarrow> advance (k sf) (f sf, inp, out))"
| "advance (Unlock p) st = advance p st"

lemma advance_consumes: "advance p (sf, inp, out) = (p', sf', inp', out') \<Longrightarrow> length inp' \<le> length inp"
proof (induction p arbitrary: sf inp out)
  case (ReadExact n k)
  show ?case
  proof (cases "n \<le> length inp")
    case True
    with ReadExact.prems have "advance (k (take n inp)) (sf, drop n inp, out) = (p', sf', inp', out')" by simp
    from ReadExact.IH [OF rangeI this] show ?thesis by simp
  qed (use ReadExact.prems in simp)
next
  case (Section u f k)
  then have "advance (k sf) (f sf, inp, out) = (p', sf', inp', out')" by simp
  from Section.IH [OF rangeI this] show ?case .
qed auto

text \<open>The loop of \<open>Server::run\<close>: when a handler has ended, the next byte starts another.\<close>

function settle :: "clock \<Rightarrow> live \<Rightarrow> live" where
  "settle c (p, sf, inp, out) =
    (case advance p (sf, inp, out) of
       (Done, sf', b # inp', out') \<Rightarrow> settle c (dispatch_prog c (from_byte b), sf', inp', out')
     | blocked \<Rightarrow> blocked)"
  by pat_completeness auto
termination
  by (relation "measure (\<lambda>(c, p, sf, inp, out). length inp)") (auto dest!: advance_consumes [OF sym])

declare settle.simps [simp del]

text \<open>What a test does with its end: connecting, \<open>write_all\<close>, \<open>read_exact\<close>, asking the server.\<close>

definition new_client :: "server \<Rightarrow> filesys \<Rightarrow> live" where
  "new_client server f = (Done, (server, f), [], [])"

definition send_bytes :: "clock \<Rightarrow> bytes \<Rightarrow> live \<Rightarrow> live" where
  "send_bytes c bs = (\<lambda>(p, sf, inp, out). settle c (p, sf, inp @ bs, out))"

definition receive :: "nat \<Rightarrow> live \<Rightarrow> (bytes \<Rightarrow> live \<Rightarrow> bool) \<Rightarrow> bool" where
  "receive n = (\<lambda>(p, sf, inp, out) k. n \<le> length out \<and> k (take n out) (p, sf, inp, drop n out))"

definition server_of :: "live \<Rightarrow> server" where
  "server_of = (\<lambda>(p, sf, inp, out). fst sf)"

definition month_ok :: "bytes \<Rightarrow> bool" where
  "month_ok resp \<longleftrightarrow> 1 \<le> resp ! 1 \<and> resp ! 1 \<le> 12"

definition dwinit_replies_with_one_byte :: "clock \<Rightarrow> filesys \<Rightarrow> bool" where
  "dwinit_replies_with_one_byte c f \<longleftrightarrow>
    (let client = send_bytes c [0x5A, 0x42] (new_client server_new f) in
     receive 1 client (\<lambda>resp client. resp = [DWINIT_RESPONSE]))"

definition time_replies_with_six_plausible_bytes :: "clock \<Rightarrow> filesys \<Rightarrow> bool" where
  "time_replies_with_six_plausible_bytes c f \<longleftrightarrow>
    (let client = send_bytes c [0x23] (new_client server_new f) in
     receive 6 client (\<lambda>resp client. month_ok resp \<and> 1 \<le> resp ! 2 \<and> resp ! 2 \<le> 31 \<and>
         resp ! 3 \<le> 23 \<and> resp ! 4 \<le> 59 \<and> resp ! 5 \<le> 60))"

definition print_and_flush_do_not_desync_stream :: "clock \<Rightarrow> filesys \<Rightarrow> bool" where
  "print_and_flush_do_not_desync_stream c f \<longleftrightarrow>
    (let client = send_bytes c [0x50, 0x48, 0x50, 0x69, 0x46, 0x23] (new_client server_new f) in
     receive 6 client (\<lambda>resp client. month_ok resp))"

definition init_term_getstat_setstat_consume_payload :: "clock \<Rightarrow> filesys \<Rightarrow> bool" where
  "init_term_getstat_setstat_consume_payload c f \<longleftrightarrow>
    (let client = send_bytes c [0x49, 0x47, 0x00, 0x05, 0x53, 0x00, 0x06, 0x54, 0x23] (new_client server_new f) in
     receive 6 client (\<lambda>resp client. month_ok resp))"

definition unknown_opcode_is_skipped_and_session_continues :: "clock \<Rightarrow> filesys \<Rightarrow> bool" where
  "unknown_opcode_is_skipped_and_session_continues c f \<longleftrightarrow>
    (let client = send_bytes c [0x1F, 0x23] (new_client server_new f) in
     receive 6 client (\<lambda>resp client. month_ok resp))"

definition serread_replies_no_data_when_outboxes_empty :: "clock \<Rightarrow> filesys \<Rightarrow> bool" where
  "serread_replies_no_data_when_outboxes_empty c f \<longleftrightarrow>
    (let client = send_bytes c [0x43] (new_client server_new f) in
     receive 2 client (\<lambda>resp client. resp = [0x00, 0x00]))"

definition serread_delivers_single_byte_inline :: "clock \<Rightarrow> filesys \<Rightarrow> bool" where
  "serread_delivers_single_byte_inline c f \<longleftrightarrow>
    (let server = send_to_vserial 3 (byte_str ''Q'') server_new;
         client = send_bytes c [0x43] (new_client server f) in
     receive 2 client (\<lambda>resp client. resp = [0x01 + 3, 0x51]))"

definition serread_then_serreadm_for_multibyte_burst :: "clock \<Rightarrow> filesys \<Rightarrow> bool" where
  "serread_then_serreadm_for_multibyte_burst c f \<longleftrightarrow>
    (let server = send_to_vserial 2 (byte_str ''hello'') server_new;
         client = send_bytes c [0x43] (new_client server f) in
     receive 2 client (\<lambda>resp client. resp = [0x11 + 2, 5] \<and>
       (let client = send_bytes c [0x63, 0x02, 0x05] client in
        receive 5 client (\<lambda>payload client. payload = byte_str ''hello''))))"

definition serinit_serterm_consume_channel_byte :: "clock \<Rightarrow> filesys \<Rightarrow> bool" where
  "serinit_serterm_consume_channel_byte c f \<longleftrightarrow>
    (let client = send_bytes c [0x45, 0x02, 0xC5, 0x02, 0x23] (new_client server_new f) in
     receive 6 client (\<lambda>resp client. month_ok resp))"

definition fastwrite_buffers_byte_into_channel_inbox :: "clock \<Rightarrow> filesys \<Rightarrow> bool" where
  "fastwrite_buffers_byte_into_channel_inbox c f \<longleftrightarrow>
    (let client = send_bytes c [0x80, 0x41, 0x80, 0x42, 0x81, 0x58, 0x23] (new_client server_new f) in
     receive 6 client (\<lambda>resp client. month_ok resp \<and>
       (case drain_vserial 0 (server_of client) of (d0, server) \<Rightarrow> d0 = byte_str ''AB'' \<and>
         (case drain_vserial 1 server of (d1, server) \<Rightarrow> d1 = byte_str ''X'' \<and>
           (case drain_vserial 2 server of (d2, server) \<Rightarrow> d2 = [])))))"

definition sersetstat_open_close_tracks_channel_state :: "clock \<Rightarrow> filesys \<Rightarrow> bool" where
  "sersetstat_open_close_tracks_channel_state c f \<longleftrightarrow>
    (let client = send_bytes c [0x23] (send_bytes c [0xC4, 0x04, 0x29] (new_client server_new f)) in
     receive 6 client (\<lambda>t1 client. month_ok t1 \<and> is_channel_open 4 (server_of client) \<and>
       (let client = send_bytes c [0xC4, 0x04, 0x2A, 0x23] client in
        receive 6 client (\<lambda>t2 client. month_ok t2 \<and> \<not> is_channel_open 4 (server_of client)))))"

definition sersetstat_comst_consumes_26_byte_payload :: "clock \<Rightarrow> filesys \<Rightarrow> bool" where
  "sersetstat_comst_consumes_26_byte_payload c f \<longleftrightarrow>
    (let frame = [0xC4, 0x00, 0x28] @ replicate 26 0xAB @ [0x23] in
     let client = send_bytes c frame (new_client server_new f) in
     receive 6 client (\<lambda>resp client. month_ok resp))"

definition serwritem_buffers_burst_into_channel_inbox :: "clock \<Rightarrow> filesys \<Rightarrow> bool" where
  "serwritem_buffers_burst_into_channel_inbox c f \<longleftrightarrow>
    (let frame = [0x64, 0x03, 0x05] @ byte_str ''hello'' @ [0x23] in
     let client = send_bytes c frame (new_client server_new f) in
     receive 6 client (\<lambda>resp client. month_ok resp \<and> fst (drain_vserial 3 (server_of client)) = byte_str ''hello''))"

definition serwrite_buffers_byte_into_channel_inbox :: "clock \<Rightarrow> filesys \<Rightarrow> bool" where
  "serwrite_buffers_byte_into_channel_inbox c f \<longleftrightarrow>
    (let client = send_bytes c [0xC3, 0x02, 0x5A, 0x23] (new_client server_new f) in
     receive 6 client (\<lambda>resp client. month_ok resp \<and> fst (drain_vserial 2 (server_of client)) = byte_str ''Z''))"

definition read_on_empty_slot_returns_zero_sector_with_checksum :: "clock \<Rightarrow> filesys \<Rightarrow> bool" where
  "read_on_empty_slot_returns_zero_sector_with_checksum c f \<longleftrightarrow>
    (let client = send_bytes c [0x52, 0x00, 0x00, 0x00, 0x00] (new_client server_new f) in
     receive 256 client (\<lambda>sector client. list_all (\<lambda>x. x = 0) sector \<and>
       receive 2 client (\<lambda>cksum client. u16_from_be_bytes (cksum ! 0, cksum ! 1) = 0)))"

definition readex_does_bidirectional_checksum_handshake :: "clock \<Rightarrow> filesys \<Rightarrow> bool" where
  "readex_does_bidirectional_checksum_handshake c f \<longleftrightarrow>
    (let client = send_bytes c [0xD2, 0x00, 0x00, 0x00, 0x00] (new_client server_new f) in
     receive 256 client (\<lambda>sector client. list_all (\<lambda>x. x = 0) sector \<and>
       (let client = send_bytes c [0x00, 0x00] client in
        receive 1 client (\<lambda>status client. status ! 0 = 0x00))))"

definition readex_reports_crc_when_guest_checksum_wrong :: "clock \<Rightarrow> filesys \<Rightarrow> bool" where
  "readex_reports_crc_when_guest_checksum_wrong c f \<longleftrightarrow>
    (let client = send_bytes c [0xD2, 0x00, 0x00, 0x00, 0x00] (new_client server_new f) in
     receive 256 client (\<lambda>sector client.
       (let client = send_bytes c [0xDE, 0xAD] client in
        receive 1 client (\<lambda>status client. status ! 0 = 0xF3))))"

section \<open>drivewire-server: control commands and attached clients\<close>

definition contains :: "str \<Rightarrow> str \<Rightarrow> bool" where
  "contains s p \<longleftrightarrow> list_ex (\<lambda>i. starts_with (drop i s) p) [0..<Suc (length s)]"

definition ends_with :: "str \<Rightarrow> str \<Rightarrow> bool" where
  "ends_with s p \<longleftrightarrow> length p \<le> length s \<and> drop (length s - length p) s = p"

definition control_status_lists_drives_and_open_channels :: "(uchar \<Rightarrow> bool) \<Rightarrow> filesys \<Rightarrow> bool" where
  "control_status_lists_drives_and_open_channels up f \<longleftrightarrow>
    (let server = send_to_vserial 2 (byte_str ''buffered'') (set_channel_open 2 True server_new);
         resp = fst (handle_control_command up (lit ''STATUS'') (server, f)) in
     contains resp (lit ''vserial 2 open'') \<and> contains resp (lit ''outbox=8'') \<and> ends_with resp (lit ''OK'' @ [10]))"

definition control_mount_errors_on_missing_path :: "(uchar \<Rightarrow> bool) \<Rightarrow> filesys \<Rightarrow> bool" where
  "control_mount_errors_on_missing_path up f \<longleftrightarrow>
    (let resp = fst (handle_control_command up (lit ''MOUNT 0 /definitely/not/a/real/path.dsk'') (server_new, f)) in
     starts_with resp (lit ''ERROR mount failed''))"

definition control_unmount_is_idempotent :: "(uchar \<Rightarrow> bool) \<Rightarrow> filesys \<Rightarrow> bool" where
  "control_unmount_is_idempotent up f \<longleftrightarrow>
    (let resp = fst (handle_control_command up (lit ''UNMOUNT 0'') (server_new, f)) in
     starts_with resp (lit ''OK unmounted''))"

definition control_rejects_bad_slot :: "(uchar \<Rightarrow> bool) \<Rightarrow> filesys \<Rightarrow> bool" where
  "control_rejects_bad_slot up f \<longleftrightarrow>
    (let resp = fst (handle_control_command up (lit ''MOUNT abc /x'') (server_new, f)) in
     starts_with resp (lit ''ERROR slot must be''))"

definition control_unknown_verb_returns_error :: "(uchar \<Rightarrow> bool) \<Rightarrow> filesys \<Rightarrow> bool" where
  "control_unknown_verb_returns_error up f \<longleftrightarrow>
    (let resp = fst (handle_control_command up (lit ''FOOBAR'') (server_new, f)) in
     starts_with resp (lit ''ERROR unknown verb''))"

definition control_quit_returns_bye :: "(uchar \<Rightarrow> bool) \<Rightarrow> filesys \<Rightarrow> bool" where
  "control_quit_returns_bye up f \<longleftrightarrow>
    (let resp = fst (handle_control_command up (lit ''QUIT'') (server_new, f)) in resp = lit ''BYE'' @ [10])"

text \<open>
  The client writes while the tasks of the connection run; the first test waits until the
  inbound task has read and queued what was written, in at most 50 rounds of it.
\<close>

definition attach_forwards_client_writes_into_outbox :: "nat list \<Rightarrow> bool" where
  "attach_forwards_client_writes_into_outbox ks \<longleftrightarrow>
    (case inbound_run ks ((attach_new 1)\<lparr>c_in := byte_str ''hello''\<rparr>, server_new) of
       (_, server) \<Rightarrow> vserial_outbox_len 1 server = 5)"

text \<open>
  The outbound task has made no step, one, or has gone to sleep when the guest writes; then
  it runs.
\<close>

definition attach_forwards_inbox_bytes_to_client :: "nat \<Rightarrow> bool" where
  "attach_forwards_inbox_bytes_to_client early \<longleftrightarrow>
    (case outbound_run early 0 (attach_new 2, server_new) of
       (c, server) \<Rightarrow>
         (case outbound_run 3 0 (c, push_vserial 2 0x69 (push_vserial 2 0x68 server)) of
            (c', _) \<Rightarrow> 2 \<le> length (c_out c') \<and> take 2 (c_out c') = byte_str ''hi''))"

section \<open>All tests\<close>

definition session_tests :: "clock \<Rightarrow> filesys \<Rightarrow> bool list" where
  "session_tests c f =
    [dwinit_replies_with_one_byte c f, time_replies_with_six_plausible_bytes c f,
     print_and_flush_do_not_desync_stream c f, init_term_getstat_setstat_consume_payload c f,
     unknown_opcode_is_skipped_and_session_continues c f, serread_replies_no_data_when_outboxes_empty c f,
     serread_delivers_single_byte_inline c f, serread_then_serreadm_for_multibyte_burst c f,
     serinit_serterm_consume_channel_byte c f, fastwrite_buffers_byte_into_channel_inbox c f,
     sersetstat_open_close_tracks_channel_state c f, sersetstat_comst_consumes_26_byte_payload c f,
     serwritem_buffers_burst_into_channel_inbox c f, serwrite_buffers_byte_into_channel_inbox c f,
     read_on_empty_slot_returns_zero_sector_with_checksum c f,
     readex_does_bidirectional_checksum_handshake c f, readex_reports_crc_when_guest_checksum_wrong c f]"

definition control_tests :: "(uchar \<Rightarrow> bool) \<Rightarrow> filesys \<Rightarrow> bool list" where
  "control_tests up f =
    [control_status_lists_drives_and_open_channels up f, control_mount_errors_on_missing_path up f,
     control_unmount_is_idempotent up f, control_rejects_bad_slot up f,
     control_unknown_verb_returns_error up f, control_quit_returns_bye up f]"

text \<open>
  What the tests rely on: the clock shows a date and a time of day, and the path that the
  mount test calls missing is.
\<close>

definition plausible :: "date_time \<Rightarrow> bool" where
  "plausible d \<longleftrightarrow> 1 \<le> month d \<and> month d \<le> 12 \<and> 1 \<le> day d \<and> day d \<le> 31 \<and>
     hour d \<le> 23 \<and> minute d \<le> 59 \<and> second d \<le> 60"

definition plausible_clock :: "clock \<Rightarrow> bool" where
  "plausible_clock c \<longleftrightarrow> plausible (case now_local c of Some d \<Rightarrow> d | None \<Rightarrow> now_utc c)"

lemma time_reply_plausible:
  assumes "plausible_clock c"
  obtains y m d h i s where "time_reply c = [y, m, d, h, i, s]" "1 \<le> m" "m \<le> 12" "1 \<le> d" "d \<le> 31"
    "h \<le> 23" "i \<le> 59" "s \<le> 60"
  using assms by (auto simp: plausible_clock_def plausible_def time_reply_def Let_def)

lemma checksum_zeros: "checksum16 (replicate n 0) = 0"
  by (induction n) (simp_all add: checksum16_def)

lemma burst_popped: "pop_padded 5 [0x68, 0x65, 0x6C, 0x6C, 0x6F] = ([0x68, 0x65, 0x6C, 0x6C, 0x6F], [])"
  by code_simp

text \<open>Running a session on concrete bytes.\<close>

lemmas session_eval = new_client_def send_bytes_def receive_def server_of_def settle.simps
  from_byte_def opcode_try_from_def dispatch_prog_def prog_defs on_server_def
  serread_pop_def serread_reply_def serreadm_take_def push_store_def push_notify_def serwritem_store_def
  set_channel_open_def is_channel_open_def drain_vserial_def send_to_vserial_def server_new_def
  VSERIAL_CHANNELS_def SS_OPEN_def SS_CLOSE_def SS_COMST_def COMST_PAYLOAD_LEN_def month_ok_def
  drive_lookup_def byte_str_def Let_def

lemma dwinit_test: "dwinit_replies_with_one_byte c f"
  by (simp add: dwinit_replies_with_one_byte_def session_eval)

lemma time_tests:
  assumes "plausible_clock c"
  shows "time_replies_with_six_plausible_bytes c f"
    "print_and_flush_do_not_desync_stream c f"
    "init_term_getstat_setstat_consume_payload c f"
    "unknown_opcode_is_skipped_and_session_continues c f"
    "serinit_serterm_consume_channel_byte c f"
    "fastwrite_buffers_byte_into_channel_inbox c f"
    "sersetstat_open_close_tracks_channel_state c f"
    "sersetstat_comst_consumes_26_byte_payload c f"
    "serwritem_buffers_burst_into_channel_inbox c f"
    "serwrite_buffers_byte_into_channel_inbox c f"
  by (rule time_reply_plausible [OF assms]; simp add: session_eval
      time_replies_with_six_plausible_bytes_def
      print_and_flush_do_not_desync_stream_def
      init_term_getstat_setstat_consume_payload_def
      unknown_opcode_is_skipped_and_session_continues_def
      serinit_serterm_consume_channel_byte_def
      fastwrite_buffers_byte_into_channel_inbox_def
      sersetstat_open_close_tracks_channel_state_def
      sersetstat_comst_consumes_26_byte_payload_def
      serwritem_buffers_burst_into_channel_inbox_def
      serwrite_buffers_byte_into_channel_inbox_def)+

lemma serread_tests:
  "serread_replies_no_data_when_outboxes_empty c f"
  "serread_delivers_single_byte_inline c f"
  "serread_then_serreadm_for_multibyte_burst c f"
  by (simp_all add: serread_replies_no_data_when_outboxes_empty_def
      serread_delivers_single_byte_inline_def
      serread_then_serreadm_for_multibyte_burst_def session_eval burst_popped upt_rec)

lemma zero_word_bytes: "be2 0 = [0, 0]" "u16_from_be_bytes (0, 0) = 0"
    "u16_from_be_bytes (0xDE, 0xAD) = 0xDEAD"
  by (simp_all add: be2_def u16_to_be_bytes_def u16_from_be_bytes_def)

lemma list_all_zeros: "list_all (\<lambda>x. x = 0) (replicate n (0 :: u8))"
  by (simp add: list_all_length)

lemma read_tests:
  "read_on_empty_slot_returns_zero_sector_with_checksum c f"
  "readex_does_bidirectional_checksum_handshake c f"
  "readex_reports_crc_when_guest_checksum_wrong c f"
  by (simp_all add: session_eval zero_sector_def SECTOR_SIZE_def checksum_zeros zero_word_bytes list_all_zeros
      read_on_empty_slot_returns_zero_sector_with_checksum_def
      readex_does_bidirectional_checksum_handshake_def
      readex_reports_crc_when_guest_checksum_wrong_def)

lemma split3:
  "splitn_ws 3 s =
    (case dropWhile (Not \<circ> char_is_whitespace) s of
       [] \<Rightarrow> [s]
     | _ # r \<Rightarrow> takeWhile (Not \<circ> char_is_whitespace) s #
         (case dropWhile (Not \<circ> char_is_whitespace) r of
            [] \<Rightarrow> [r]
          | _ # r' \<Rightarrow> [takeWhile (Not \<circ> char_is_whitespace) r, r']))"
  unfolding numeral_3_eq_3 splitn_ws.simps by (rule refl)

lemmas command_eval = handle_control_command_def split3 char_is_whitespace_def to_ascii_uppercase_def
  control_mount_def control_unmount_def parse_u8_def starts_with_def slot_error_def unmounted_reply_def Let_def

lemma control_tests_refused:
  "control_unmount_is_idempotent up f" "control_rejects_bad_slot up f" "control_unknown_verb_returns_error up f"
  "control_quit_returns_bye up f"
  by (simp_all add: command_eval control_unmount_is_idempotent_def control_rejects_bad_slot_def
      control_unknown_verb_returns_error_def control_quit_returns_bye_def is_digit_def)

lemma contains_middle: "contains (xs @ p @ ys) p"
  by (auto simp: contains_def list_ex_iff starts_with_def intro: bexI [of _ "length xs"])

lemma status_text:
  "control_status (send_to_vserial 2 (byte_str ''buffered'') (set_channel_open 2 True server_new)) =
    lit ''vserial 2 open inbox=0 outbox=8'' @ [10] @ lit ''OK'' @ [10]"
  by (simp add: control_status_def drive_summary_def vserial_summary_def send_to_vserial_def set_channel_open_def
      server_new_def byte_str_def VSERIAL_CHANNELS_def Let_def upt_rec show_nat.simps nth_list_update)

lemma control_test_status: "control_status_lists_drives_and_open_channels up f"
proof -
  let ?resp = "lit ''vserial 2 open inbox=0 outbox=8'' @ [10] @ lit ''OK'' @ [10]"
  have "contains ?resp (lit ''vserial 2 open'')" "contains ?resp (lit ''outbox=8'')"
    using contains_middle [of "[]" "lit ''vserial 2 open''" "lit '' inbox=0 outbox=8'' @ [10] @ lit ''OK'' @ [10]"]
      contains_middle [of "lit ''vserial 2 open inbox=0 ''" "lit ''outbox=8''" "[10] @ lit ''OK'' @ [10]"] by simp_all
  moreover have "fst (handle_control_command up (lit ''STATUS'')
      (send_to_vserial 2 (byte_str ''buffered'') (set_channel_open 2 True server_new), f)) = ?resp"
    by (simp add: handle_control_command_def split3 char_is_whitespace_def to_ascii_uppercase_def Let_def status_text)
  ultimately show ?thesis
    by (simp only: control_status_lists_drives_and_open_channels_def Let_def) (simp add: ends_with_def)
qed

text \<open>The path of the mount test.\<close>

definition missing_path :: str where
  "missing_path = lit ''/definitely/not/a/real/path.dsk''"

lemma control_test_mount:
  assumes "fs_open f missing_path True = Inl e"
  shows "control_mount_errors_on_missing_path up f"
proof -
  have "dsk_open missing_path False f = (Inl (VIo e), f)" using assms by (simp add: dsk_open_def)
  then show ?thesis
    by (simp add: control_mount_errors_on_missing_path_def command_eval missing_path_def mount_dsk_def is_digit_def)
qed

lemma attach_test_inbound:
  assumes "10 \<le> length ks"
  shows "attach_forwards_client_writes_into_outbox ks"
proof -
  let ?c = "(attach_new 1)\<lparr>c_in := byte_str ''hello''\<rparr>"
  obtain c' s' where run: "inbound_run ks (?c, server_new) = (c', s')" by (cases "inbound_run ks (?c, server_new)")
  with inbound_delivers [OF _ _ _ _ _ run, of 1] assms show ?thesis
    by (simp add: attach_forwards_client_writes_into_outbox_def attach_new_def byte_str_def VSERIAL_CHANNELS_def
        vserial_outbox_len_eq queue_simps)
qed

lemma attach_test_outbound: "attach_forwards_inbox_bytes_to_client 0" "attach_forwards_inbox_bytes_to_client 1"
  "attach_forwards_inbox_bytes_to_client 2"
  by code_simp+

text \<open>
  The model passes the tests of the repository.  All unit tests of the protocol crate,
  of the command line and of the server succeed on the model, whatever file system the
  server runs on in which the path of the mount test is missing, whatever plausible time
  the clock shows, whichever way the reads of the attached client are cut and whether its
  outbound task starts, waits or sleeps when the guest writes.
\<close>

theorem repository_tests_pass:
  assumes "plausible_clock c" "fs_open f missing_path True = Inl e" "10 \<le> length ks" "early \<le> 2"
  shows "list_all (\<lambda>t. t) (pure_tests @ session_tests c f @ control_tests up f @
    [attach_forwards_client_writes_into_outbox ks, attach_forwards_inbox_bytes_to_client early])"
proof -
  have "early = 0 \<or> early = 1 \<or> early = 2" using assms(4) by auto
  then have "attach_forwards_inbox_bytes_to_client early" using attach_test_outbound by auto
  with time_tests [OF assms(1)] control_test_mount [OF assms(2)] attach_test_inbound [OF assms(3)] show ?thesis
    by (simp add: pure_tests_pass session_tests_def control_tests_def dwinit_test serread_tests read_tests
        control_tests_refused control_test_status)
qed

definition no_files :: filesys where
  "no_files = demo_fs\<lparr>fs_open := (\<lambda>p w. Inl no_entry)\<rparr>"

theorem repository_tests_pass_witness:
  "list_all (\<lambda>t. t) (pure_tests @ session_tests demo_clock no_files @ control_tests (\<lambda>_. True) no_files @
    [attach_forwards_client_writes_into_outbox (replicate 50 1024), attach_forwards_inbox_bytes_to_client 1])"
proof (rule repository_tests_pass)
  show "plausible_clock demo_clock" by (simp add: plausible_clock_def plausible_def demo_clock_def)
  show "fs_open no_files missing_path True = Inl no_entry" by (simp add: no_files_def)
qed simp_all

end
