(* ===== verification/Spec2Isabelle.thy ===== *)
theory Spec2Isabelle
  imports Disk_Service Serial_Threads Session_Lock Conformance
begin

text \<open>
  \<^bold>\<open>A verified model of drivewire-rs.\<close>

  drivewire-rs serves disks and serial channels to a Tandy Color Computer (the guest) over
  a byte stream without framing.  \<open>drivewire-proto\<close> has the opcodes, sector numbers and the
  checksum; \<open>drivewire-vdisk\<close> reads and writes disk images; \<open>drivewire-server\<close> keeps the
  mounted drives and sixteen virtual serial channels and runs the protocol for each
  connection; \<open>drivewire-transport\<close> turns a serial device into a byte stream;
  \<open>drivewire-cli\<close> is the command \<open>dw\<close> (\<open>serve\<close>, \<open>attach\<close>, \<open>mount\<close>, \<open>unmount\<close>,
  \<open>status\<close>, \<open>probe\<close>), whose clients talk to a running server over two Unix sockets, one
  for control commands and one for attaching a terminal to a channel.

  \<^bold>\<open>Theories.\<close>  File names are under \<open>src/crates\<close>.

  \<^item> \<open>DW_Prelude\<close>: machine integers, big-endian encodings, I/O errors, and the monad of
    computations over a state that may fail (Rust's \<open>?\<close>), with the predicate \<open>safe\<close> by
    which facts about all handlers are derived from facts about their primitives.
  \<^item> \<open>Proto\<close> (\<open>drivewire-proto\<close>): \<open>checksum16\<close>, \<open>Lsn\<close>, \<open>Opcode\<close>, \<open>Decoded\<close>; round
    trips, exact decoding, error detection.
  \<^item> \<open>Byte_Stream\<close>: transports with \<open>read_exact\<close> and \<open>write_all\<close>; the locale \<open>byte_source\<close>
    is the contract of \<open>poll_read\<close> under which the library loop behaves like them.
  \<^item> \<open>VDisk\<close> (\<open>drivewire-vdisk\<close>): \<open>DskFile\<close> over a model of files with faults; it refines
    an array of sectors.
  \<^item> \<open>Server_State\<close>, \<open>Server\<close> (\<open>drivewire-server\<close>): the struct \<open>Server\<close> with its operations
    and invariant \<open>server_wf\<close>; all opcode handlers, \<open>dispatch\<close> and the loop \<open>run\<close>, which
    terminates because every turn consumes input.  The locale \<open>session_contract\<close> collects
    what a handler can do; its three interpretations give the invariant, the progress of
    the transport, and that input is used up.
  \<^item> \<open>Protocol_Spec\<close>: requests as values, their encoding, an abstract server on functions
    instead of queues in vectors, and the refinement of it by \<open>run\<close>; requests cut short.
  \<^item> \<open>Disk_Service\<close>: what a guest can rely on across a session: it reads what it wrote,
    damaged transfers are refused, reply lengths are fixed.
  \<^item> \<open>Vserial\<close>: the channels under any interleaving of guest requests and host
    operations; the locale \<open>fifo_history\<close> is interpreted for both directions.
  \<^item> \<open>Attach\<close>: \<open>handle_attach\<close>.  Its two tasks are step functions with a program counter,
    all tasks, clients and guests interleave in \<open>attach_step\<close>.  The sleeping tasks of a
    channel are those queued at its \<open>Notify\<close> (permit, waiting and woken tasks, oldest
    first; theory \<open>Server_State\<close>); wake-ups, the pipe invariant, delivery within seven
    steps, and two executions that show defects, computed with \<open>attach_perform\<close>.
  \<^item> \<open>Programs\<close>: the handlers again, as trees of their suspension points (each \<open>await\<close> on the
    transport and each critical section); run without interruption they are the functions
    of \<open>Server\<close>, and turn after turn they make up \<open>run\<close>.
  \<^item> \<open>Traces\<close>: executions of a step relation; the locales \<open>kept_by_steps\<close> and
    \<open>forward_simulation\<close>, interpreted in the next two theories.
  \<^item> \<open>Sessions\<close>: the sessions of a TCP server, each at some node of a program, interleaved
    with each other and with the host (\<open>system_step\<close>).  Every execution is matched by a
    server that handles one whole request at a time (\<open>sessions_serialisable\<close>): a request
    takes effect at its one section that changes or reads queues, disks or buffers.
  \<^item> \<open>Session_Lock\<close>: the lock of the outboxes, which \<open>handle_serread\<close> keeps while it writes.
    \<open>lock_typed\<close> is a type system for programs, in which only a poll can hold the lock
    across an \<open>await\<close>; all handlers are typed, steps preserve types, and typed sessions do
    not deadlock.
  \<^item> \<open>Rust_Text\<close>, \<open>Control\<close>: what the code uses of Rust's strings (UTF-8, trimming,
    splitting, number parsing and printing), the control commands and their sessions;
    \<open>asks_mount\<close> and \<open>asks_unmount\<close> read off a line what a command has to do.
  \<^item> \<open>Cli\<close>: the clients of the control socket, end to end with the server.
  \<^item> \<open>Terminal\<close>: the escape keys and line endings of \<open>dw attach\<close>; the locale
    \<open>stream_filter\<close> shows once that results do not depend on how input is cut into reads;
    \<open>resolved\<close> and \<open>crlf_text\<close> are the meanings of whole streams.
  \<^item> \<open>Serial_Port\<close>, \<open>Serial_Threads\<close>, \<open>Serial_Drain\<close> (\<open>drivewire-transport\<close>): line
    settings, \<open>open\<close> with its descriptors, \<open>poll_read\<close> and \<open>poll_write\<close> as an
    interpretation of \<open>byte_source\<close>; the worker threads interleaved with line and caller;
    \<open>drain_serial\<close> on timed input with timers that may be late.
  \<^item> \<open>Serve\<close>: \<open>dw serve\<close> and \<open>dw probe\<close> as a whole; the theorem
    \<open>serve_serial_end_to_end\<close> joins start-up, serial port, draining and protocol.
  \<^item> \<open>Echo_Guest\<close>: the example guest (\<open>drivewire-cli/examples\<close>) run against the server.
  \<^item> \<open>Listeners\<close>: \<open>run_attach_listener\<close> and \<open>run_control_listener\<close> over a model of the names
    of Unix sockets; the task of each connection.
  \<^item> \<open>Attach_Command\<close>: \<open>dw attach\<close> as a whole, its two tasks under \<open>select!\<close> with the reads
    of both in any order, and the way of a keystroke from the terminal
    over socket, listener, connection, outbox, echo guest and inbox to the screen.
  \<^item> \<open>Conformance\<close>: the unit tests of the repository as definitions on the model, written
    against a session that gets its input as the test writes it; the model passes them.
    They validate the definitions and are not a property of the program.

  \<^bold>\<open>State and effects.\<close>  Structs are records, enums datatypes, \<open>u8\<close> to \<open>u64\<close> words of
  their width.  A handler is a function on a \<open>world\<close>: the shared server, the file system,
  and its transport.  A transport holds the bytes that the peer is still going to send
  and the error that follows them, so a session is a total function of its input;
  waiting appears where it matters, as a step that is not enabled (\<open>None\<close>) in the
  theories with interleavings.  Operations on a queue hold its lock, so they are
  atomic; \<open>push_vserial\<close> is taken apart into its two sections in \<open>Attach\<close>, and all handlers
  into theirs in \<open>Programs\<close>.  The clock, which
  system calls fail, the C library, the printable characters of Unicode and the arrival of
  input are parameters.  No fuel is used: the loops are functions with a
  termination proof.  \<open>echo_turns\<close> counts turns because its program never ends, and
  \<open>outbound_run\<close> and \<open>inbound_run\<close> count the steps of a task on its own; the theorems about
  them say how many are enough.

  \<^bold>\<open>Defects shown.\<close>  \<open>serwritem_leaves_client_asleep\<close>: a multi-byte write of the guest does
  not wake an attached client.  \<open>stale_task_steals_bytes\<close>: the outbound task of a client
  that has left goes on taking bytes.  \<open>write_error_is_silent\<close>: bytes reported as written
  to a serial port can be lost.  \<open>stalled_guest_blocks_channels\<close>: a guest that polls and
  does not read its reply keeps everybody from the outboxes.  \<open>failed_poll_loses_byte\<close>: a
  byte is taken from its queue before it is sent.  \<open>second_daemon_takes_socket\<close> and
  \<open>invalid_channel_swallows\<close>: a listener removes the socket of a running daemon, and a
  terminal can be attached to a channel that does not exist.  The theorems that exclude
  these executions name the condition.

  \<^bold>\<open>Not modelled.\<close>  Argument parsing, the dispatch of \<open>main\<close> to the commands and log output:
  calls of libraries without logic of the program.  \<open>bind_tcp\<close> and \<open>accept_tcp\<close> pass on the
  results of the runtime, which are parameters of \<open>serve\<close>.  The concurrent sessions of
  \<open>Sessions\<close> run on a fixed drive table: mounting or unmounting by a control command while
  a request is between its lookup of the drive and its access to the disk is not among
  the steps.  \<open>serve_serial\<close> runs its session on a server that nobody else touches: the
  listeners it spawns are part of its result, and how their connections interleave with
  sessions is the subject of \<open>Sessions\<close> and \<open>Attach\<close>.  A task that \<open>select!\<close> abandons in
  \<open>dw attach\<close> is not followed any further.  Windows of time are 64-bit counts of milliseconds,
  which the runtime can add to any instant without overflow.  How the runtime schedules its tasks is left open: all interleavings of
  their steps are considered, and no fairness is assumed.
\<close>

end
